(* ===== verification/Prelude.thy ===== *)
theory Prelude
  imports Main "HOL-Library.Word"
begin

text \<open>
  What the components share: the machine types of the C code, the outcomes of a C function
  (a value, a process exit, an undefined operation), the two result monads built on them,
  checked access to C arrays, and the little-endian image of integers in memory.

  The platform is the one the repository builds for (gcc on a little-endian LP64 host):
  \<open>uint32_t\<close> is a 32-bit word, \<open>int\<close> values that are lengths, counters and
  descriptors are mathematical integers, and the conversions between the two are written
  out with \<open>word_of_int\<close> and \<open>sint\<close> where the code converts.
\<close>

section \<open>Machine types\<close>

type_synonym u8 = "8 word"
type_synonym u16 = "16 word"
type_synonym u32 = "32 word"
type_synonym bytes = "u8 list"

section \<open>Outcomes\<close>

text \<open>
  A C function returns, or it ends the process: with \<open>exit(code)\<close>; by an operation the
  C standard leaves undefined (division by zero, an access outside an array); or by waiting
  for ever in a blocking system call.
\<close>

datatype halt = Exit int | Trap | Blocked

type_synonym 'a res = "halt + 'a"

text \<open>Sequencing of computations that touch no system state.\<close>

definition rbind :: "'a res \<Rightarrow> ('a \<Rightarrow> 'b res) \<Rightarrow> 'b res" where
  "rbind m f = (case m of Inl h \<Rightarrow> Inl h | Inr x \<Rightarrow> f x)"

text \<open>Computations on a system state, which survives the end of the process.\<close>

type_synonym ('s, 'a) io = "'s \<Rightarrow> 'a res \<times> 's"

definition ret :: "'a \<Rightarrow> ('s, 'a) io" where
  "ret x w = (Inr x, w)"

definition halts :: "halt \<Rightarrow> ('s, 'a) io" where
  "halts h w = (Inl h, w)"

definition iobind :: "('s, 'a) io \<Rightarrow> ('a \<Rightarrow> ('s, 'b) io) \<Rightarrow> ('s, 'b) io" where
  "iobind m f w = (case m w of (Inl h, w') \<Rightarrow> (Inl h, w') | (Inr x, w') \<Rightarrow> f x w')"

definition lift_res :: "'a res \<Rightarrow> ('s, 'a) io" where
  "lift_res r w = (r, w)"

named_theorems io_simps \<open>evaluation of the two result monads\<close>

lemma rbind_simps [simp, io_simps]:
  "rbind (Inr x) f = f x"
  "rbind (Inl h) f = Inl h"
  by (simp_all add: rbind_def)

lemma rbind_eq_Inr:
  "rbind m f = Inr y \<longleftrightarrow> (\<exists>x. m = Inr x \<and> f x = Inr y)"
  by (cases m) simp_all

lemma ret_apply [simp, io_simps]: "ret x w = (Inr x, w)"
  by (simp add: ret_def)

lemma halts_apply [simp, io_simps]: "halts h w = (Inl h, w)"
  by (simp add: halts_def)

lemma lift_res_apply [simp, io_simps]: "lift_res r w = (r, w)"
  by (simp add: lift_res_def)

lemma rbind_cong [fundef_cong]:
  "m = m' \<Longrightarrow> (\<And>x. m' = Inr x \<Longrightarrow> f x = g x) \<Longrightarrow> rbind m f = rbind m' g"
  by (cases m') simp_all

lemma iobind_cong [fundef_cong]:
  "w = v \<Longrightarrow> m v = m' v \<Longrightarrow> (\<And>x w'. m' v = (Inr x, w') \<Longrightarrow> f x w' = g x w') \<Longrightarrow>
    iobind m f w = iobind m' g v"
  by (simp add: iobind_def split: prod.splits sum.splits)

lemma iobind_eqs [io_simps]:
  "iobind (lift_res (Inr x)) f = f x"
  "iobind (ret x) f = f x"
  by (simp_all add: fun_eq_iff iobind_def)

section \<open>Correctness of a computation\<close>

text \<open>
  \<open>post m w P E\<close>: run from \<open>w\<close>, the computation never reaches an undefined operation and never
  waits for ever; if it returns, \<open>P\<close> holds of its value and the state, and if the process ends by
  \<open>exit\<close>, \<open>E\<close> holds of the state left behind. With \<open>E = (\<lambda>_. False)\<close> it says that the
  computation returns. The equations below turn a sequence into its weakest precondition.
\<close>

definition post :: "('s, 'a) io \<Rightarrow> 's \<Rightarrow> ('a \<Rightarrow> 's \<Rightarrow> bool) \<Rightarrow> ('s \<Rightarrow> bool) \<Rightarrow> bool" where
  "post m w P E = (case m w of (Inr x, w') \<Rightarrow> P x w' | (Inl (Exit c), w') \<Rightarrow> E w' | (Inl h, w') \<Rightarrow> False)"

lemma post_ret [simp]: "post (ret x) w P E = P x w"
  by (simp add: post_def)

lemma post_Pair [simp]: "post (Pair (Inr x)) w P E = P x w"
  by (simp add: post_def)

lemma post_halts [simp]: "post (halts h) w P E = (h \<noteq> Trap \<and> h \<noteq> Blocked \<and> E w)"
  by (cases h) (simp_all add: post_def)

lemma post_iobind [simp]:
  "post (iobind m f) w P E = post m w (\<lambda>x w'. post (f x) w' P E) E"
  by (auto simp: post_def iobind_def split: prod.splits sum.splits halt.splits)

lemma post_lift_res:
  "post (lift_res r) w P E =
    (case r of Inr x \<Rightarrow> P x w | Inl h \<Rightarrow> h \<noteq> Trap \<and> h \<noteq> Blocked \<and> E w)"
  by (auto simp: post_def split: sum.splits halt.splits)

lemma post_lift_res_Inr [simp]: "post (lift_res (Inr x)) w P E = P x w"
  by (simp add: post_lift_res)

lemma post_lift_res_Inl [simp]: "post (lift_res (Inl h)) w P E = (h \<noteq> Trap \<and> h \<noteq> Blocked \<and> E w)"
  by (simp add: post_lift_res)

lemma post_mono:
  assumes "post m w P E" and "\<And>x w'. P x w' \<Longrightarrow> Q x w'" and "\<And>w'. E w' \<Longrightarrow> F w'"
  shows "post m w Q F"
  using assms by (auto simp: post_def split: prod.splits sum.splits halt.splits)

lemma post_seq:
  assumes "post m w P E" and "\<And>x w'. P x w' \<Longrightarrow> post (f x) w' Q E"
  shows "post (iobind m f) w Q E"
  unfolding post_iobind by (rule post_mono [OF assms(1)]) (use assms(2) in auto)

lemma post_conj:
  "post m w P E \<Longrightarrow> post m w Q F \<Longrightarrow>
    post m w (\<lambda>x w'. P x w' \<and> Q x w') (\<lambda>w'. E w' \<and> F w')"
  by (auto simp: post_def split: prod.splits sum.splits halt.splits)

lemma post_if:
  "post (if b then m else n) w P E = (if b then post m w P E else post n w P E)"
  by simp

lemma post_Inr: "post m w P E \<Longrightarrow> m w = (Inr x, w') \<Longrightarrow> P x w'"
  by (simp add: post_def)

lemma post_no_trap: "post m w P E \<Longrightarrow> fst (m w) \<noteq> Inl Trap"
  by (auto simp: post_def split: prod.splits)

lemma post_no_block: "post m w P E \<Longrightarrow> fst (m w) \<noteq> Inl Blocked"
  by (auto simp: post_def split: prod.splits)

lemma post_total: "post m w P (\<lambda>_. False) \<Longrightarrow> \<exists>x w'. m w = (Inr x, w') \<and> P x w'"
  by (auto simp: post_def split: prod.splits sum.splits halt.splits)

lemma post_from_eq: "m w = (Inr x, w') \<Longrightarrow> post m w P E = P x w'"
  by (simp add: post_def)

lemma post_same: "m w = k v \<Longrightarrow> post k v P E \<Longrightarrow> post m w P E"
  by (simp add: post_def)

lemma post_exit: "post m w P E \<Longrightarrow> m w = (Inl h, w') \<Longrightarrow> E w'"
  by (cases h) (auto simp: post_def)

section \<open>C arrays\<close>

text \<open>
  An array is the list of its elements. Every access names its index as the code computes it
  and is undefined outside the array.
\<close>

definition arr_get :: "'a list \<Rightarrow> int \<Rightarrow> 'a res" where
  "arr_get xs i = (if 0 \<le> i \<and> i < int (length xs) then Inr (xs ! nat i) else Inl Trap)"

definition arr_put :: "'a list \<Rightarrow> int \<Rightarrow> 'a \<Rightarrow> 'a list res" where
  "arr_put xs i x = (if 0 \<le> i \<and> i < int (length xs) then Inr (xs[nat i := x]) else Inl Trap)"

text \<open>The \<open>n\<close> elements from index \<open>off\<close> on: the source side of a \<open>memcpy\<close>.\<close>

definition mem_read :: "'a list \<Rightarrow> nat \<Rightarrow> int \<Rightarrow> 'a list res" where
  "mem_read xs off n =
    (if 0 \<le> n \<and> int off + n \<le> int (length xs) then Inr (take (nat n) (drop off xs)) else Inl Trap)"

text \<open>Overwriting from index \<open>off\<close> on: the destination side of a \<open>memcpy\<close>.\<close>

definition mem_write :: "'a list \<Rightarrow> nat \<Rightarrow> 'a list \<Rightarrow> 'a list res" where
  "mem_write xs off ys =
    (if off + length ys \<le> length xs
     then Inr (take off xs @ ys @ drop (off + length ys) xs) else Inl Trap)"

text \<open>\<open>a % b\<close> on \<open>uint32_t\<close>: undefined for a zero divisor.\<close>

definition u32_mod :: "u32 \<Rightarrow> u32 \<Rightarrow> u32 res" where
  "u32_mod a b = (if b = 0 then Inl Trap else Inr (a mod b))"

lemma arr_get_Inr [simp]: "0 \<le> i \<Longrightarrow> i < int (length xs) \<Longrightarrow> arr_get xs i = Inr (xs ! nat i)"
  by (simp add: arr_get_def)

lemma arr_put_Inr [simp]: "0 \<le> i \<Longrightarrow> i < int (length xs) \<Longrightarrow> arr_put xs i x = Inr (xs[nat i := x])"
  by (simp add: arr_put_def)

lemma mem_read_Inr [simp]:
  "0 \<le> n \<Longrightarrow> int off + n \<le> int (length xs) \<Longrightarrow> mem_read xs off n = Inr (take (nat n) (drop off xs))"
  by (simp add: mem_read_def)

lemma mem_write_Inr [simp]:
  "off + length ys \<le> length xs \<Longrightarrow>
    mem_write xs off ys = Inr (take off xs @ ys @ drop (off + length ys) xs)"
  by (simp add: mem_write_def)

lemma mem_write_length: "mem_write xs off ys = Inr zs \<Longrightarrow> length zs = length xs"
  by (auto simp: mem_write_def split: if_splits)

lemma length_filter_pos: "0 < length (filter P xs) \<longleftrightarrow> (\<exists>i < length xs. P (xs ! i))"
  by (auto simp: filter_empty_conv set_conv_nth)

lemma ex_int_nat: "(\<exists>i < nat m. P (int i)) \<longleftrightarrow> (\<exists>i. 0 \<le> i \<and> i < m \<and> P i)"
proof
  assume "\<exists>i < nat m. P (int i)"
  then obtain i where "i < nat m" "P (int i)" by blast
  then show "\<exists>i. 0 \<le> i \<and> i < m \<and> P i" by (intro exI [of _ "int i"]) (simp add: zless_nat_eq_int_zless)
next
  assume "\<exists>i. 0 \<le> i \<and> i < m \<and> P i"
  then obtain i where "0 \<le> i" "i < m" "P i" by blast
  then show "\<exists>i < nat m. P (int i)" by (intro exI [of _ "nat i"]) simp
qed

section \<open>Integers in memory\<close>

text \<open>What a load of an \<open>unsigned short\<close> at a pair of bytes gives on the host.\<close>

definition le16 :: "u8 \<Rightarrow> u8 \<Rightarrow> u16" where
  "le16 b0 b1 = word_of_nat (unat b0 + 256 * unat b1)"

text \<open>What a store of an \<open>unsigned short\<close> leaves in memory.\<close>

definition le_bytes16 :: "u16 \<Rightarrow> bytes" where
  "le_bytes16 v = [ucast v, ucast (drop_bit 8 v)]"

definition le_bytes32 :: "u32 \<Rightarrow> bytes" where
  "le_bytes32 v = [ucast v, ucast (drop_bit 8 v), ucast (drop_bit 16 v), ucast (drop_bit 24 v)]"

fun of_le_bytes32 :: "bytes \<Rightarrow> u32" where
  "of_le_bytes32 [b0, b1, b2, b3] =
    word_of_nat (unat b0 + 2 ^ 8 * unat b1 + 2 ^ 16 * unat b2 + 2 ^ 24 * unat b3)"
| "of_le_bytes32 _ = 0"

text \<open>\<open>htonl\<close> and \<open>ntohl\<close> reverse the bytes of the host's representation.\<close>

definition htonl :: "u32 \<Rightarrow> u32" where
  "htonl v = of_le_bytes32 (rev (le_bytes32 v))"

definition ntohl :: "u32 \<Rightarrow> u32" where
  "ntohl v = of_le_bytes32 (rev (le_bytes32 v))"

lemma length_le_bytes [simp]: "length (le_bytes16 v) = 2" "length (le_bytes32 w) = 4"
  by (simp_all add: le_bytes16_def le_bytes32_def)

lemma unat_u8_less: "unat (b :: u8) < 256"
  using unsigned_less [of b] by simp

lemma unat_u8_le: "unat (b :: u8) \<le> 255"
  using unat_u8_less [of b] by linarith

lemma unat_le16: "unat (le16 b0 b1) = unat b0 + 256 * unat b1"
proof -
  have "unat b0 + 256 * unat b1 < 2 ^ LENGTH(16)"
    using unat_u8_le [of b0] unat_u8_le [of b1] by simp
  then show ?thesis
    unfolding le16_def unat_of_nat by simp
qed

lemma unat_ucast_8_16: "unat (ucast (v :: u16) :: u8) = unat v mod 256"
  by (simp add: unsigned_ucast_eq take_bit_eq_mod)

lemma unat_ucast_8_32: "unat (ucast (v :: u32) :: u8) = unat v mod 256"
  by (simp add: unsigned_ucast_eq take_bit_eq_mod)

lemma uint_less_int_iff: "uint (v :: 'a::len word) < int n \<longleftrightarrow> unat v < n"
  by (metis of_nat_less_iff uint_nat)

lemma unat_eq_iff_uint: "unat (v :: 'a::len word) = n \<longleftrightarrow> uint v = int n"
  by (metis of_nat_eq_iff uint_nat)

text \<open>Below \<open>2 ^ 31\<close> the signed and the unsigned reading of a 32-bit pattern agree.\<close>

lemma sint_eq_uint_u32: "uint (v :: u32) < 2 ^ 31 \<Longrightarrow> sint v = uint v"
  unfolding sint_uint by (intro signed_take_bit_int_eq_self) (simp_all add: order_trans [of _ 0])

lemma sint_word_of_int_u32:
  assumes "0 \<le> n" and "n < 2 ^ 31"
  shows "sint (word_of_int n :: u32) = n"
proof -
  have "uint (word_of_int n :: u32) = n" using assms by (simp add: uint_word_of_int)
  then show ?thesis using sint_eq_uint_u32 [of "word_of_int n"] assms(2) by simp
qed

lemma unat_drop_bit: "unat (drop_bit n (v :: 'a::len word)) = unat v div 2 ^ n"
  by (metis unat_drop_bit_eq drop_bit_eq_div)

section \<open>Circular arrays\<close>

text \<open>
  \<open>int spot = seq % size\<close>, with \<open>seq\<close> a \<open>uint32_t\<close> and \<open>size\<close> an \<open>int\<close>:
  the size is converted to \<open>uint32_t\<close>, the remainder back to \<open>int\<close>.
\<close>

definition spot_of :: "u32 \<Rightarrow> int \<Rightarrow> int res" where
  "spot_of seq sz = rbind (u32_mod seq (word_of_int sz)) (\<lambda>m. Inr (sint m))"

lemma unat_word_of_int_u32: "0 \<le> n \<Longrightarrow> n < 2 ^ 32 \<Longrightarrow> unat (word_of_int n :: u32) = nat n"
  by (simp add: unat_eq_iff_uint uint_word_of_int)

lemma spot_of_pos:
  assumes "0 < sz" and "sz < 2 ^ 31"
  shows "spot_of seq sz = Inr (int (unat seq mod nat sz))"
proof -
  let ?m = "seq mod word_of_int sz"
  have s: "unat (word_of_int sz :: u32) = nat sz" using assms by (simp add: unat_word_of_int_u32)
  then have nz: "(word_of_int sz :: u32) \<noteq> 0" using assms by (metis nat_0_iff not_less unat_0)
  have u: "unat ?m = unat seq mod nat sz" by (simp add: unat_mod s)
  also have "\<dots> < 2 ^ 31" using assms by (simp add: order_less_trans [of _ "nat sz"])
  finally have "uint ?m < 2 ^ 31" using uint_less_int_iff [of ?m "2 ^ 31"] by simp
  then have "sint ?m = int (unat seq mod nat sz)"
    using u unat_eq_iff_uint [of ?m] by (simp only: sint_eq_uint_u32)
  with nz show ?thesis by (simp add: spot_of_def u32_mod_def)
qed

text \<open>Two numbers of one window of \<open>n\<close> that share a slot are equal.\<close>

lemma same_slot_eq:
  fixes a b :: nat
  assumes "a mod n = b mod n" and "l \<le> a" "a < l + n" and "l \<le> b" "b < l + n"
  shows "a = b"
proof -
  have aux: "x = y" if "x mod n = y mod n" "x \<le> y" "y < x + n" for x y :: nat
  proof -
    have "(y - x) mod n = 0" using that(1,2) by (simp add: mod_eq_dvd_iff_nat [symmetric] dvd_eq_mod_eq_0 [symmetric] eq_commute)
    moreover have "y - x < n" using that by linarith
    ultimately have "y - x = 0" by simp
    with that(2) show ?thesis by simp
  qed
  show ?thesis
  proof (cases "a \<le> b")
    case True
    then show ?thesis using aux [of a b] assms by simp
  next
    case False
    then show ?thesis using aux [of b a] assms by simp
  qed
qed

lemma unat_less_2_32: "unat (v :: u32) < 4294967296"
  using unsigned_less [of v, where 'a = nat] by simp

lemma unat_add_u32:
  "unat (a :: u32) + unat b < 4294967296 \<Longrightarrow> unat (a + b) = unat a + unat b"
  by (simp add: unat_word_ariths)

lemma unat_Suc_u32: "unat (a :: u32) < 4294967295 \<Longrightarrow> unat (a + 1) = Suc (unat a)"
  by (simp add: unat_word_ariths)

text \<open>Counting up to a bound does not wrap.\<close>

lemma unat_Suc_below: "(a :: u32) < b \<Longrightarrow> unat (a + 1) = Suc (unat a)"
  using unat_less_2_32 [of b] by (simp add: unat_Suc_u32 word_less_nat_alt)

lemma unat_u32_numeral_add:
  assumes "0 \<le> n" and "n < 2 ^ 31"
  shows "unat (a + word_of_int n :: u32) =
    (if unat a + nat n < 4294967296 then unat a + nat n else unat a + nat n - 4294967296)"
  using assms unat_less_2_32 [of a]
  by (simp add: unat_word_ariths unat_word_of_int_u32 mod_if [of "_ + _"])

end
