(* ===== verification/Checksum.thy ===== *)
theory Checksum
  imports Prelude
begin

unbundle bit_operations_syntax

text \<open>
  The Internet checksum of libcpe464 (\<open>libcpe464/checksum.c\<close>, \<open>in_cksum\<close>): the code's
  loop over 16-bit words with its 32-bit \<open>int\<close> accumulator and the two folds, and the proof
  that it is the one's complement of the end-around-carry sum. The laws a packet format needs of
  a checksum are the locale \<open>checksum_code\<close>, interpreted here on \<open>in_cksum\<close>.
\<close>

section \<open>The code\<close>

text \<open>
  The loop \<open>while (nleft > 1) sum += *w++\<close> and the odd byte after it. \<open>sum\<close> is an
  \<open>int\<close>: a 32-bit pattern, read as signed where the code shifts it.
\<close>

fun cksum_loop :: "bytes \<Rightarrow> u32 \<Rightarrow> u32" where
  "cksum_loop (b0 # b1 # bs) s = cksum_loop bs (s + ucast (le16 b0 b1))"
| "cksum_loop [b] s = s + ucast (le16 b 0)"
| "cksum_loop [] s = s"

definition in_cksum :: "bytes \<Rightarrow> int \<Rightarrow> u16 res" where
  "in_cksum addr len =
    rbind (mem_read addr 0 (max 0 len)) (\<lambda>bs.
      let s = cksum_loop bs 0;
          s = signed_drop_bit 16 s + (s AND 0xffff);
          s = s + signed_drop_bit 16 s
      in Inr (ucast (NOT s)))"

section \<open>The sum of the words\<close>

text \<open>The same sum without the width of the accumulator.\<close>

fun word_sum :: "bytes \<Rightarrow> nat" where
  "word_sum (b0 # b1 # bs) = unat b0 + 256 * unat b1 + word_sum bs"
| "word_sum [b] = unat b"
| "word_sum [] = 0"

lemma word_sum_bound: "word_sum bs \<le> 65535 * ((length bs + 1) div 2)"
proof (induction bs rule: word_sum.induct)
  case (1 b0 b1 bs)
  with unat_u8_le [of b0] unat_u8_le [of b1] show ?case by simp
next
  case (2 b)
  with unat_u8_le [of b] show ?case by simp
qed simp

lemma unat_ucast_le16: "unat (ucast (le16 b0 b1) :: u32) = unat b0 + 256 * unat b1"
  using unat_u8_le [of b0] unat_u8_le [of b1]
  by (simp add: unsigned_ucast_eq unat_le16 take_bit_eq_mod)

lemma unat_cksum_loop:
  "unat s + word_sum bs < 2 ^ 32 \<Longrightarrow> unat (cksum_loop bs s) = unat s + word_sum bs"
proof (induction bs s rule: cksum_loop.induct)
  case (1 b0 b1 bs s)
  have "unat (s + ucast (le16 b0 b1)) = unat s + (unat b0 + 256 * unat b1)"
    using "1.prems" by (simp add: unat_word_ariths unat_ucast_le16)
  with "1.IH" "1.prems" show ?case by simp
next
  case (2 b s)
  then show ?case by (simp add: unat_word_ariths unat_ucast_le16)
qed simp

text \<open>
  The \<open>int\<close> accumulator never overflows for a buffer of at most 65536 bytes, so the signed
  arithmetic of the C code is defined and its result is the plain sum.
\<close>

lemma cksum_loop_no_overflow:
  assumes "length bs \<le> 65536"
  shows "unat (cksum_loop bs 0) = word_sum bs" and "word_sum bs < 2 ^ 31"
proof -
  have "word_sum bs \<le> 65535 * ((length bs + 1) div 2)" by (rule word_sum_bound)
  also have "\<dots> \<le> 65535 * 32768" using assms by (intro mult_le_mono2) linarith
  finally show b: "word_sum bs < 2 ^ 31" by simp
  then show "unat (cksum_loop bs 0) = word_sum bs" by (simp add: unat_cksum_loop)
qed

section \<open>Folding\<close>

text \<open>The end-around-carry sum of one's complement arithmetic, as a number below \<open>2 ^ 16\<close>.\<close>

definition ones_sum :: "nat \<Rightarrow> nat" where
  "ones_sum n = (if n = 0 then 0 else (n - 1) mod 65535 + 1)"

definition fold_carries :: "u32 \<Rightarrow> u32" where
  "fold_carries s =
    (let s = signed_drop_bit 16 s + (s AND 0xffff) in s + signed_drop_bit 16 s)"

lemma in_cksum_fold:
  "in_cksum addr len =
    rbind (mem_read addr 0 (max 0 len)) (\<lambda>bs. Inr (ucast (NOT (fold_carries (cksum_loop bs 0)))))"
  by (simp add: in_cksum_def fold_carries_def Let_def)

lemma signed_drop_bit_nonneg:
  assumes "unat (s :: u32) < 2 ^ 31"
  shows "unat (signed_drop_bit 16 s) = unat s div 65536"
proof -
  have u: "uint s < 2 ^ 31" using assms uint_less_int_iff [of s "2 ^ 31"] by simp
  have "uint (signed_drop_bit 16 s) = take_bit 32 (drop_bit 16 (uint s))"
    unfolding uint_sint [of "signed_drop_bit 16 s"] sint_signed_drop_bit_eq sint_eq_uint_u32 [OF u]
    by simp
  also have "\<dots> = uint s div 65536"
  proof -
    have "0 \<le> uint s div 65536" by (simp add: pos_imp_zdiv_nonneg_iff)
    moreover have "uint s div 65536 < 2 ^ 32" using u by simp
    ultimately show ?thesis by (simp add: drop_bit_eq_div take_bit_eq_mod)
  qed
  finally show ?thesis by (simp add: unat_eq_iff_uint zdiv_int)
qed

lemma unat_and_ffff: "unat (s AND 0xffff :: u32) = unat s mod 65536"
proof -
  have "s AND 0xffff = take_bit 16 s"
    by (simp add: take_bit_eq_mask mask_numeral)
  then have "unat (s AND 0xffff) = take_bit 16 (unat s)" by (simp only: unsigned_take_bit_eq)
  then show ?thesis by (simp add: take_bit_eq_mod)
qed

lemma ones_sum_fold:
  assumes "n < 2147483648"
  shows "ones_sum n =
    (n div 65536 + n mod 65536 + (n div 65536 + n mod 65536) div 65536) mod 65536"
proof -
  define q r where "q = n div 65536" and "r = n mod 65536"
  have n: "n = 65536 * q + r" and r: "r < 65536" and q: "q < 32768"
    using assms unfolding q_def r_def by auto
  have one: "ones_sum n = (if q + r = 0 then 0 else (q + r - 1) mod 65535 + 1)"
  proof (cases "q + r = 0")
    case False
    then have "n - 1 = 65535 * q + (q + r - 1)" using n by linarith
    then have "(n - 1) mod 65535 = (q + r - 1) mod 65535" by simp
    with False n show ?thesis by (simp add: ones_sum_def)
  qed (simp add: ones_sum_def n)
  show ?thesis
  proof (cases "q + r < 65536")
    case True
    then have "(q + r) div 65536 = 0" "ones_sum n = q + r"
      using one by auto
    with True show ?thesis by (fold q_def r_def) simp
  next
    case False
    define k where "k = q + r - 65536"
    have k: "q + r = k + 65536" "k < 32768"
      using False q r by (simp_all add: k_def)
    have "(q + r - 1) mod 65535 = k" "(q + r) div 65536 = 1" "(q + r + 1) mod 65536 = k + 1"
      using k by (simp_all add: mod_if div_if)
    with one False k show ?thesis by (fold q_def r_def) simp
  qed
qed

text \<open>
  On an accumulator that did not overflow, the low half of the two folds is the end-around-carry
  sum: the second fold adds at most one carry.
\<close>

lemma fold_carries_low:
  assumes "unat s < 2 ^ 31"
  shows "unat (fold_carries s) mod 65536 = ones_sum (unat s)"
proof -
  let ?n = "unat s"
  let ?s1 = "signed_drop_bit 16 s + (s AND 0xffff)"
  have s1: "unat ?s1 = ?n div 65536 + ?n mod 65536"
    using assms by (simp add: unat_word_ariths signed_drop_bit_nonneg unat_and_ffff)
  have b: "?n div 65536 + ?n mod 65536 < 131072" using assms by (simp; linarith)
  then have s2: "unat (signed_drop_bit 16 ?s1) = (?n div 65536 + ?n mod 65536) div 65536"
    using s1 by (simp add: signed_drop_bit_nonneg)
  let ?m = "?n div 65536 + ?n mod 65536"
  have "unat (fold_carries s) = (unat ?s1 + unat (signed_drop_bit 16 ?s1)) mod 2 ^ 32"
    unfolding fold_carries_def Let_def unat_word_ariths by simp
  also have "\<dots> = ?m + ?m div 65536"
    unfolding s1 s2 using b by simp
  finally have f: "unat (fold_carries s) = ?m + ?m div 65536" .
  show ?thesis
    unfolding f by (rule ones_sum_fold [symmetric]) (use assms in simp)
qed

section \<open>What the checksum computes\<close>

lemma in_cksum_value:
  assumes "0 \<le> len" and "len \<le> int (length addr)" and "len \<le> 65536"
  shows "\<exists>c. in_cksum addr len = Inr c \<and>
    unat c = 65535 - ones_sum (word_sum (take (nat len) addr))"
proof -
  let ?bs = "take (nat len) addr"
  let ?f = "fold_carries (cksum_loop ?bs 0)"
  have l: "length ?bs \<le> 65536" using assms by simp
  have "unat ?f mod 65536 = ones_sum (word_sum ?bs)"
    using fold_carries_low cksum_loop_no_overflow [OF l] by simp
  moreover have "unat (ucast (NOT ?f) :: u16) = 65535 - unat ?f mod 65536"
  proof -
    have "(ucast (NOT ?f) :: u16) = NOT (ucast ?f)"
      by (rule bit_word_eqI) (simp add: bit_simps)
    moreover have "unat (NOT v) = 65535 - unat v" for v :: u16
    proof -
      have "NOT v = - 1 - v" by (simp add: not_eq_complement)
      moreover have "unat (- 1 - v) = unat (- 1 :: u16) - unat v" by (rule unat_sub) simp
      ultimately show ?thesis by (simp add: unsigned_minus_1_eq_mask mask_eq_exp_minus_1)
    qed
    ultimately show ?thesis
      by (simp add: unsigned_ucast_eq take_bit_eq_mod)
  qed
  ultimately show ?thesis
    using assms by (simp add: in_cksum_fold)
qed

lemma ones_sum_le: "ones_sum n \<le> 65535"
proof -
  have "(n - 1) mod 65535 < 65535" by simp
  then show ?thesis unfolding ones_sum_def by (auto simp del: mod_less_divisor)
qed

lemma ones_sum_mod: "ones_sum n mod 65535 = n mod 65535"
proof (cases n)
  case (Suc m)
  then have "ones_sum n = m mod 65535 + 1" by (simp add: ones_sum_def)
  then have "ones_sum n mod 65535 = (m + 1) mod 65535" by (simp only: mod_add_left_eq)
  with Suc show ?thesis by simp
qed (simp add: ones_sum_def)

lemma ones_sum_eq_max: "ones_sum n = 65535 \<longleftrightarrow> 0 < n \<and> 65535 dvd n"
proof
  assume "ones_sum n = 65535"
  then show "0 < n \<and> 65535 dvd n"
    using ones_sum_mod [of n] by (auto simp: ones_sum_def dvd_eq_mod_eq_0 split: if_splits)
next
  assume n: "0 < n \<and> 65535 dvd n"
  then have "ones_sum n mod 65535 = 0" using ones_sum_mod [of n] by (simp add: dvd_eq_mod_eq_0)
  moreover have "0 < ones_sum n" using n by (simp add: ones_sum_def)
  ultimately have "65535 \<le> ones_sum n" by (auto simp: dvd_eq_mod_eq_0 [symmetric] dest: dvd_imp_le)
  with ones_sum_le [of n] show "ones_sum n = 65535" by simp
qed

lemma in_cksum_zero_iff:
  assumes "0 \<le> len" and "len \<le> int (length addr)" and "len \<le> 65536"
  shows "in_cksum addr len = Inr 0 \<longleftrightarrow>
    0 < word_sum (take (nat len) addr) \<and> 65535 dvd word_sum (take (nat len) addr)"
proof -
  obtain c where c: "in_cksum addr len = Inr c"
    "unat c = 65535 - ones_sum (word_sum (take (nat len) addr))"
    using in_cksum_value [OF assms] by blast
  have "c = 0 \<longleftrightarrow> unat c = 0" by (simp add: unsigned_eq_0_iff)
  also have "\<dots> \<longleftrightarrow> ones_sum (word_sum (take (nat len) addr)) = 65535"
    unfolding c(2) using ones_sum_le [of "word_sum (take (nat len) addr)"] by linarith
  finally have "c = 0 \<longleftrightarrow> ones_sum (word_sum (take (nat len) addr)) = 65535" .
  with c(1) show ?thesis by (simp add: ones_sum_eq_max)
qed

lemma word_sum_append:
  "even (length xs) \<Longrightarrow> word_sum (xs @ ys) = word_sum xs + word_sum ys"
  by (induction xs rule: word_sum.induct) auto

lemma word_sum_le_bytes16: "word_sum (le_bytes16 v @ ys) = unat v + word_sum ys"
proof -
  have "unat v < 65536" using unsigned_less [of v, where 'a = nat] by simp
  then have "unat v mod 256 + 256 * (unat v div 256 mod 256) = unat v"
    by simp
  then show ?thesis
    by (simp add: le_bytes16_def unat_ucast_8_16 unat_drop_bit)
qed

text \<open>Each byte weighs 1 or 256 in the sum, by the parity of its index.\<close>

lemma word_sum_update:
  "i < length bs \<Longrightarrow>
    word_sum (bs[i := x]) + (if even i then 1 else 256) * unat (bs ! i) =
    word_sum bs + (if even i then 1 else 256) * unat x"
proof (induction bs arbitrary: i rule: word_sum.induct)
  case (1 b0 b1 bs)
  show ?case
  proof (cases i)
    case (Suc j)
    then show ?thesis
      using "1.IH" [of "j - 1"] "1.prems" by (cases j) auto
  qed simp
qed (auto simp: less_Suc_eq)

lemma unat_xor_ff: "unat (b XOR 0xFF :: u8) = 255 - unat b"
proof -
  have "(0xFF :: u8) = - 1" by simp
  moreover have "b XOR - 1 = NOT b" by (rule bit_word_eqI) (simp add: bit_simps)
  ultimately have "b XOR 0xFF = NOT b" by (simp only:)
  moreover have "NOT b = - 1 - b" by (simp add: not_eq_complement)
  moreover have "unat (- 1 - b) = unat (- 1 :: u8) - unat b" by (rule unat_sub) simp
  ultimately show ?thesis by (simp add: unsigned_minus_1_eq_mask mask_eq_exp_minus_1)
qed

text \<open>
  Inverting one byte moves the sum by an odd multiple of 1 or 256 that is smaller than 65535,
  so never by a multiple of 65535.
\<close>

lemma word_sum_flip_not_dvd:
  assumes "i < length bs" and "65535 dvd word_sum bs"
  shows "\<not> 65535 dvd word_sum (bs[i := bs ! i XOR 0xFF])"
proof
  define k m where "k = (if even i then 1 else 256 :: nat)" and "m = unat (bs ! i)"
  define b where "b = int m"
  let ?bs = "bs[i := bs ! i XOR 0xFF]"
  have m: "m \<le> 255" unfolding m_def by (rule unat_u8_le)
  have "word_sum ?bs + k * m = word_sum bs + k * (255 - m)"
    using word_sum_update [OF assms(1), of "bs ! i XOR 0xFF"]
    by (simp only: unat_xor_ff m_def k_def)
  from arg_cong [OF this, of int] m
  have "int (word_sum ?bs) + int k * b = int (word_sum bs) + int k * (255 - b)"
    unfolding b_def by simp
  then have d: "int (word_sum ?bs) - int (word_sum bs) = int k * (255 - 2 * b)"
    by (simp add: algebra_simps)
  have b: "0 \<le> b" "b \<le> 255" using m unfolding b_def by simp_all
  assume "65535 dvd word_sum ?bs"
  then have "(65535 :: int) dvd int (word_sum ?bs)" "(65535 :: int) dvd int (word_sum bs)"
    using assms(2) by presburger+
  then have "65535 dvd int k * (255 - 2 * b)" unfolding d [symmetric] by (rule dvd_diff)
  moreover have "int k * (255 - 2 * b) \<noteq> 0" unfolding k_def by simp presburger
  moreover have "\<bar>int k * (255 - 2 * b)\<bar> < 65535" using b unfolding k_def by auto
  ultimately show False using dvd_imp_le_int [of "int k * (255 - 2 * b)" 65535] by simp
qed

section \<open>The laws of a packet checksum\<close>

text \<open>
  What a packet format relies on: the checksum is defined on every packet and looks at its first
  \<open>len\<close> bytes only; storing the checksum of a packet whose checksum field is zero makes the
  packet verify (its checksum becomes zero); inverting one byte of a packet that verifies makes
  it fail.
\<close>

locale checksum_code =
  fixes cksum :: "bytes \<Rightarrow> int \<Rightarrow> u16 res"
  assumes defined: "0 \<le> n \<Longrightarrow> n \<le> int (length bs) \<Longrightarrow> n \<le> 65536 \<Longrightarrow> \<exists>c. cksum bs n = Inr c"
    and prefix: "0 \<le> n \<Longrightarrow> n \<le> int (length bs) \<Longrightarrow> cksum bs n = cksum (take (nat n) bs) n"
    and seal: "even (length h) \<Longrightarrow> n = int (length h + 2 + length t) \<Longrightarrow> n \<le> 65536 \<Longrightarrow>
      cksum (h @ [0, 0] @ t) n = Inr c \<Longrightarrow> cksum (h @ le_bytes16 c @ t) n = Inr 0"
    and flip: "n = int (length bs) \<Longrightarrow> n \<le> 65536 \<Longrightarrow> cksum bs n = Inr 0 \<Longrightarrow> i < length bs \<Longrightarrow>
      cksum (bs[i := bs ! i XOR 0xFF]) n \<noteq> Inr 0"
begin

lemma seal_exists:
  assumes "even (length h)" and "n = int (length h + 2 + length t)" and "n \<le> 65536"
  shows "\<exists>c. cksum (h @ [0, 0] @ t) n = Inr c \<and> cksum (h @ le_bytes16 c @ t) n = Inr 0"
proof -
  obtain c where "cksum (h @ [0, 0] @ t) n = Inr c"
    using defined [of n "h @ [0, 0] @ t"] assms by auto
  with seal [OF assms] show ?thesis by blast
qed

text \<open>The same in an array that is longer than the packet built in it.\<close>

lemma seal_in_array:
  assumes "even (length h)" and "n = int (length h + 2 + length t)" and "n \<le> 65536"
  shows "\<exists>c. cksum (h @ [0, 0] @ t @ rest) n = Inr c \<and> cksum (h @ le_bytes16 c @ t) n = Inr 0"
proof -
  have "cksum (h @ [0, 0] @ t @ rest) n = cksum (h @ [0, 0] @ t) n"
    using prefix [of n "h @ [0, 0] @ t @ rest"] assms(2) by (simp add: nat_add_distrib)
  with seal_exists [OF assms] show ?thesis by simp
qed

lemma flip_defined:
  assumes "n = int (length bs)" and "n \<le> 65536" and "cksum bs n = Inr 0" and "i < length bs"
  shows "\<exists>c. cksum (bs[i := bs ! i XOR 0xFF]) n = Inr c \<and> c \<noteq> 0"
  using defined [of n "bs[i := bs ! i XOR 0xFF]"] flip [OF assms] assms by auto

end

lemma in_cksum_seal:
  assumes "even (length h)" and "n = int (length h + 2 + length t)" and "n \<le> 65536"
    and c: "in_cksum (h @ [0, 0] @ t) n = Inr c"
  shows "in_cksum (h @ le_bytes16 c @ t) n = Inr 0"
proof -
  let ?s = "word_sum (h @ [0, 0] @ t)"
  have n: "nat n = length h + 2 + length t" using assms(2) by simp
  have u: "unat c = 65535 - ones_sum ?s"
    using in_cksum_value [of n "h @ [0, 0] @ t"] assms n by auto
  have s: "word_sum (h @ le_bytes16 c @ t) = ?s + unat c"
    using assms(1) by (simp add: word_sum_append word_sum_le_bytes16)
  have "(?s + unat c) mod 65535 = (ones_sum ?s + unat c) mod 65535"
    by (metis mod_add_left_eq ones_sum_mod)
  also have "ones_sum ?s + unat c = 65535" using u ones_sum_le [of ?s] by simp
  finally have "65535 dvd ?s + unat c" by (simp add: dvd_eq_mod_eq_0)
  moreover have "0 < ?s + unat c"
    using u ones_sum_def [of ?s] by (cases "?s = 0") auto
  ultimately show ?thesis
    using in_cksum_zero_iff [of n "h @ le_bytes16 c @ t"] assms(2,3) n by (simp add: s)
qed

interpretation internet: checksum_code in_cksum
proof unfold_locales
  fix n :: int and bs :: bytes
  assume "0 \<le> n" "n \<le> int (length bs)" "n \<le> 65536"
  then show "\<exists>c. in_cksum bs n = Inr c" using in_cksum_value by blast
next
  fix n :: int and bs :: bytes
  assume "0 \<le> n" "n \<le> int (length bs)"
  then show "in_cksum bs n = in_cksum (take (nat n) bs) n" by (simp add: in_cksum_def)
next
  fix h t :: bytes and n c
  assume "even (length h)" "n = int (length h + 2 + length t)" "n \<le> 65536"
    "in_cksum (h @ [0, 0] @ t) n = Inr c"
  then show "in_cksum (h @ le_bytes16 c @ t) n = Inr 0" by (rule in_cksum_seal)
next
  fix n :: int and bs :: bytes and i
  assume "n = int (length bs)" "n \<le> 65536" "in_cksum bs n = Inr 0" "i < length bs"
  then show "in_cksum (bs[i := bs ! i XOR 0xFF]) n \<noteq> Inr 0"
    using word_sum_flip_not_dvd [of i bs] by (simp add: in_cksum_zero_iff)
qed

section \<open>Properties\<close>

text \<open>C23: on any buffer of at most 65536 bytes, odd lengths included, \<open>in_cksum\<close> is
  defined and returns the one's complement of the end-around-carry sum of the buffer's 16-bit
  words (RFC 1071); the signed accumulator of the loop holds the exact sum, below \<open>2 ^ 31\<close>.\<close>

theorem in_cksum_rfc1071:
  assumes "0 \<le> len" and "len \<le> int (length addr)" and "len \<le> 65536"
  shows "\<exists>c. in_cksum addr len = Inr c \<and>
    unat c = 65535 - ones_sum (word_sum (take (nat len) addr)) \<and>
    unat (cksum_loop (take (nat len) addr) 0) = word_sum (take (nat len) addr) \<and>
    word_sum (take (nat len) addr) < 2 ^ 31"
  using in_cksum_value [OF assms] cksum_loop_no_overflow [of "take (nat len) addr"] assms by simp

theorem in_cksum_rfc1071_witness:
  "\<exists>c. in_cksum [0x12, 0xFF, 0x34] 3 = Inr c \<and> unat c = 65535 - ones_sum 65350"
  using in_cksum_rfc1071 [of 3 "[0x12, 0xFF, 0x34]"] by auto

end
