(* ===== verification/Packet.thy ===== *)
theory Packet
  imports Checksum
begin

text \<open>
  The packet format of the protocol (\<open>udpCode_spring26_v3/Packet.h\<close>, \<open>Packet.c\<close>): a
  header of seven bytes (sequence number in network order, checksum, flag) and the data.
  The functions work on the caller's array; \<open>packet_bytes\<close> is the packet they build, as a
  value. The lemmas give the format's contract: building is defined and writes exactly that
  packet, a built packet verifies, its fields read back, and a packet with one byte inverted
  is refused.
\<close>

section \<open>Constants of Packet.h\<close>

abbreviation (input) SREJ_HEADER_LEN :: nat where "SREJ_HEADER_LEN \<equiv> 7"
abbreviation (input) SREJ_MAX_DATA :: nat where "SREJ_MAX_DATA \<equiv> 1400"
abbreviation (input) SREJ_MAX_PACKET :: nat where "SREJ_MAX_PACKET \<equiv> 1407"
abbreviation (input) SREJ_MAX_NAME :: nat where "SREJ_MAX_NAME \<equiv> 100"

abbreviation (input) FLAG_DATA :: u8 where "FLAG_DATA \<equiv> 3"
abbreviation (input) FLAG_RR :: u8 where "FLAG_RR \<equiv> 5"
abbreviation (input) FLAG_SREJ :: u8 where "FLAG_SREJ \<equiv> 6"
abbreviation (input) FLAG_FILENAME :: u8 where "FLAG_FILENAME \<equiv> 7"
abbreviation (input) FLAG_FILENAME_RESP :: u8 where "FLAG_FILENAME_RESP \<equiv> 8"
abbreviation (input) FLAG_EOF :: u8 where "FLAG_EOF \<equiv> 32"
abbreviation (input) FLAG_EOF_ACK :: u8 where "FLAG_EOF_ACK \<equiv> 33"
abbreviation (input) FLAG_DONE :: u8 where "FLAG_DONE \<equiv> 34"

section \<open>The code\<close>

text \<open>A pointer into an array is the array and an offset; a write returns the array.\<close>

definition write_u32 :: "bytes \<Rightarrow> nat \<Rightarrow> u32 \<Rightarrow> bytes res" where
  "write_u32 place off val = mem_write place off (le_bytes32 (htonl val))"

definition read_u32 :: "bytes \<Rightarrow> nat \<Rightarrow> u32 res" where
  "read_u32 place off = rbind (mem_read place off 4) (\<lambda>net. Inr (ntohl (of_le_bytes32 net)))"

definition make_packet :: "bytes \<Rightarrow> u32 \<Rightarrow> u8 \<Rightarrow> bytes \<Rightarrow> int \<Rightarrow> (bytes \<times> int) res" where
  "make_packet packet seq flag data data_len =
    (let packet_len = int SREJ_HEADER_LEN + data_len in
     rbind (write_u32 packet 0 seq) (\<lambda>p.
     rbind (arr_put p 4 0) (\<lambda>p.
     rbind (arr_put p 5 0) (\<lambda>p.
     rbind (arr_put p 6 flag) (\<lambda>p.
     rbind (if data_len > 0
            then rbind (mem_read data 0 data_len) (\<lambda>d. mem_write p SREJ_HEADER_LEN d)
            else Inr p) (\<lambda>p.
     rbind (in_cksum p packet_len) (\<lambda>checksum.
     rbind (mem_write p 4 (le_bytes16 checksum)) (\<lambda>p.
     Inr (p, packet_len)))))))))"

definition check_packet :: "bytes \<Rightarrow> int \<Rightarrow> bool res" where
  "check_packet packet packet_len =
    (if packet_len < int SREJ_HEADER_LEN then Inr False
     else rbind (in_cksum packet packet_len) (\<lambda>c. Inr (c = 0)))"

definition get_seq :: "bytes \<Rightarrow> u32 res" where
  "get_seq packet = read_u32 packet 0"

definition get_flag :: "bytes \<Rightarrow> u8 res" where
  "get_flag packet = arr_get packet 6"

section \<open>Network order\<close>

definition be_bytes32 :: "u32 \<Rightarrow> bytes" where
  "be_bytes32 v = rev (le_bytes32 v)"

lemma length_be_bytes32 [simp]: "length (be_bytes32 v) = 4"
  by (simp add: be_bytes32_def)

lemma base256_digits:
  fixes n :: nat
  assumes "n < 4294967296"
  shows "n mod 256 + 256 * (n div 256 mod 256) + 65536 * (n div 65536 mod 256) +
    16777216 * (n div 16777216 mod 256) = n"
proof -
  have d: "n div 256 div 256 = n div 65536" "n div 65536 div 256 = n div 16777216"
    by (simp_all add: div_mult2_eq [symmetric])
  have t: "n div 16777216 mod 256 = n div 16777216" using assms by simp
  have "n = n div 256 * 256 + n mod 256"
    "n div 256 = n div 65536 * 256 + n div 256 mod 256"
    "n div 65536 = n div 16777216 * 256 + n div 65536 mod 256"
    by (simp_all only: d [symmetric] div_mult_mod_eq)
  then show ?thesis unfolding t by linarith
qed

lemma of_le_bytes32_le_bytes32 [simp]: "of_le_bytes32 (le_bytes32 v) = v"
proof -
  have "unat v < 4294967296" using unsigned_less [of v, where 'a = nat] by simp
  from base256_digits [OF this]
  have d: "unat (ucast v :: u8) + 2 ^ 8 * unat (ucast (drop_bit 8 v) :: u8) +
    2 ^ 16 * unat (ucast (drop_bit 16 v) :: u8) + 2 ^ 24 * unat (ucast (drop_bit 24 v) :: u8) = unat v"
    unfolding unat_ucast_8_32 unat_drop_bit by (simp del: mod_div_trivial mod_less)
  show ?thesis
    unfolding le_bytes32_def of_le_bytes32.simps d by simp
qed

lemma le_bytes32_of_le_bytes32:
  "le_bytes32 (of_le_bytes32 [b0, b1, b2, b3]) = [b0, b1, b2, b3]"
proof -
  let ?n = "unat b0 + 2 ^ 8 * unat b1 + 2 ^ 16 * unat b2 + 2 ^ 24 * unat b3"
  have b: "unat b0 < 256" "unat b1 < 256" "unat b2 < 256" "unat b3 < 256"
    by (rule unat_u8_less)+
  then have n: "unat (of_le_bytes32 [b0, b1, b2, b3]) = ?n"
    unfolding of_le_bytes32.simps unat_of_nat by simp
  have d: "(a + 256 * m) mod 256 = a" "(a + 256 * m) div 256 = m" if "a < 256" for a m :: nat
    using that by simp_all
  have h: "?n = unat b0 + 256 * (unat b1 + 256 * (unat b2 + 256 * unat b3))" by simp
  have e: "?n div 2 ^ 8 = ?n div 256" "?n div 2 ^ 16 = ?n div 256 div 256"
    "?n div 2 ^ 24 = ?n div 256 div 256 div 256"
    by (simp_all add: div_mult2_eq [symmetric])
  have "?n mod 256 = unat b0" "?n div 2 ^ 8 mod 256 = unat b1"
    "?n div 2 ^ 16 mod 256 = unat b2" "?n div 2 ^ 24 mod 256 = unat b3"
    unfolding e unfolding h using b by (simp_all only: d) simp
  then show ?thesis
    unfolding le_bytes32_def
    by (simp only: n unat_ucast_8_32 unat_drop_bit word_unat_eq_iff list.inject simp_thms)
qed

lemma htonl_bytes: "le_bytes32 (htonl v) = be_bytes32 v"
proof -
  obtain b0 b1 b2 b3 where "le_bytes32 v = [b0, b1, b2, b3]" by (simp add: le_bytes32_def)
  then show ?thesis
    by (simp add: htonl_def be_bytes32_def le_bytes32_of_le_bytes32 del: of_le_bytes32.simps)
qed

lemma ntohl_be_bytes32 [simp]: "ntohl (of_le_bytes32 (be_bytes32 v)) = v"
proof -
  have "of_le_bytes32 (be_bytes32 v) = htonl v" by (simp add: htonl_def be_bytes32_def)
  then show ?thesis by (simp add: ntohl_def htonl_bytes) (simp add: be_bytes32_def)
qed

lemma be_bytes32_inject [simp]: "be_bytes32 v = be_bytes32 w \<longleftrightarrow> v = w"
  by (metis ntohl_be_bytes32)

lemma write_u32_Inr [simp]:
  "off + 4 \<le> length place \<Longrightarrow>
    write_u32 place off v = Inr (take off place @ be_bytes32 v @ drop (off + 4) place)"
  by (simp add: write_u32_def htonl_bytes)

lemma read_u32_be: "read_u32 (xs @ be_bytes32 v @ ys) (length xs) = Inr v"
  by (simp add: read_u32_def)

text \<open>Reading back what was written, wherever it was written.\<close>

lemma read_write_u32:
  assumes "write_u32 place off v = Inr place'"
  shows "read_u32 place' off = Inr v"
proof -
  have "off + 4 \<le> length place"
    using assms by (auto simp: write_u32_def mem_write_def split: if_splits)
  with assms have "place' = take off place @ be_bytes32 v @ drop (off + 4) place" "length (take off place) = off"
    by simp_all
  with read_u32_be [of "take off place" v "drop (off + 4) place"] show ?thesis by simp
qed

section \<open>The packet as a value\<close>

definition packet_bytes :: "u32 \<Rightarrow> u8 \<Rightarrow> bytes \<Rightarrow> bytes" where
  "packet_bytes seq flag data =
    (case in_cksum (be_bytes32 seq @ [0, 0] @ flag # data) (int (SREJ_HEADER_LEN + length data)) of
       Inl _ \<Rightarrow> []
     | Inr c \<Rightarrow> be_bytes32 seq @ le_bytes16 c @ flag # data)"

text \<open>Packets of the protocol are at most 1407 bytes; the format itself carries 65536.\<close>

abbreviation fits :: "bytes \<Rightarrow> bool" where
  "fits data \<equiv> SREJ_HEADER_LEN + length data \<le> 65536"

lemma packet_bytes_form:
  assumes "fits data"
  obtains c where "in_cksum (be_bytes32 seq @ [0, 0] @ (flag # data) @ rest) (int (7 + length data)) = Inr c"
    and "packet_bytes seq flag data = be_bytes32 seq @ le_bytes16 c @ flag # data"
    and "in_cksum (packet_bytes seq flag data) (int (7 + length data)) = Inr 0"
proof -
  let ?n = "int (7 + length data)"
  have a: "even (length (be_bytes32 seq))" "?n = int (length (be_bytes32 seq) + 2 + length (flag # data))"
    "?n \<le> 65536" using assms by simp_all
  obtain c where c: "in_cksum (be_bytes32 seq @ [0, 0] @ (flag # data) @ rest) ?n = Inr c"
    "in_cksum (be_bytes32 seq @ le_bytes16 c @ flag # data) ?n = Inr 0"
    using internet.seal_in_array [OF a] by blast
  moreover have "in_cksum (be_bytes32 seq @ [0, 0] @ flag # data) ?n = Inr c"
    using internet.prefix [of ?n "be_bytes32 seq @ [0, 0] @ (flag # data) @ rest"] c(1)
    by (simp add: nat_add_distrib eval_nat_numeral)
  then have "packet_bytes seq flag data = be_bytes32 seq @ le_bytes16 c @ flag # data"
    by (simp add: packet_bytes_def)
  ultimately show ?thesis using that by simp
qed

lemma length_packet_bytes [simp]:
  "fits data \<Longrightarrow> length (packet_bytes seq flag data) = 7 + length data"
  by (rule packet_bytes_form [of data seq flag "[]"]) simp_all

lemma packet_bytes_ne_Nil [simp]: "fits data \<Longrightarrow> packet_bytes seq flag data \<noteq> []"
  using length_packet_bytes [of data seq flag] by (metis add_is_0 list.size(3) zero_neq_numeral)

lemma list7_cases:
  assumes "7 \<le> length xs"
  obtains a b c d e f g ys where "xs = a # b # c # d # e # f # g # ys"
  using assms that by (auto simp: eval_nat_numeral Suc_le_length_iff)

lemma drop7: "drop (7 + k) (a # b # c # d # e # f # g # ys) = drop k ys"
  by (simp add: eval_nat_numeral)

text \<open>What \<open>make_packet\<close> does to the caller's array: it writes the packet at its start.\<close>

lemma make_packet_eq:
  assumes "0 \<le> data_len" and "data_len \<le> int (length data)"
    and "7 + data_len \<le> int (length packet)" and "7 + data_len \<le> 65536"
  shows "make_packet packet seq flag data data_len =
    Inr (packet_bytes seq flag (take (nat data_len) data) @ drop (nat (7 + data_len)) packet, 7 + data_len)"
proof -
  let ?d = "take (nat data_len) data" and ?r = "drop (nat (7 + data_len)) packet"
  have l: "length ?d = nat data_len" "int (7 + length ?d) = 7 + data_len" using assms by simp_all
  have f: "fits ?d" using assms by simp
  obtain c where c: "in_cksum (be_bytes32 seq @ [0, 0] @ (flag # ?d) @ ?r) (7 + data_len) = Inr c"
    "packet_bytes seq flag ?d = be_bytes32 seq @ le_bytes16 c @ flag # ?d"
    using packet_bytes_form [OF f, of seq flag ?r] l(2) by metis
  obtain p0 p1 p2 p3 p4 p5 p6 ps where p: "packet = p0 # p1 # p2 # p3 # p4 # p5 # p6 # ps"
    using assms by (elim list7_cases [rotated]) linarith
  obtain s0 s1 s2 s3 where s: "be_bytes32 seq = [s0, s1, s2, s3]"
    by (simp add: be_bytes32_def le_bytes32_def)
  have n: "nat (7 + data_len) = 7 + nat data_len" using assms(1) by (simp add: nat_add_distrib)
  have r: "?r = drop (nat data_len) ps" unfolding n p by (rule drop7)
  have w: "(if data_len > 0 then rbind (mem_read data 0 data_len) (mem_write (s0 # s1 # s2 # s3 # 0 # 0 # flag # ps) 7)
      else Inr (s0 # s1 # s2 # s3 # 0 # 0 # flag # ps)) =
    Inr (be_bytes32 seq @ [0, 0] @ (flag # ?d) @ ?r)"
    using assms l(1) unfolding r by (auto simp: s p drop7)
  show ?thesis
    using c(1) w [unfolded s] by (simp add: make_packet_def Let_def p s c(2) w)
qed

text \<open>The packet a caller sends: the first \<open>packet_len\<close> bytes of the array it built.\<close>

lemma make_packet_sent:
  assumes "length data = n" and "7 + n \<le> length packet" and "fits data"
  shows "make_packet packet seq flag data (int n) =
    Inr (packet_bytes seq flag data @ drop (7 + n) packet, int (7 + n))"
  using make_packet_eq [of "int n" data packet seq flag] assms by (simp add: nat_add_distrib)

section \<open>The contract of the format\<close>

lemma check_packet_defined:
  assumes "n \<le> int (length p)" and "n \<le> 65536"
  shows "\<exists>b. check_packet p n = Inr b"
  using internet.defined [of n p] assms by (auto simp: check_packet_def)

lemma check_packet_bytes [simp]:
  "fits data \<Longrightarrow> check_packet (packet_bytes seq flag data) (int (7 + length data)) = Inr True"
  by (rule packet_bytes_form [of data seq flag "[]"]) (simp_all add: check_packet_def)

lemma get_seq_packet_bytes [simp]: "fits data \<Longrightarrow> get_seq (packet_bytes seq flag data) = Inr seq"
  by (rule packet_bytes_form [of data seq flag "[]"])
    (simp_all add: get_seq_def read_u32_be [of "[]", simplified])

lemma get_flag_packet_bytes [simp]: "fits data \<Longrightarrow> get_flag (packet_bytes seq flag data) = Inr flag"
  by (rule packet_bytes_form [of data seq flag "[]"])
    (simp_all add: get_flag_def nth_append le_bytes16_def)

lemma drop_packet_bytes [simp]: "fits data \<Longrightarrow> drop 7 (packet_bytes seq flag data) = data"
  by (rule packet_bytes_form [of data seq flag "[]"])
    (simp_all add: le_bytes16_def)

text \<open>A packet determines its fields.\<close>

lemma packet_bytes_inject:
  assumes "fits data" and "fits data'"
  shows "packet_bytes seq flag data = packet_bytes seq' flag' data' \<longleftrightarrow>
    seq = seq' \<and> flag = flag' \<and> data = data'"
proof
  assume e: "packet_bytes seq flag data = packet_bytes seq' flag' data'"
  from arg_cong [OF e, of get_seq] arg_cong [OF e, of get_flag] arg_cong [OF e, of "drop 7"]
  show "seq = seq' \<and> flag = flag' \<and> data = data'" using assms by simp
qed simp

text \<open>A packet with a valid checksum has a readable header.\<close>

lemma check_packet_True:
  assumes "check_packet p n = Inr True"
  shows "7 \<le> n" "n \<le> int (length p)" "\<exists>s. get_seq p = Inr s" "\<exists>f. get_flag p = Inr f"
proof -
  show n: "7 \<le> n" using assms by (auto simp: check_packet_def split: if_splits)
  show l: "n \<le> int (length p)"
    using assms n by (auto simp: check_packet_def in_cksum_def mem_read_def split: if_splits)
  show "\<exists>s. get_seq p = Inr s" using n l by (simp add: get_seq_def read_u32_def)
  show "\<exists>f. get_flag p = Inr f" using n l by (simp add: get_flag_def)
qed

lemma check_packet_flip:
  assumes "check_packet p (int (length p)) = Inr True" and "length p \<le> 65536" and "i < length p"
  shows "check_packet (p[i := p ! i XOR 0xFF]) (int (length p)) = Inr False"
proof -
  have n: "7 \<le> length p" using check_packet_True(1) [OF assms(1)] by simp
  then have "in_cksum p (int (length p)) = Inr 0"
    using assms(1) by (auto simp: check_packet_def rbind_eq_Inr)
  then obtain c where "in_cksum (p[i := p ! i XOR 0xFF]) (int (length p)) = Inr c" "c \<noteq> 0"
    using internet.flip_defined [of "int (length p)" p i] assms by auto
  with n show ?thesis by (simp add: check_packet_def)
qed

section \<open>Properties\<close>

text \<open>C22: building a packet in any array large enough for it is defined, returns the packet's
  length and leaves the rest of the array alone; what was built passes \<open>check_packet\<close>, its
  sequence number and flag read back, and the bytes after the header are the data.\<close>

theorem make_packet_round_trip:
  assumes "length data = n" and "7 + n \<le> length packet" and "7 + n \<le> 65536"
  shows "\<exists>p. make_packet packet seq flag data (int n) = Inr (p @ drop (7 + n) packet, int (7 + n)) \<and>
    length p = 7 + n \<and> check_packet p (int (7 + n)) = Inr True \<and>
    get_seq p = Inr seq \<and> get_flag p = Inr flag \<and> drop 7 p = data"
  using make_packet_sent [of data n packet seq flag] check_packet_bytes [of data seq flag] assms
  by (auto simp del: check_packet_bytes)

theorem make_packet_round_trip_witness:
  "\<exists>p. make_packet (replicate 10 0xAA) 0x01020304 FLAG_RR [9, 8] 2 = Inr (p @ [0xAA], 9) \<and>
    get_seq p = Inr 0x01020304 \<and> get_flag p = Inr FLAG_RR \<and> drop 7 p = [9, 8]"
  using make_packet_round_trip [of "[9, 8]" 2 "replicate 10 0xAA" "0x01020304" FLAG_RR]
  by (auto simp: replicate_eqI)

text \<open>C24: inverting all bits of any one byte of a valid packet, which is the damage the error
  library does, makes \<open>check_packet\<close> refuse it.\<close>

theorem damaged_packet_refused:
  assumes "check_packet p (int (length p)) = Inr True" and "length p \<le> 65536" and "i < length p"
  shows "check_packet (p[i := p ! i XOR 0xFF]) (int (length p)) = Inr False"
  by (rule check_packet_flip [OF assms])

theorem damaged_packet_refused_witness:
  "check_packet ((packet_bytes 7 FLAG_DATA [1, 2, 3])[8 := packet_bytes 7 FLAG_DATA [1, 2, 3] ! 8 XOR 0xFF]) 10 =
    Inr False"
  using damaged_packet_refused [of "packet_bytes 7 FLAG_DATA [1, 2, 3]" 8]
    check_packet_bytes [of "[1, 2, 3]" 7 FLAG_DATA]
  by simp

text \<open>A 32-bit field written anywhere in an array reads back as the same number, in network
  order, and no other byte of the array changes.\<close>

theorem u32_field_round_trip:
  assumes "off + 4 \<le> length place"
  shows "\<exists>place'. write_u32 place off v = Inr place' \<and> read_u32 place' off = Inr v \<and>
    length place' = length place \<and> take 4 (drop off place') = be_bytes32 v \<and>
    (\<forall>i < length place. i < off \<or> off + 4 \<le> i \<longrightarrow> place' ! i = place ! i)"
proof -
  let ?p = "take off place @ be_bytes32 v @ drop (off + 4) place"
  have w: "write_u32 place off v = Inr ?p" using assms by simp
  moreover have "read_u32 ?p off = Inr v" by (rule read_write_u32 [OF w])
  moreover have "?p ! i = place ! i" if "i < length place" "i < off \<or> off + 4 \<le> i" for i
    using that assms by (auto simp: nth_append)
  ultimately show ?thesis using assms by simp
qed

theorem u32_field_round_trip_witness:
  "\<exists>p. write_u32 [1, 2, 3, 4, 5, 6] 1 0xCAFE0102 = Inr p \<and> read_u32 p 1 = Inr 0xCAFE0102 \<and>
    length p = 6"
  using u32_field_round_trip [of 1 "[1, 2, 3, 4, 5, 6]" "0xCAFE0102"] by simp

end
