(* ===== verification/System.thy ===== *)
theory System
  imports Packet
begin

text \<open>
  The process and what surrounds it: one record holds everything a process reads from or leaves
  in the operating system, the system calls of the code are functions on it, and the checked
  wrappers of \<open>safeUtil.c\<close> are built on them.

  What a system call will answer is part of the record: the arrivals on the process's UDP
  socket, in order, with the quiet periods between them, and a list of answers per call that may
  fail (an exhausted list means success). A quiet period lasts as long as the wait it ends: every poll
  with a finite timeout, \<open>POLL_NOW\<close> or ten seconds, takes one of them, so that how long each poll waits is
  part of the timeline and not of the code. \<open>hung\<close> lists the descriptors that are in a state \<open>poll\<close>
  reports whatever it is asked for (hung up, in error, not open). A theorem that quantifies over the record therefore
  speaks about every behaviour of the network and of the operating system.
\<close>

section \<open>The state of a process\<close>

text \<open>A socket address (\<open>struct sockaddr_in6\<close>): the host, an opaque value, and the port as it
  is stored, in network order.\<close>

type_synonym addr = "nat \<times> u16"

datatype arrival = Datagram addr bytes | RecvError

text \<open>
  The timeline of the socket: a period in which a poll times out, an arrival, or a poll that
  fails. After the last event the network stays quiet.
\<close>

datatype net_event = Quiet | Arrives arrival | PollError

datatype read_answer = ReadFull | ReadShort nat | ReadError
datatype write_answer = WriteFull | WriteShort nat | WriteError

record pollfd =
  p_fd :: int
  p_events :: int
  p_revents :: int

record world =
  net :: "net_event list"
  sends :: "bool list"
  sent :: "(addr \<times> bytes) list"
  in_rest :: bytes
  reads :: "read_answer list"
  out_data :: bytes
  writes :: "write_answer list"
  allocs :: "bool list"
  live :: nat
  fds :: "int list"
  closed :: "int list"
  opened :: "bytes list"
  hosts :: "nat option list"
  binds :: "bool list"
  forks :: "bool list"
  children :: "(addr \<times> bytes) list"
  zombies :: nat
  hung :: "int list"
  udp_fd :: int
  pollFileDescriptors :: "pollfd list"
  maxFileDescriptor :: int
  currentPollSetSize :: int

type_synonym 'a sys = "(world, 'a) io"

section \<open>System calls\<close>

text \<open>\<open>recvfrom\<close> waits for the next arrival; the datagram is cut to the buffer's length.\<close>

fun next_arrival :: "net_event list \<Rightarrow> (arrival \<times> net_event list) option" where
  "next_arrival [] = None"
| "next_arrival (Arrives a # es) = Some (a, es)"
| "next_arrival (_ # es) = next_arrival es"

definition sys_recvfrom :: "int \<Rightarrow> (addr \<times> bytes) option sys" where
  "sys_recvfrom len w =
    (case next_arrival (net w) of
       None \<Rightarrow> (Inl Blocked, w)
     | Some (RecvError, es) \<Rightarrow> (Inr None, w\<lparr>net := es\<rparr>)
     | Some (Datagram a bs, es) \<Rightarrow> (Inr (Some (a, take (nat len) bs)), w\<lparr>net := es\<rparr>))"

definition sys_sendto :: "addr \<Rightarrow> bytes \<Rightarrow> bool sys" where
  "sys_sendto dst bs w =
    (if sends w \<noteq> [] \<and> \<not> hd (sends w) then (Inr False, w\<lparr>sends := tl (sends w)\<rparr>)
     else (Inr True, w\<lparr>sends := tl (sends w), sent := sent w @ [(dst, bs)]\<rparr>))"

definition read_amount :: "world \<Rightarrow> int \<Rightarrow> int" where
  "read_amount w n =
    (let avail = min n (int (length (in_rest w))) in
     case reads w of
       ReadError # _ \<Rightarrow> - 1
     | ReadShort k # _ \<Rightarrow> min (int (max 1 k)) avail
     | _ \<Rightarrow> avail)"

text \<open>\<open>read\<close> gives the bytes read and its return value.\<close>

definition sys_read :: "int \<Rightarrow> (bytes \<times> int) sys" where
  "sys_read n w =
    (let k = read_amount w n in
     (Inr (take (nat k) (in_rest w), k),
      w\<lparr>in_rest := drop (nat k) (in_rest w), reads := tl (reads w)\<rparr>))"

definition write_amount :: "world \<Rightarrow> bytes \<Rightarrow> int" where
  "write_amount w bs =
    (case writes w of
       WriteError # _ \<Rightarrow> - 1
     | WriteShort k # _ \<Rightarrow> int (min k (length bs))
     | _ \<Rightarrow> int (length bs))"

definition sys_write :: "bytes \<Rightarrow> int sys" where
  "sys_write bs w =
    (let k = write_amount w bs in
     (Inr k, w\<lparr>out_data := out_data w @ take (nat k) bs, writes := tl (writes w)\<rparr>))"

text \<open>
  \<open>calloc (n, size)\<close>: \<open>n\<close> is converted to \<open>size_t\<close>, so a negative count asks for more
  than any allocation can hold; otherwise the system decides.
\<close>

definition sys_calloc :: "int \<Rightarrow> 'a \<Rightarrow> 'a list option sys" where
  "sys_calloc n zero w =
    (if n < 0 \<or> (allocs w \<noteq> [] \<and> \<not> hd (allocs w)) then (Inr None, w\<lparr>allocs := tl (allocs w)\<rparr>)
     else (Inr (Some (replicate (nat n) zero)), w\<lparr>allocs := tl (allocs w), live := Suc (live w)\<rparr>))"

text \<open>Freeing what is not allocated is undefined.\<close>

definition sys_free :: "unit sys" where
  "sys_free w = (if live w = 0 then (Inl Trap, w) else (Inr (), w\<lparr>live := live w - 1\<rparr>))"

text \<open>A new descriptor (\<open>open\<close>, \<open>socket\<close>), or -1.\<close>

definition sys_new_fd :: "int sys" where
  "sys_new_fd w = (case fds w of [] \<Rightarrow> (Inr (- 1), w) | f # fs \<Rightarrow> (Inr f, w\<lparr>fds := fs\<rparr>))"

definition sys_close :: "int \<Rightarrow> unit sys" where
  "sys_close fd w = (Inr (), w\<lparr>closed := closed w @ [fd]\<rparr>)"

text \<open>\<open>open\<close> for writing with \<open>O_TRUNC\<close>, and for reading: the name is recorded.\<close>

definition sys_open_trunc :: "bytes \<Rightarrow> int sys" where
  "sys_open_trunc name = iobind sys_new_fd (\<lambda>fd w.
    (Inr fd, if fd < 0 then w else w\<lparr>opened := opened w @ [name], out_data := []\<rparr>))"

definition sys_open_read :: "bytes \<Rightarrow> int sys" where
  "sys_open_read name = iobind sys_new_fd (\<lambda>fd w.
    (Inr fd, if fd < 0 then w else w\<lparr>opened := opened w @ [name]\<rparr>))"

text \<open>A local array whose contents are indeterminate when the function starts. Nothing the code
  computes may depend on them; a pattern that is not zero keeps the model honest about it.\<close>

definition uninit :: "nat \<Rightarrow> bytes" where
  "uninit n = replicate n 0xAA"

lemma length_uninit [simp]: "length (uninit n) = n"
  by (simp add: uninit_def)

text \<open>The C string at an offset of an array: undefined when no NUL ends it inside the array.\<close>

definition c_string :: "bytes \<Rightarrow> nat \<Rightarrow> bytes res" where
  "c_string a off =
    (let s = takeWhile (\<lambda>b. b \<noteq> 0) (drop off a) in
     if off + length s < length a then Inr s else Inl Trap)"

section \<open>safeUtil.c\<close>

text \<open>
  \<open>safeRecvfrom\<close>: the sender's address and the bytes received, or \<open>exit (-1)\<close>.
  \<open>safeSendto\<close> is given the array and the length the code passes; the call underneath is
  \<open>sendtoErr\<close>, which ends the process when asked to send nothing.
\<close>

definition safeRecvfrom :: "int \<Rightarrow> (addr \<times> bytes) sys" where
  "safeRecvfrom len = iobind (sys_recvfrom len) (\<lambda>r.
    case r of None \<Rightarrow> halts (Exit (- 1)) | Some (a, bs) \<Rightarrow> ret (a, bs))"

definition safeSendto :: "bytes \<Rightarrow> int \<Rightarrow> addr \<Rightarrow> unit sys" where
  "safeSendto buf len dst =
    (if len = 0 then halts (Exit 1)
     else iobind (lift_res (mem_read buf 0 len)) (\<lambda>bs.
       iobind (sys_sendto dst bs) (\<lambda>ok. if ok then ret () else halts (Exit (- 1)))))"

definition sCalloc :: "int \<Rightarrow> 'a \<Rightarrow> 'a list sys" where
  "sCalloc n zero = iobind (sys_calloc n zero) (\<lambda>r.
    case r of None \<Rightarrow> halts (Exit (- 1)) | Some xs \<Rightarrow> ret xs)"

text \<open>
  \<open>srealloc\<close> keeps the old contents; what a larger block holds beyond them is not set by the
  call, so it is a parameter.
\<close>

definition srealloc :: "'a list \<Rightarrow> int \<Rightarrow> (nat \<Rightarrow> 'a) \<Rightarrow> 'a list sys" where
  "srealloc xs n junk w =
    (if n < 0 \<or> (allocs w \<noteq> [] \<and> \<not> hd (allocs w)) then (Inl (Exit (- 1)), w\<lparr>allocs := tl (allocs w)\<rparr>)
     else (Inr (take (nat n) xs @ map junk [length xs..<nat n]), w\<lparr>allocs := tl (allocs w)\<rparr>))"

section \<open>Sending and receiving\<close>

lemma post_safeSendto:
  assumes "0 < len" and "len \<le> int (length buf)"
    and "P () (w\<lparr>sends := tl (sends w), sent := sent w @ [(dst, take (nat len) buf)]\<rparr>)"
    and "sends w \<noteq> [] \<Longrightarrow> E (w\<lparr>sends := tl (sends w)\<rparr>)"
  shows "post (safeSendto buf len dst) w P E"
  using assms by (simp add: post_def safeSendto_def sys_sendto_def iobind_def)

text \<open>Building a packet and sending it, the pattern of every sender.\<close>

lemma post_make_send:
  assumes "int (length data) = n" and "7 + length data \<le> length arr" and "fits data"
    and "post (k (packet_bytes seq flag data @ drop (7 + length data) arr) (int (7 + length data))) 
      (w\<lparr>sends := tl (sends w), sent := sent w @ [(dst, packet_bytes seq flag data)]\<rparr>) P E"
    and "sends w \<noteq> [] \<Longrightarrow> E (w\<lparr>sends := tl (sends w)\<rparr>)"
  shows "post (iobind (lift_res (make_packet arr seq flag data n)) (\<lambda>(packet, packet_len).
    iobind (safeSendto packet packet_len dst) (\<lambda>_. k packet packet_len))) w P E"
proof -
  have m: "make_packet arr seq flag data n =
      Inr (packet_bytes seq flag data @ drop (7 + length data) arr, int (7 + length data))"
    using make_packet_sent [of data "length data" arr seq flag] assms(1-3) by simp
  have "nat (7 + int (length data)) = 7 + length data" by linarith
  then show ?thesis
    using assms(2-5) by (auto simp: m intro!: post_safeSendto)
qed

lemma next_arrival_suffix: "next_arrival es = Some (a, fs) \<Longrightarrow> \<exists>ds. es = ds @ Arrives a # fs"
proof (induction es rule: next_arrival.induct)
  case (2 b es)
  then show ?case by (intro exI [of _ "[]"]) simp
qed (force intro: exI [of _ "_ # _"])+

text \<open>Receiving when something is there.\<close>

lemma post_safeRecvfrom_arrival:
  assumes "net w = Arrives a # es"
    and "\<And>src m. a = Datagram src m \<Longrightarrow> P (src, take (nat len) m) (w\<lparr>net := es\<rparr>)"
    and "E (w\<lparr>net := es\<rparr>)"
  shows "post (safeRecvfrom len) w P E"
  using assms by (cases a) (simp_all add: post_def safeRecvfrom_def sys_recvfrom_def iobind_def)


lemma post_safeRecvfrom:
  assumes "next_arrival (net w) \<noteq> None"
    and "\<And>src m es. next_arrival (net w) = Some (Datagram src m, es) \<Longrightarrow>
      P (src, take (nat len) m) (w\<lparr>net := es\<rparr>)"
    and "\<And>es. E (w\<lparr>net := es\<rparr>)"
  shows "post (safeRecvfrom len) w P E"
  using assms
  by (auto simp: post_def safeRecvfrom_def sys_recvfrom_def iobind_def split: option.splits arrival.splits)

section \<open>A process for concrete cases\<close>

text \<open>A fresh process for the concrete cases: \<open>fd\<close> for the socket and one more descriptor.\<close>

definition demo_world :: "net_event list \<Rightarrow> bytes \<Rightarrow> world" where
  "demo_world es F = \<lparr>net = es, sends = [], sent = [], in_rest = F, reads = [], out_data = [], writes = [],
    allocs = [], live = 0, fds = [3, 4], closed = [], opened = [], hosts = [Some 1], binds = [], forks = [],
    children = [], zombies = 0, hung = [], udp_fd = 0, pollFileDescriptors = [], maxFileDescriptor = 0,
    currentPollSetSize = 0\<rparr>"

end
