(* ===== verification/PollLib.thy ===== *)
theory PollLib
  imports System
begin

text \<open>
  The poll set (\<open>udpCode_spring26_v3/pollLib.c\<close>): a growable table of poll entries indexed by
  descriptor. \<open>poll\<close> itself is the system call: it fills \<open>revents\<close> from the timeline of the
  socket and from the descriptors that are hung up. The lemmas show that a registered socket is found ready
  exactly when a datagram (or an error) has arrived on it, whatever else the table holds, as long as no
  descriptor is hung up. A cleared entry of the table names descriptor 0, the standard input, which is why
  a hung-up descriptor matters: \<open>pollCall_contract\<close> covers it.
\<close>

abbreviation (input) POLL_SET_SIZE :: int where "POLL_SET_SIZE \<equiv> 10"
abbreviation (input) POLLIN :: int where "POLLIN \<equiv> 1"
abbreviation (input) POLLHUP :: int where "POLLHUP \<equiv> 16"

definition zero_pollfd :: pollfd where
  "zero_pollfd = \<lparr>p_fd = 0, p_events = 0, p_revents = 0\<rparr>"

section \<open>The table\<close>

definition setupPollSet :: "unit sys" where
  "setupPollSet w =
    iobind (sCalloc POLL_SET_SIZE zero_pollfd) (\<lambda>fs w'.
      (Inr (), w'\<lparr>pollFileDescriptors := fs\<rparr>)) (w\<lparr>currentPollSetSize := POLL_SET_SIZE\<rparr>)"

text \<open>The loop of \<open>growPollSet\<close> that clears the new entries; \<open>revents\<close> is left as it was.\<close>

definition clear_entry :: "pollfd \<Rightarrow> pollfd" where
  "clear_entry e = e\<lparr>p_fd := 0, p_events := 0\<rparr>"

function zero_new_entries :: "pollfd list \<Rightarrow> int \<Rightarrow> int \<Rightarrow> pollfd list res" where
  "zero_new_entries fs i n =
    (if i < n then
       rbind (arr_get fs i) (\<lambda>e. rbind (arr_put fs i (clear_entry e)) (\<lambda>fs'. zero_new_entries fs' (i + 1) n))
     else Inr fs)"
  by pat_completeness auto
termination
  by (relation "measure (\<lambda>(fs, i, n). nat (n - i))") auto

declare zero_new_entries.simps [simp del]

definition growPollSet :: "(nat \<Rightarrow> pollfd) \<Rightarrow> int \<Rightarrow> unit sys" where
  "growPollSet junk newSetSize w =
    (if newSetSize \<le> currentPollSetSize w then (Inl (Exit (- 1)), w)
     else iobind (srealloc (pollFileDescriptors w) newSetSize junk) (\<lambda>fs.
       iobind (lift_res (zero_new_entries fs (currentPollSetSize w) newSetSize)) (\<lambda>fs' w'.
         (Inr (), w'\<lparr>pollFileDescriptors := fs', currentPollSetSize := newSetSize\<rparr>))) w)"

definition set_entry :: "int \<Rightarrow> int \<Rightarrow> int \<Rightarrow> unit sys" where
  "set_entry i fd ev w =
    iobind (lift_res (arr_get (pollFileDescriptors w) i)) (\<lambda>e.
      iobind (lift_res (arr_put (pollFileDescriptors w) i (e\<lparr>p_fd := fd, p_events := ev\<rparr>))) (\<lambda>fs w'.
        (Inr (), w'\<lparr>pollFileDescriptors := fs\<rparr>))) w"

definition addToPollSet :: "(nat \<Rightarrow> pollfd) \<Rightarrow> int \<Rightarrow> unit sys" where
  "addToPollSet junk socketNumber w =
    iobind (if socketNumber \<ge> currentPollSetSize w
            then growPollSet junk (socketNumber + POLL_SET_SIZE) else ret ()) (\<lambda>_ w.
      iobind (\<lambda>w. (Inr (), if socketNumber + 1 \<ge> maxFileDescriptor w
                           then w\<lparr>maxFileDescriptor := socketNumber + 1\<rparr> else w)) (\<lambda>_.
        set_entry socketNumber socketNumber POLLIN) w) w"

definition removeFromPollSet :: "int \<Rightarrow> unit sys" where
  "removeFromPollSet socketNumber = set_entry socketNumber 0 0"

section \<open>Polling\<close>

text \<open>
  The system call: \<open>revents\<close> of the first \<open>n\<close> entries, and how many are nonzero. A negative
  descriptor is skipped. \<open>POLLHUP\<close> stands for the conditions that are reported without being asked
  for. With a negative timeout the call waits until an entry is ready (or it is interrupted), for ever if
  need be; with any other a quiet period ends it.
\<close>

definition hung_up :: "int list \<Rightarrow> pollfd \<Rightarrow> bool" where
  "hung_up hs e \<longleftrightarrow> 0 \<le> p_fd e \<and> p_fd e \<in> set hs"

fun arrived :: "net_event list \<Rightarrow> bool" where
  "arrived (Arrives a # es) = True"
| "arrived es = False"

definition mark_ready :: "int list \<Rightarrow> bool \<Rightarrow> int \<Rightarrow> pollfd \<Rightarrow> pollfd" where
  "mark_ready hs arr s e = e\<lparr>p_revents :=
    (if 0 \<le> p_fd e \<and> arr \<and> p_fd e = s \<and> p_events e = POLLIN then POLLIN else 0) +
    (if hung_up hs e then POLLHUP else 0)\<rparr>"

definition poll_wait :: "int \<Rightarrow> int \<Rightarrow> world \<Rightarrow> net_event list" where
  "poll_wait n t w =
    (if t < 0 \<and> \<not> list_ex (hung_up (hung w)) (take (nat n) (pollFileDescriptors w))
     then dropWhile (\<lambda>e. e = Quiet) (net w) else net w)"

definition sys_poll :: "int \<Rightarrow> int \<Rightarrow> int sys" where
  "sys_poll n t w =
    (let es = poll_wait n t w; fs = pollFileDescriptors w;
         marked = map (mark_ready (hung w) (arrived es) (udp_fd w)) (take (nat n) fs);
         fs' = marked @ drop (nat n) fs;
         k = length (filter (\<lambda>e. p_revents e > 0) marked)
     in if n < 0 \<or> int (length fs) < n then (Inl Trap, w)
        else case es of
          PollError # es' \<Rightarrow> (Inr (- 1), w\<lparr>net := es'\<rparr>)
        | _ \<Rightarrow>
            if k > 0 then (Inr (int k), w\<lparr>net := es, pollFileDescriptors := fs'\<rparr>)
            else if t < 0 then (Inl Blocked, w)
            else (Inr 0, w\<lparr>net := (case es of Quiet # es' \<Rightarrow> es' | _ \<Rightarrow> es), pollFileDescriptors := fs'\<rparr>))"

text \<open>The loop of \<open>pollCall\<close>: the lowest ready index below \<open>n\<close>, or -1.\<close>

function find_ready :: "pollfd list \<Rightarrow> int \<Rightarrow> int \<Rightarrow> int res" where
  "find_ready fs i n =
    (if i < n then
       rbind (arr_get fs i) (\<lambda>e. if p_revents e > 0 then Inr i else find_ready fs (i + 1) n)
     else Inr (- 1))"
  by pat_completeness auto
termination
  by (relation "measure (\<lambda>(fs, i, n). nat (n - i))") auto

declare find_ready.simps [simp del]

definition pollCall :: "int \<Rightarrow> int sys" where
  "pollCall timeInMilliSeconds w =
    iobind (sys_poll (maxFileDescriptor w) timeInMilliSeconds) (\<lambda>pollValue w'.
      if pollValue < 0 then (Inl (Exit (- 1)), w')
      else if pollValue > 0
        then (find_ready (pollFileDescriptors w') 0 (maxFileDescriptor w'), w')
      else (Inr (- 1), w')) w"

text \<open>Polling changes the table and takes events from the front of the timeline.\<close>

lemma poll_wait_suffix: "\<exists>ds. net w = ds @ poll_wait n t w"
  by (metis append_Nil poll_wait_def takeWhile_dropWhile_id)

lemma sys_poll_frame:
  assumes "sys_poll n t w = (r, v)"
  shows "\<exists>fs ds es. v = w\<lparr>net := es, pollFileDescriptors := fs\<rparr> \<and> net w = ds @ es"
proof -
  obtain ds where ds: "net w = ds @ poll_wait n t w" using poll_wait_suffix by blast
  have same: "w = w\<lparr>net := net w, pollFileDescriptors := pollFileDescriptors w\<rparr>" by simp
  have one: "w\<lparr>net := es\<rparr> = w\<lparr>net := es, pollFileDescriptors := pollFileDescriptors w\<rparr>" for es by simp
  consider "v = w" | "v = w\<lparr>net := poll_wait n t w, pollFileDescriptors := pollFileDescriptors v\<rparr>"
    | e es where "poll_wait n t w = e # es" "v = w\<lparr>net := es, pollFileDescriptors := pollFileDescriptors v\<rparr>"
    using assms by (auto simp: sys_poll_def Let_def split: if_splits list.splits net_event.splits)
  then show ?thesis
  proof cases
    case 1
    with same show ?thesis by (intro exI [of _ "pollFileDescriptors w"] exI [of _ "[]"] exI [of _ "net w"]) simp
  next
    case 2
    with ds show ?thesis by blast
  next
    case (3 e es)
    with ds have "net w = (ds @ [e]) @ es" by simp
    with 3(2) show ?thesis by blast
  qed
qed

lemma pollCall_frame:
  assumes "pollCall t w = (r, v)"
  shows "\<exists>fs ds es. v = w\<lparr>net := es, pollFileDescriptors := fs\<rparr> \<and> net w = ds @ es"
proof -
  obtain r' v' where p: "sys_poll (maxFileDescriptor w) t w = (r', v')" by fastforce
  with assms have "v = v'" by (auto simp: pollCall_def iobind_def split: sum.splits if_splits)
  with sys_poll_frame [OF p] show ?thesis by simp
qed

section \<open>A registered socket\<close>

text \<open>
  What the rest of the program relies on after \<open>addToPollSet\<close> on its socket: the table covers
  the polled range, the socket's entry asks for input, and nothing else will be reported.
\<close>

definition registered :: "int \<Rightarrow> world \<Rightarrow> bool" where
  "registered s w \<longleftrightarrow>
    0 \<le> s \<and> s < maxFileDescriptor w \<and> maxFileDescriptor w \<le> int (length (pollFileDescriptors w)) \<and>
    p_fd (pollFileDescriptors w ! nat s) = s \<and> p_events (pollFileDescriptors w ! nat s) = POLLIN"

definition socket_polled :: "world \<Rightarrow> bool" where
  "socket_polled w \<longleftrightarrow> hung w = [] \<and> registered (udp_fd w) w"

lemmas socket_polled_defs = socket_polled_def registered_def

lemma not_hung_up [simp]: "\<not> hung_up [] e"
  by (simp add: hung_up_def)

lemma mark_ready_sel [simp]:
  "p_fd (mark_ready hs a s e) = p_fd e" "p_events (mark_ready hs a s e) = p_events e"
  "p_revents (mark_ready hs a s e) > 0 \<longleftrightarrow>
    0 \<le> p_fd e \<and> (a \<and> p_fd e = s \<and> p_events e = POLLIN \<or> p_fd e \<in> set hs)"
  by (auto simp: mark_ready_def hung_up_def)

text \<open>The scan returns the lowest index whose entry is ready, or -1 when there is none.\<close>

definition lowest_ready :: "pollfd list \<Rightarrow> int \<Rightarrow> int \<Rightarrow> int \<Rightarrow> bool" where
  "lowest_ready fs i n k \<longleftrightarrow>
    (if k = - 1 then \<forall>j. i \<le> j \<and> j < n \<longrightarrow> \<not> p_revents (fs ! nat j) > 0
     else i \<le> k \<and> k < n \<and> p_revents (fs ! nat k) > 0 \<and>
       (\<forall>j. i \<le> j \<and> j < k \<longrightarrow> \<not> p_revents (fs ! nat j) > 0))"

lemma find_ready_spec:
  assumes "0 \<le> i" and "n \<le> int (length fs)"
  shows "\<exists>k. find_ready fs i n = Inr k \<and> lowest_ready fs i n k"
  using assms
proof (induction fs i n rule: find_ready.induct)
  case (1 fs i n)
  show ?case
  proof (cases "i < n \<and> \<not> p_revents (fs ! nat i) > 0")
    case True
    with "1.prems" have g: "arr_get fs i = Inr (fs ! nat i)" by simp
    obtain k where k: "find_ready fs (i + 1) n = Inr k" "lowest_ready fs (i + 1) n k"
      using "1.IH" [OF _ g] True "1.prems" by auto
    have "find_ready fs i n = Inr k"
      using True g k(1) by (simp add: find_ready.simps [of fs i n])
    moreover have "j = i \<or> i + 1 \<le> j" if "i \<le> j" for j using that by linarith
    with k(2) True have "lowest_ready fs i n k"
      unfolding lowest_ready_def by (auto split: if_splits)
    ultimately show ?thesis by blast
  next
    case False
    with "1.prems" show ?thesis by (auto simp: find_ready.simps [of fs i n] lowest_ready_def)
  qed
qed

text \<open>The table after a poll.\<close>

definition polled :: "world \<Rightarrow> bool \<Rightarrow> pollfd list" where
  "polled w arr =
    map (mark_ready (hung w) arr (udp_fd w)) (take (nat (maxFileDescriptor w)) (pollFileDescriptors w)) @
    drop (nat (maxFileDescriptor w)) (pollFileDescriptors w)"

lemma length_polled [simp]: "length (polled w b) = length (pollFileDescriptors w)"
  by (simp add: polled_def)

lemma polled_nth:
  "i < nat (maxFileDescriptor w) \<Longrightarrow> i < length (pollFileDescriptors w) \<Longrightarrow>
    polled w b ! i = mark_ready (hung w) b (udp_fd w) (pollFileDescriptors w ! i)"
  by (simp add: polled_def nth_append)

lemma socket_polled_update [simp]:
  "socket_polled (w\<lparr>net := a\<rparr>) = socket_polled w"
  "socket_polled (w\<lparr>sends := b\<rparr>) = socket_polled w"
  "socket_polled (w\<lparr>sent := c\<rparr>) = socket_polled w"
  "socket_polled (w\<lparr>in_rest := d\<rparr>) = socket_polled w"
  "socket_polled (w\<lparr>reads := e\<rparr>) = socket_polled w"
  "socket_polled (w\<lparr>out_data := d\<rparr>) = socket_polled w"
  "socket_polled (w\<lparr>writes := f\<rparr>) = socket_polled w"
  "socket_polled (w\<lparr>allocs := g\<rparr>) = socket_polled w"
  "socket_polled (w\<lparr>live := h\<rparr>) = socket_polled w"
  "socket_polled (w\<lparr>fds := i\<rparr>) = socket_polled w"
  "socket_polled (w\<lparr>closed := i\<rparr>) = socket_polled w"
  "socket_polled (w\<lparr>opened := n\<rparr>) = socket_polled w"
  "socket_polled (w\<lparr>hosts := j\<rparr>) = socket_polled w"
  "socket_polled (w\<lparr>children := m\<rparr>) = socket_polled w"
  by (simp_all add: socket_polled_defs)

lemma socket_polled_polled [simp]:
  "socket_polled w \<Longrightarrow> socket_polled (w\<lparr>pollFileDescriptors := polled w b\<rparr>)"
  by (auto simp: socket_polled_defs polled_nth nat_less_iff)

text \<open>The entries a poll finds ready when the timeline has reached \<open>es\<close>.\<close>

definition entry_ready :: "world \<Rightarrow> net_event list \<Rightarrow> int \<Rightarrow> bool" where
  "entry_ready w es i \<longleftrightarrow> (let e = pollFileDescriptors w ! nat i in
    0 \<le> p_fd e \<and> (arrived es \<and> p_fd e = udp_fd w \<and> p_events e = POLLIN \<or> p_fd e \<in> set (hung w)))"

lemma polled_ready:
  assumes "maxFileDescriptor w \<le> int (length (pollFileDescriptors w))" and "0 \<le> i" "i < maxFileDescriptor w"
  shows "p_revents (polled w (arrived es) ! nat i) > 0 \<longleftrightarrow> entry_ready w es i"
  using assms by (simp add: polled_nth nat_less_iff entry_ready_def Let_def)

lemma find_ready_polled:
  assumes "maxFileDescriptor w \<le> int (length (pollFileDescriptors w))"
  shows "\<exists>k. find_ready (polled w (arrived es)) 0 (maxFileDescriptor w) = Inr k \<and>
    (if \<exists>i. 0 \<le> i \<and> i < maxFileDescriptor w \<and> entry_ready w es i
     then 0 \<le> k \<and> k < maxFileDescriptor w \<and> entry_ready w es k \<and> (\<forall>j. 0 \<le> j \<and> j < k \<longrightarrow> \<not> entry_ready w es j)
     else k = - 1)"
proof -
  let ?m = "maxFileDescriptor w" and ?fs = "polled w (arrived es)"
  obtain k where k: "find_ready ?fs 0 ?m = Inr k" "lowest_ready ?fs 0 ?m k"
    using find_ready_spec [of 0 ?m ?fs] assms by auto
  note r = polled_ready [OF assms]
  have "if \<exists>i. 0 \<le> i \<and> i < ?m \<and> entry_ready w es i
     then 0 \<le> k \<and> k < ?m \<and> entry_ready w es k \<and> (\<forall>j. 0 \<le> j \<and> j < k \<longrightarrow> \<not> entry_ready w es j) else k = - 1"
  proof (cases "k = - 1")
    case True
    then show ?thesis using k(2) r by (auto simp: lowest_ready_def)
  next
    case False
    then have l: "0 \<le> k" "k < ?m" "p_revents (?fs ! nat k) > 0"
      "\<And>j. 0 \<le> j \<Longrightarrow> j < k \<Longrightarrow> \<not> p_revents (?fs ! nat j) > 0"
      using k(2) by (simp_all add: lowest_ready_def)
    moreover have "\<not> entry_ready w es j" if "0 \<le> j" "j < k" for j
      using l(4) [OF that] r [of j es] that l(2) by simp
    ultimately show ?thesis using r [of k es] by auto
  qed
  with k(1) show ?thesis by blast
qed

lemma sys_poll_eq:
  fixes t :: int
  assumes "0 \<le> maxFileDescriptor w" "maxFileDescriptor w \<le> int (length (pollFileDescriptors w))"
    and es: "es = poll_wait (maxFileDescriptor w) t w"
    and r: "r = (\<exists>i. 0 \<le> i \<and> i < maxFileDescriptor w \<and> entry_ready w es i)"
  shows "\<exists>k. (k > 0 \<longleftrightarrow> r) \<and> sys_poll (maxFileDescriptor w) t w =
    (case es of PollError # es' \<Rightarrow> (Inr (- 1), w\<lparr>net := es'\<rparr>)
     | _ \<Rightarrow>
         if r then (Inr k, w\<lparr>net := es, pollFileDescriptors := polled w (arrived es)\<rparr>)
         else if t < 0 then (Inl Blocked, w)
         else (Inr 0, w\<lparr>net := (case es of Quiet # es' \<Rightarrow> es' | _ \<Rightarrow> es), pollFileDescriptors := polled w (arrived es)\<rparr>))"
proof -
  let ?n = "nat (maxFileDescriptor w)"
  define marked where "marked = map (mark_ready (hung w) (arrived es) (udp_fd w)) (take ?n (pollFileDescriptors w))"
  define k where "k = length (filter (\<lambda>e. p_revents e > 0) marked)"
  have p: "polled w (arrived es) = marked @ drop ?n (pollFileDescriptors w)" by (simp add: polled_def marked_def)
  have "?n \<le> length (pollFileDescriptors w)" using assms(2) by (simp add: nat_le_iff)
  then have lm: "length marked = ?n" by (simp add: marked_def)
  have "p_revents (marked ! i) > 0 \<longleftrightarrow> entry_ready w es (int i)" if "i < ?n" for i
    using that lm by (simp add: entry_ready_def Let_def marked_def)
  then have "(\<exists>i < ?n. p_revents (marked ! i) > 0) \<longleftrightarrow> (\<exists>i < ?n. entry_ready w es (int i))" by blast
  also have "\<dots> \<longleftrightarrow> r" unfolding r by (rule ex_int_nat)
  finally have k: "k > 0 \<longleftrightarrow> r" by (simp only: k_def length_filter_pos lm)
  have "sys_poll (maxFileDescriptor w) t w =
    (case es of PollError # es' \<Rightarrow> (Inr (- 1), w\<lparr>net := es'\<rparr>)
     | _ \<Rightarrow>
         if k > 0 then (Inr (int k), w\<lparr>net := es, pollFileDescriptors := polled w (arrived es)\<rparr>)
         else if t < 0 then (Inl Blocked, w)
         else (Inr 0, w\<lparr>net := (case es of Quiet # es' \<Rightarrow> es' | _ \<Rightarrow> es), pollFileDescriptors := polled w (arrived es)\<rparr>))"
    using assms(1,2) by (simp only: sys_poll_def Let_def es [symmetric] p marked_def k_def) simp
  with k show ?thesis by (intro exI [of _ "int k"]) simp
qed

text \<open>
  \<open>pollCall\<close> in full: the end of the process when the system call fails, the lowest ready index
  when there is one, and otherwise -1 after the timeout, or no return for a negative timeout.
\<close>

definition call_outcome :: "int \<Rightarrow> world \<Rightarrow> net_event list \<Rightarrow> bool" where
  "call_outcome t w es \<longleftrightarrow>
    (case es of
       PollError # es' \<Rightarrow> pollCall t w = (Inl (Exit (- 1)), w\<lparr>net := es'\<rparr>)
     | _ \<Rightarrow>
         if \<exists>i. 0 \<le> i \<and> i < maxFileDescriptor w \<and> entry_ready w es i
         then \<exists>k. pollCall t w = (Inr k, w\<lparr>net := es, pollFileDescriptors := polled w (arrived es)\<rparr>) \<and>
           0 \<le> k \<and> k < maxFileDescriptor w \<and> entry_ready w es k \<and> (\<forall>j. 0 \<le> j \<and> j < k \<longrightarrow> \<not> entry_ready w es j)
         else if t < 0 then pollCall t w = (Inl Blocked, w)
         else pollCall t w = (Inr (- 1),
           w\<lparr>net := (case es of Quiet # es' \<Rightarrow> es' | _ \<Rightarrow> es), pollFileDescriptors := polled w (arrived es)\<rparr>))"

lemma pollCall_outcome:
  assumes "0 \<le> maxFileDescriptor w" "maxFileDescriptor w \<le> int (length (pollFileDescriptors w))"
  shows "call_outcome t w (poll_wait (maxFileDescriptor w) t w)"
proof -
  define es where "es = poll_wait (maxFileDescriptor w) t w"
  define r where "r = (\<exists>i. 0 \<le> i \<and> i < maxFileDescriptor w \<and> entry_ready w es i)"
  obtain n where n: "n > 0 \<longleftrightarrow> r" and p: "sys_poll (maxFileDescriptor w) t w =
    (case es of PollError # es' \<Rightarrow> (Inr (- 1), w\<lparr>net := es'\<rparr>)
     | _ \<Rightarrow>
         if r then (Inr n, w\<lparr>net := es, pollFileDescriptors := polled w (arrived es)\<rparr>)
         else if t < 0 then (Inl Blocked, w)
         else (Inr 0, w\<lparr>net := (case es of Quiet # es' \<Rightarrow> es' | _ \<Rightarrow> es), pollFileDescriptors := polled w (arrived es)\<rparr>))"
    using sys_poll_eq [OF assms es_def r_def] by blast
  obtain k where k: "find_ready (polled w (arrived es)) 0 (maxFileDescriptor w) = Inr k"
    "if r then 0 \<le> k \<and> k < maxFileDescriptor w \<and> entry_ready w es k \<and> (\<forall>j. 0 \<le> j \<and> j < k \<longrightarrow> \<not> entry_ready w es j) else k = - 1"
    using find_ready_polled [OF assms(2), of es] unfolding r_def by blast
  have "pollCall t w =
    (case es of PollError # es' \<Rightarrow> (Inl (Exit (- 1)), w\<lparr>net := es'\<rparr>)
     | _ \<Rightarrow>
         if r then (Inr k, w\<lparr>net := es, pollFileDescriptors := polled w (arrived es)\<rparr>)
         else if t < 0 then (Inl Blocked, w)
         else (Inr (- 1), w\<lparr>net := (case es of Quiet # es' \<Rightarrow> es' | _ \<Rightarrow> es), pollFileDescriptors := polled w (arrived es)\<rparr>))"
    using n k(1) by (auto simp: pollCall_def iobind_def p split: list.split net_event.split)
  then show ?thesis
    unfolding es_def [symmetric] call_outcome_def r_def [symmetric]
    using k(2) by (auto split: list.split net_event.split)
qed

lemma call_outcome_ready:
  assumes "call_outcome t w es" and "\<exists>i. 0 \<le> i \<and> i < maxFileDescriptor w \<and> entry_ready w es i"
    and "\<not> (\<exists>fs. es = PollError # fs)"
  shows "\<exists>k. pollCall t w = (Inr k, w\<lparr>net := es, pollFileDescriptors := polled w (arrived es)\<rparr>) \<and>
    0 \<le> k \<and> k < maxFileDescriptor w \<and> entry_ready w es k \<and> (\<forall>j. 0 \<le> j \<and> j < k \<longrightarrow> \<not> entry_ready w es j)"
  using assms(1,3) unfolding call_outcome_def if_P [OF assms(2)]
  by (cases es rule: arrived.cases) simp_all

text \<open>The same with the socket registered and nothing hung up.\<close>

lemma socket_ready:
  assumes "socket_polled w"
  shows "(\<exists>i. 0 \<le> i \<and> i < maxFileDescriptor w \<and> entry_ready w es i) \<longleftrightarrow> arrived es"
  using assms by (auto simp: socket_polled_defs entry_ready_def Let_def intro: exI [of _ "udp_fd w"])

lemma socket_outcome:
  assumes "socket_polled w"
  shows "call_outcome t w (poll_wait (maxFileDescriptor w) t w)"
  by (rule pollCall_outcome) (use assms in \<open>simp_all add: socket_polled_defs\<close>)

lemma pollCall_quiet:
  assumes "socket_polled w" and "0 \<le> t"
  shows "net w = [] \<Longrightarrow> pollCall t w = (Inr (- 1), w\<lparr>pollFileDescriptors := polled w False\<rparr>)"
    and "net w = Quiet # es \<Longrightarrow>
      pollCall t w = (Inr (- 1), w\<lparr>net := es, pollFileDescriptors := polled w False\<rparr>)"
    and "net w = PollError # es \<Longrightarrow> pollCall t w = (Inl (Exit (- 1)), w\<lparr>net := es\<rparr>)"
proof -
  have "call_outcome t w (net w)"
    using socket_outcome [OF assms(1), of t] assms(2) by (simp add: poll_wait_def)
  then show "net w = [] \<Longrightarrow> pollCall t w = (Inr (- 1), w\<lparr>pollFileDescriptors := polled w False\<rparr>)"
    and "net w = Quiet # es \<Longrightarrow>
      pollCall t w = (Inr (- 1), w\<lparr>net := es, pollFileDescriptors := polled w False\<rparr>)"
    and "net w = PollError # es \<Longrightarrow> pollCall t w = (Inl (Exit (- 1)), w\<lparr>net := es\<rparr>)"
    using assms by (simp_all add: call_outcome_def socket_ready)
qed

lemma pollCall_arrival:
  assumes "socket_polled w" and "net w = Arrives a # es"
  shows "\<exists>k. pollCall t w = (Inr k, w\<lparr>pollFileDescriptors := polled w True\<rparr>) \<and> 0 \<le> k \<and> k < maxFileDescriptor w"
proof -
  have "poll_wait (maxFileDescriptor w) t w = net w" using assms(2) by (simp add: poll_wait_def)
  moreover have "w\<lparr>net := net w, pollFileDescriptors := f\<rparr> = w\<lparr>pollFileDescriptors := f\<rparr>" for f by (cases w) simp
  ultimately show ?thesis
    using socket_outcome [OF assms(1), of t] socket_ready [OF assms(1), of "net w"] assms(2)
    by (auto simp: call_outcome_def)
qed

lemma post_pollCall:
  assumes "socket_polled w" and "0 \<le> t"
    and "\<And>es v. net w = Quiet # es \<or> net w = [] \<and> es = [] \<Longrightarrow> socket_polled v \<Longrightarrow>
      v = w\<lparr>net := es, pollFileDescriptors := pollFileDescriptors v\<rparr> \<Longrightarrow> P (- 1) v"
    and "\<And>a es k v. net w = Arrives a # es \<Longrightarrow> 0 \<le> k \<Longrightarrow> socket_polled v \<Longrightarrow>
      v = w\<lparr>pollFileDescriptors := pollFileDescriptors v\<rparr> \<Longrightarrow> P k v"
    and "\<And>es. net w = PollError # es \<Longrightarrow> E (w\<lparr>net := es\<rparr>)"
  shows "post (pollCall t) w P E"
proof (cases "net w")
  case Nil
  with pollCall_quiet(1) [OF assms(1,2) Nil] assms(1) show ?thesis
    by (simp add: post_def assms(3) [of "[]"])
next
  case (Cons e es)
  show ?thesis
  proof (cases e)
    case Quiet
    have "socket_polled (w\<lparr>net := es, pollFileDescriptors := polled w False\<rparr>)"
      using assms(1) by (simp add: socket_polled_defs polled_nth nat_less_iff)
    with pollCall_quiet(2) [OF assms(1,2)] Cons Quiet show ?thesis
      by (simp add: post_def assms(3) [of es])
  next
    case (Arrives a)
    obtain k where "pollCall t w = (Inr k, w\<lparr>pollFileDescriptors := polled w True\<rparr>)" "0 \<le> k"
      using pollCall_arrival [OF assms(1)] Cons Arrives by blast
    with assms(1) Cons Arrives show ?thesis
      by (simp add: post_def assms(4) [of a es])
  next
    case PollError
    with pollCall_quiet(3) [OF assms(1,2)] Cons assms(5) show ?thesis by (simp add: post_def)
  qed
qed

text \<open>The pattern of every receiver: poll, then receive when something is ready.\<close>

lemma post_poll_recv:
  assumes "socket_polled w" and "0 \<le> t"
    and quiet: "\<And>v. socket_polled v \<Longrightarrow>
      v = w\<lparr>net := tl (net w), pollFileDescriptors := pollFileDescriptors v\<rparr> \<Longrightarrow> post q v P E"
    and packet: "\<And>v es src m. net w = Arrives (Datagram src m) # es \<Longrightarrow> socket_polled v \<Longrightarrow>
      v = w\<lparr>net := es, pollFileDescriptors := pollFileDescriptors v\<rparr> \<Longrightarrow>
      post (k (src, take (nat len) m)) v P E"
    and stop: "\<And>v. v = w\<lparr>net := net v, pollFileDescriptors := pollFileDescriptors v\<rparr> \<Longrightarrow> E v"
  shows "post (iobind (pollCall t) (\<lambda>ready. if ready < 0 then q else iobind (safeRecvfrom len) k)) w P E"
  unfolding post_iobind [of "pollCall t"]
proof (rule post_pollCall [OF assms(1,2)])
  fix es v
  assume n: "net w = Quiet # es \<or> net w = [] \<and> es = []" and v: "socket_polled v"
    "v = w\<lparr>net := es, pollFileDescriptors := pollFileDescriptors v\<rparr>"
  from n have "tl (net w) = es" by auto
  with v quiet [of v] show "post (if - 1 < (0 :: int) then q else iobind (safeRecvfrom len) k) v P E" by simp
next
  fix a es kk v
  assume n: "net w = Arrives a # es" and kk: "0 \<le> (kk :: int)" and v: "socket_polled v"
    "v = w\<lparr>pollFileDescriptors := pollFileDescriptors v\<rparr>"
  have nv: "net v = Arrives a # es" using arg_cong [OF v(2), of net] n by simp
  have u: "v\<lparr>net := es\<rparr> = w\<lparr>net := es, pollFileDescriptors := pollFileDescriptors (v\<lparr>net := es\<rparr>)\<rparr>"
    using v(2) by (cases v, cases w) simp
  have "post (safeRecvfrom len) v (\<lambda>x w'. post (k x) w' P E) E"
  proof (rule post_safeRecvfrom_arrival [OF nv])
    show "post (k (src, take (nat len) m)) (v\<lparr>net := es\<rparr>) P E" if "a = Datagram src m" for src m
      by (rule packet [OF _ _ u]) (use n that v(1) in simp_all)
    show "E (v\<lparr>net := es\<rparr>)" by (rule stop) (use u in simp)
  qed
  with kk show "post (if kk < 0 then q else iobind (safeRecvfrom len) k) v P E" by simp
next
  show "E (w\<lparr>net := es\<rparr>)" for es by (rule stop) (cases w, simp)
qed

section \<open>Registering a socket\<close>

lemma zero_new_entries_spec:
  assumes "0 \<le> i" and "n \<le> int (length fs)"
  shows "\<exists>fs'. zero_new_entries fs i n = Inr fs' \<and> length fs' = length fs \<and>
    (\<forall>j < length fs. fs' ! j = (if i \<le> int j \<and> int j < n then clear_entry (fs ! j) else fs ! j))"
  using assms
proof (induction fs i n rule: zero_new_entries.induct)
  case (1 fs i n)
  show ?case
  proof (cases "i < n")
    case True
    let ?fs = "fs[nat i := clear_entry (fs ! nat i)]"
    have g: "arr_get fs i = Inr (fs ! nat i)" "arr_put fs i (clear_entry (fs ! nat i)) = Inr ?fs"
      using True "1.prems" by simp_all
    obtain fs' where fs': "zero_new_entries ?fs (i + 1) n = Inr fs'" "length fs' = length fs"
      "\<forall>j < length fs. fs' ! j = (if i + 1 \<le> int j \<and> int j < n then clear_entry (?fs ! j) else ?fs ! j)"
      using "1.IH" [OF True g] "1.prems" by auto
    have "zero_new_entries fs i n = Inr fs'"
      using True g fs'(1) by (simp add: zero_new_entries.simps [of fs i n])
    moreover have "fs' ! j = (if i \<le> int j \<and> int j < n then clear_entry (fs ! j) else fs ! j)"
      if "j < length fs" for j
      using fs'(3) that True "1.prems"(1) by (cases "j = nat i") auto
    ultimately show ?thesis using fs'(2) by blast
  next
    case False
    then show ?thesis by (auto simp: zero_new_entries.simps [of fs i n])
  qed
qed

text \<open>The fields of the process state that registering a socket may change.\<close>

definition same_but_poll_set :: "world \<Rightarrow> world \<Rightarrow> bool" where
  "same_but_poll_set w v \<longleftrightarrow>
    w\<lparr>allocs := [], live := 0, pollFileDescriptors := [], maxFileDescriptor := 0, currentPollSetSize := 0\<rparr> =
    v\<lparr>allocs := [], live := 0, pollFileDescriptors := [], maxFileDescriptor := 0, currentPollSetSize := 0\<rparr>"

lemma same_but_poll_setD:
  assumes "same_but_poll_set w v"
  shows "net v = net w" "sends v = sends w" "sent v = sent w" "in_rest v = in_rest w"
    "reads v = reads w" "out_data v = out_data w" "writes v = writes w" "fds v = fds w"
    "closed v = closed w" "opened v = opened w" "hosts v = hosts w" "hung v = hung w" "udp_fd v = udp_fd w"
  using assms by (cases w, cases v, simp add: same_but_poll_set_def)+

definition poll_set_ok :: "world \<Rightarrow> bool" where
  "poll_set_ok w \<longleftrightarrow> int (length (pollFileDescriptors w)) = currentPollSetSize w \<and>
    0 \<le> maxFileDescriptor w \<and> maxFileDescriptor w \<le> currentPollSetSize w"

lemma same_but_poll_set_refl [simp]: "same_but_poll_set w w"
  by (simp add: same_but_poll_set_def)

lemma same_but_poll_set_trans:
  "same_but_poll_set u v \<Longrightarrow> same_but_poll_set v w \<Longrightarrow> same_but_poll_set u w"
  by (simp add: same_but_poll_set_def)

lemma post_setupPollSet:
  assumes "maxFileDescriptor w \<le> POLL_SET_SIZE" and "0 \<le> maxFileDescriptor w"
  shows "post setupPollSet w (\<lambda>_ v. poll_set_ok v \<and> maxFileDescriptor v = maxFileDescriptor w \<and>
    same_but_poll_set w v) (\<lambda>v. same_but_poll_set w v)"
  using assms
  by (simp add: post_def setupPollSet_def sCalloc_def sys_calloc_def iobind_def poll_set_ok_def
      same_but_poll_set_def)

text \<open>What a call leaves of the entries: the old ones as they were, the new ones cleared, whatever the
  enlarged block held; entry \<open>s\<close> is not looked at.\<close>

definition entries_kept :: "int \<Rightarrow> world \<Rightarrow> world \<Rightarrow> bool" where
  "entries_kept s w v \<longleftrightarrow> (\<forall>i. 0 \<le> i \<and> i < currentPollSetSize v \<and> i \<noteq> s \<longrightarrow>
    (if i < currentPollSetSize w then pollFileDescriptors v ! nat i = pollFileDescriptors w ! nat i
     else p_fd (pollFileDescriptors v ! nat i) = 0 \<and> p_events (pollFileDescriptors v ! nat i) = 0))"

lemma post_growPollSet:
  assumes "poll_set_ok w" and "currentPollSetSize w < n"
  shows "post (growPollSet junk n) w (\<lambda>_ v. poll_set_ok v \<and> currentPollSetSize v = n \<and>
      maxFileDescriptor v = maxFileDescriptor w \<and> entries_kept (- 1) w v \<and> same_but_poll_set w v)
    (\<lambda>v. v = w\<lparr>allocs := tl (allocs w)\<rparr> \<and> allocs w \<noteq> [])"
proof -
  let ?fs = "take (nat n) (pollFileDescriptors w) @ map junk [length (pollFileDescriptors w)..<nat n]"
  have len: "length (pollFileDescriptors w) = nat (currentPollSetSize w)" "0 \<le> currentPollSetSize w"
    using assms(1) by (auto simp: poll_set_ok_def)
  have l: "int (length ?fs) = n" using assms by (auto simp: poll_set_ok_def)
  obtain fs' where fs': "zero_new_entries ?fs (currentPollSetSize w) n = Inr fs'" "length fs' = length ?fs"
    and z: "\<And>j. j < length ?fs \<Longrightarrow>
      fs' ! j = (if currentPollSetSize w \<le> int j \<and> int j < n then clear_entry (?fs ! j) else ?fs ! j)"
    using zero_new_entries_spec [of "currentPollSetSize w" n ?fs] len(2) l by auto
  let ?v = "w\<lparr>allocs := tl (allocs w), pollFileDescriptors := fs', currentPollSetSize := n\<rparr>"
  have "entries_kept (- 1) w ?v"
    unfolding entries_kept_def
  proof (intro allI impI)
    fix i assume i: "0 \<le> i \<and> i < currentPollSetSize ?v \<and> i \<noteq> - 1"
    then have "nat i < length ?fs" using l by (simp add: nat_less_iff)
    from z [OF this] i len assms(2) show "if i < currentPollSetSize w then pollFileDescriptors ?v ! nat i = pollFileDescriptors w ! nat i
      else p_fd (pollFileDescriptors ?v ! nat i) = 0 \<and> p_events (pollFileDescriptors ?v ! nat i) = 0"
      by (auto simp: clear_entry_def nth_append nat_less_iff)
  qed
  moreover have "0 \<le> n" using assms by (simp add: poll_set_ok_def)
  ultimately show ?thesis
    using assms fs' l
    by (auto simp: post_def growPollSet_def srealloc_def iobind_def poll_set_ok_def same_but_poll_set_def)
qed

text \<open>The contract of \<open>addToPollSet\<close>.\<close>

definition socket_added :: "int \<Rightarrow> world \<Rightarrow> world \<Rightarrow> bool" where
  "socket_added s w v \<longleftrightarrow> poll_set_ok v \<and> registered s v \<and> entries_kept s w v \<and> same_but_poll_set w v \<and>
    maxFileDescriptor v = max (maxFileDescriptor w) (s + 1) \<and>
    currentPollSetSize v = (if s < currentPollSetSize w then currentPollSetSize w else s + POLL_SET_SIZE)"

lemma post_add_entry:
  assumes "poll_set_ok v" and "0 \<le> s" "s < currentPollSetSize v" and "entries_kept (- 1) w v"
    and "same_but_poll_set w v" "maxFileDescriptor v = maxFileDescriptor w"
    and "currentPollSetSize v = (if s < currentPollSetSize w then currentPollSetSize w else s + POLL_SET_SIZE)"
  shows "post (\<lambda>w. iobind (\<lambda>w. (Inr (), if s + 1 \<ge> maxFileDescriptor w
        then w\<lparr>maxFileDescriptor := s + 1\<rparr> else w)) (\<lambda>_. set_entry s s POLLIN) w) v
      (\<lambda>_ v'. socket_added s w v') (\<lambda>_. False)"
proof -
  let ?v = "v\<lparr>maxFileDescriptor := max (maxFileDescriptor v) (s + 1)\<rparr>"
  let ?fs = "pollFileDescriptors v"
  let ?u = "?v\<lparr>pollFileDescriptors := ?fs[nat s := (?fs ! nat s)\<lparr>p_fd := s, p_events := POLLIN\<rparr>]\<rparr>"
  have len: "int (length ?fs) = currentPollSetSize v" using assms(1) by (simp add: poll_set_ok_def)
  have m: "(if s + 1 \<ge> maxFileDescriptor v then v\<lparr>maxFileDescriptor := s + 1\<rparr> else v) = ?v"
    by (cases v) (simp add: max_def)
  have "set_entry s s POLLIN ?v = (Inr (), ?u)"
    using assms(2,3) len by (simp add: set_entry_def iobind_def)
  moreover have "entries_kept s w ?u"
    using assms(2-4) len unfolding entries_kept_def by (auto simp: nat_eq_iff2 nth_list_update)
  moreover have "poll_set_ok ?u" "registered s ?u"
    using assms(1-3) len by (auto simp: poll_set_ok_def registered_def)
  moreover have "same_but_poll_set w ?u" using assms(5) by (simp add: same_but_poll_set_def)
  moreover have "iobind (\<lambda>w. (Inr (), if s + 1 \<ge> maxFileDescriptor w
        then w\<lparr>maxFileDescriptor := s + 1\<rparr> else w)) (\<lambda>_. set_entry s s POLLIN) v = set_entry s s POLLIN ?v"
    by (simp only: iobind_def m prod.case sum.case)
  ultimately show ?thesis
    using assms(6,7) by (simp add: post_def socket_added_def)
qed

lemma post_addToPollSet_full:
  assumes "poll_set_ok w" and "0 \<le> s"
  shows "post (addToPollSet junk s) w (\<lambda>_ v. socket_added s w v)
    (\<lambda>v. v = w\<lparr>allocs := tl (allocs w)\<rparr> \<and> allocs w \<noteq> [] \<and> currentPollSetSize w \<le> s)"
proof -
  let ?E = "\<lambda>v. v = w\<lparr>allocs := tl (allocs w)\<rparr> \<and> allocs w \<noteq> [] \<and> currentPollSetSize w \<le> s"
  let ?grow = "if s \<ge> currentPollSetSize w then growPollSet junk (s + POLL_SET_SIZE) else ret ()"
  let ?P = "\<lambda>v. poll_set_ok v \<and> s < currentPollSetSize v \<and> entries_kept (- 1) w v \<and> same_but_poll_set w v \<and>
    maxFileDescriptor v = maxFileDescriptor w \<and>
    currentPollSetSize v = (if s < currentPollSetSize w then currentPollSetSize w else s + POLL_SET_SIZE)"
  have "post ?grow w (\<lambda>_. ?P) ?E"
  proof (cases "s \<ge> currentPollSetSize w")
    case True
    then have "currentPollSetSize w < s + POLL_SET_SIZE" by simp
    from post_growPollSet [OF assms(1) this, of junk] True show ?thesis
      by (auto elim!: post_mono)
  qed (use assms(1) in \<open>simp add: entries_kept_def\<close>)
  moreover have "post (\<lambda>w. iobind (\<lambda>w. (Inr (), if s + 1 \<ge> maxFileDescriptor w
        then w\<lparr>maxFileDescriptor := s + 1\<rparr> else w)) (\<lambda>_. set_entry s s POLLIN) w) v
      (\<lambda>_ v'. socket_added s w v') ?E" if "?P v" for v
    by (rule post_mono [OF post_add_entry [of v s w]]) (use that assms(2) in auto)
  ultimately have "post (iobind ?grow (\<lambda>_ w. iobind (\<lambda>w. (Inr (), if s + 1 \<ge> maxFileDescriptor w
        then w\<lparr>maxFileDescriptor := s + 1\<rparr> else w)) (\<lambda>_. set_entry s s POLLIN) w)) w
      (\<lambda>_ v. socket_added s w v) ?E"
    unfolding post_iobind [of ?grow] by (rule post_mono) auto
  then show ?thesis by (simp only: post_def addToPollSet_def)
qed

lemma post_addToPollSet:
  assumes "poll_set_ok w" and "0 \<le> s" and "udp_fd w = s" and "hung w = []"
  shows "post (addToPollSet junk s) w (\<lambda>_ v. socket_polled v \<and> same_but_poll_set w v)
    (\<lambda>v. same_but_poll_set w v)"
  by (rule post_mono [OF post_addToPollSet_full [OF assms(1,2)]])
    (use assms(3,4) in \<open>auto simp: socket_added_def socket_polled_def same_but_poll_setD, simp add: same_but_poll_set_def\<close>)

section \<open>Properties\<close>

text \<open>C25: what \<open>pollCall\<close> does with any well-formed table, timeout and timeline: when \<open>poll\<close> fails the
  process exits; when an entry is ready, because something has arrived on the socket it watches or because
  its descriptor is hung up, the result is the lowest ready index and nothing is consumed but, for a
  negative timeout, the quiet periods waited for; when none is, a timeout of 0 or more takes one quiet
  period and gives -1, and a negative one never returns.\<close>

theorem pollCall_contract:
  assumes "poll_set_ok w"
  shows "let es = poll_wait (maxFileDescriptor w) t w in
    (case es of
       PollError # es' \<Rightarrow> pollCall t w = (Inl (Exit (- 1)), w\<lparr>net := es'\<rparr>)
     | _ \<Rightarrow>
         if \<exists>i. 0 \<le> i \<and> i < maxFileDescriptor w \<and> entry_ready w es i
         then \<exists>k. pollCall t w = (Inr k, w\<lparr>net := es, pollFileDescriptors := polled w (arrived es)\<rparr>) \<and>
           0 \<le> k \<and> k < maxFileDescriptor w \<and> entry_ready w es k \<and> (\<forall>j. 0 \<le> j \<and> j < k \<longrightarrow> \<not> entry_ready w es j)
         else if t < 0 then pollCall t w = (Inl Blocked, w)
         else pollCall t w = (Inr (- 1),
           w\<lparr>net := (case es of Quiet # es' \<Rightarrow> es' | _ \<Rightarrow> es), pollFileDescriptors := polled w (arrived es)\<rparr>))"
  using pollCall_outcome [of w t] assms by (simp add: poll_set_ok_def call_outcome_def Let_def)

definition polled_world :: "net_event list \<Rightarrow> world" where
  "polled_world es = \<lparr>net = es, sends = [], sent = [], in_rest = [], reads = [], out_data = [],
    writes = [], allocs = [], live = 1, fds = [], closed = [], opened = [], hosts = [], binds = [], forks = [],
    children = [], zombies = 0, hung = [], udp_fd = 1,
    pollFileDescriptors = [zero_pollfd, \<lparr>p_fd = 1, p_events = POLLIN, p_revents = 0\<rparr>],
    maxFileDescriptor = 2, currentPollSetSize = 2\<rparr>"

lemma polled_world_ok: "poll_set_ok (polled_world es)"
  by (simp add: poll_set_ok_def polled_world_def)

lemma polled_world_ready: "entry_ready (polled_world es) fs i \<longleftrightarrow>
    (let e = [zero_pollfd, \<lparr>p_fd = 1, p_events = POLLIN, p_revents = 0\<rparr>] ! nat i in
     0 \<le> p_fd e \<and> arrived fs \<and> p_fd e = 1 \<and> p_events e = POLLIN)"
  by (simp add: entry_ready_def polled_world_def Let_def)

text \<open>A call without a limit, which waits for the datagram behind the quiet period.\<close>

theorem pollCall_contract_witness:
  "fst (pollCall (- 1) (polled_world [Quiet, Arrives (Datagram (5, 0) [1])])) = Inr 1"
proof -
  let ?w = "polled_world [Quiet, Arrives (Datagram (5, 0) [1])]" and ?es = "[Arrives (Datagram (5, 0) [1])]"
  have m: "maxFileDescriptor ?w = 2" by (simp add: polled_world_def)
  have e: "poll_wait 2 (- 1) ?w = ?es" by (simp add: poll_wait_def polled_world_def)
  have r: "entry_ready ?w ?es 1" "\<not> entry_ready ?w ?es 0"
    by (simp_all add: polled_world_ready zero_pollfd_def Let_def)
  have "\<exists>k. fst (pollCall (- 1) ?w) = Inr k \<and> 0 \<le> k \<and> k < 2 \<and> entry_ready ?w ?es k"
    using pollCall_contract [OF polled_world_ok, of "[Quiet, Arrives (Datagram (5, 0) [1])]" "- 1"] r(1)
    unfolding m e by (auto simp: Let_def split: if_splits dest!: spec [of _ 1])
  then obtain k where k: "fst (pollCall (- 1) ?w) = Inr k" "0 \<le> k" "k < 2" "entry_ready ?w ?es k" by blast
  then have "k = 0 \<or> k = 1" by linarith
  with k r show ?thesis by auto
qed

text \<open>C26: registering a non-negative descriptor in a well-formed table is defined whatever the enlarged
  block held before: the table grows exactly when the descriptor lies beyond it, to that descriptor and ten
  entries more, its recorded size is its size, the polled range is extended to the descriptor, the socket's
  entry asks for input, every other old entry is kept and every other new one is cleared; nothing else of the
  process changes, and it exits only when the memory for the growth is refused.\<close>

theorem addToPollSet_registers:
  assumes "poll_set_ok w" and "0 \<le> s"
  shows "post (addToPollSet junk s) w
    (\<lambda>_ v. poll_set_ok v \<and> registered s v \<and> entries_kept s w v \<and> same_but_poll_set w v \<and>
      maxFileDescriptor v = max (maxFileDescriptor w) (s + 1) \<and>
      currentPollSetSize v = (if s < currentPollSetSize w then currentPollSetSize w else s + POLL_SET_SIZE))
    (\<lambda>v. v = w\<lparr>allocs := tl (allocs w)\<rparr> \<and> allocs w \<noteq> [] \<and> currentPollSetSize w \<le> s)"
  by (rule post_mono [OF post_addToPollSet_full [OF assms]]) (simp_all add: socket_added_def)

theorem addToPollSet_registers_witness:
  "post (addToPollSet (\<lambda>_. \<lparr>p_fd = 77, p_events = 3, p_revents = 9\<rparr>) 12) (polled_world [])
     (\<lambda>_ v. poll_set_ok v \<and> registered 12 v \<and> currentPollSetSize v = 22 \<and> p_fd (pollFileDescriptors v ! 21) = 0)
     (\<lambda>_. False)"
proof (rule post_mono [OF addToPollSet_registers [OF polled_world_ok]])
  fix v assume v: "poll_set_ok v \<and> registered 12 v \<and> entries_kept 12 (polled_world []) v \<and>
    same_but_poll_set (polled_world []) v \<and> maxFileDescriptor v = max (maxFileDescriptor (polled_world [])) (12 + 1) \<and>
    currentPollSetSize v = (if 12 < currentPollSetSize (polled_world []) then currentPollSetSize (polled_world []) else 12 + POLL_SET_SIZE)"
  then have "currentPollSetSize v = 22" by (simp add: polled_world_def)
  moreover have "p_fd (pollFileDescriptors v ! nat 21) = 0"
    using v calculation unfolding entries_kept_def by (auto simp: polled_world_def dest!: spec [of _ 21])
  ultimately show "poll_set_ok v \<and> registered 12 v \<and> currentPollSetSize v = 22 \<and> p_fd (pollFileDescriptors v ! 21) = 0"
    using v by simp
qed (simp_all add: polled_world_def)

end
