(* ===== verification/Networks.thy ===== *)
theory Networks
  imports PollLib
begin

text \<open>
  Socket setup (\<open>udpCode_spring26_v3/networks.c\<close>) as client and server see it: a socket, the address
  of the server, or an exit. Name resolution is the system's: its answers are the list \<open>hosts\<close> of
  the process state. \<open>Sockets\<close> models the same functions with every call they make.
\<close>

definition htons :: "u16 \<Rightarrow> u16" where
  "htons v = push_bit 8 v OR drop_bit 8 v"

definition ntohs :: "u16 \<Rightarrow> u16" where
  "ntohs v = push_bit 8 v OR drop_bit 8 v"

definition createUdpSocket :: "int sys" where
  "createUdpSocket = iobind sys_new_fd (\<lambda>socketNum w.
    if socketNum < 0 then (Inl (Exit (- 1)), w) else (Inr socketNum, w\<lparr>udp_fd := socketNum\<rparr>))"

definition sys_getaddrinfo :: "nat option sys" where
  "sys_getaddrinfo w = (case hosts w of [] \<Rightarrow> (Inr None, w) | h # hs \<Rightarrow> (Inr h, w\<lparr>hosts := hs\<rparr>))"

definition sys_bind :: "bool sys" where
  "sys_bind w = (case binds w of [] \<Rightarrow> (Inr True, w) | b # bs \<Rightarrow> (Inr b, w\<lparr>binds := bs\<rparr>))"

text \<open>The socket and the address it fills in; a port is an \<open>int\<close> cut to 16 bits by \<open>ntohs\<close>.\<close>

definition setupUdpClientToServer :: "int \<Rightarrow> (int \<times> addr) sys" where
  "setupUdpClientToServer serverPort =
    iobind createUdpSocket (\<lambda>socketNum.
    iobind sys_getaddrinfo (\<lambda>ipAddress.
      case ipAddress of
        None \<Rightarrow> halts (Exit (- 1))
      | Some ip \<Rightarrow> ret (socketNum, (ip, ntohs (word_of_int serverPort)))))"

definition udpServerSetup :: "int sys" where
  "udpServerSetup =
    iobind createUdpSocket (\<lambda>socketNum.
    iobind sys_bind (\<lambda>ok. if ok then ret socketNum else halts (Exit (- 1))))"

lemma post_createUdpSocket:
  "post createUdpSocket w
    (\<lambda>s v. 0 \<le> s \<and> fds w = s # fds v \<and> v = w\<lparr>fds := fds v, udp_fd := s\<rparr>)
    (\<lambda>v. v = w\<lparr>fds := fds v\<rparr>)"
  by (auto simp: post_def createUdpSocket_def iobind_def sys_new_fd_def split: list.split)

lemma post_setupUdpClientToServer:
  "post (setupUdpClientToServer port) w
    (\<lambda>r v. 0 \<le> fst r \<and> v = w\<lparr>fds := fds v, udp_fd := fst r, hosts := hosts v\<rparr>)
    (\<lambda>v. v = w\<lparr>fds := fds v, udp_fd := udp_fd v, hosts := hosts v\<rparr>)"
  by (auto simp: post_def setupUdpClientToServer_def createUdpSocket_def iobind_def sys_new_fd_def
      sys_getaddrinfo_def split: list.split option.split)

end
