(* ===== verification/Buffer.thy ===== *)
theory Buffer
  imports PollLib
begin

text \<open>
  The receiver's circular buffer (\<open>udpCode_spring26_v3/Buffer.h\<close>, \<open>Buffer.c\<close>). The
  functions keep the code's layout: an array of slots, slot \<open>seq % size\<close> for sequence number
  \<open>seq\<close>. The contract is stated on what the slots mean: \<open>buf_pending\<close>, the packets that wait
  by sequence number, and it is the interface \<open>reassembly\<close> under which a server that saves
  authentic packets and writes the ready ones has written a prefix of the stream.
\<close>

section \<open>Data\<close>

record BufferEntry =
  be_seq :: u32
  be_data_len :: int
  be_used :: int
  be_data :: bytes

text \<open>
  \<open>buf_alloc\<close> says that the pointer \<open>entry\<close> is not NULL; the array behind it is
  \<open>buf_entry\<close>, empty when there is none.
\<close>

record Buffer =
  buf_entry :: "BufferEntry list"
  buf_alloc :: bool
  buf_size :: int
  buf_output_file :: int
  buf_expected :: u32
  buf_missing_seq :: u32
  buf_missing_active :: int

definition zero_BufferEntry :: BufferEntry where
  "zero_BufferEntry = \<lparr>be_seq = 0, be_data_len = 0, be_used = 0, be_data = replicate SREJ_MAX_DATA 0\<rparr>"

text \<open>A buffer in memory cleared by \<open>memset\<close>.\<close>

definition zero_Buffer :: Buffer where
  "zero_Buffer = \<lparr>buf_entry = [], buf_alloc = False, buf_size = 0, buf_output_file = 0,
    buf_expected = 0, buf_missing_seq = 0, buf_missing_active = 0\<rparr>"

section \<open>The code\<close>

definition buffer_init :: "Buffer \<Rightarrow> int \<Rightarrow> u32 \<Rightarrow> int \<Rightarrow> Buffer sys" where
  "buffer_init b sz start_seq output_file =
    iobind (sys_calloc sz zero_BufferEntry) (\<lambda>r.
      case r of
        None \<Rightarrow> halts (Exit (- 1))
      | Some es \<Rightarrow> ret (b\<lparr>buf_entry := es, buf_alloc := True, buf_size := sz,
          buf_output_file := output_file, buf_expected := start_seq,
          buf_missing_seq := 0, buf_missing_active := 0\<rparr>))"

definition buffer_free :: "Buffer \<Rightarrow> Buffer sys" where
  "buffer_free b =
    (if buf_alloc b then iobind sys_free (\<lambda>_. ret (b\<lparr>buf_entry := []\<rparr>)) else ret b)"

definition buffer_expected :: "Buffer \<Rightarrow> u32" where
  "buffer_expected b = buf_expected b"

definition buffer_in_window :: "Buffer \<Rightarrow> u32 \<Rightarrow> bool" where
  "buffer_in_window b seq =
    (seq \<ge> buf_expected b \<and> seq < buf_expected b + word_of_int (buf_size b))"

definition buffer_has :: "Buffer \<Rightarrow> u32 \<Rightarrow> bool res" where
  "buffer_has b seq =
    rbind (spot_of seq (buf_size b)) (\<lambda>spot.
    rbind (arr_get (buf_entry b) spot) (\<lambda>e.
    Inr (be_used e = 1 \<and> be_seq e = seq)))"

function has_later_loop :: "Buffer \<Rightarrow> int \<Rightarrow> bool res" where
  "has_later_loop b count =
    (if count < buf_size b then
       rbind (arr_get (buf_entry b) count) (\<lambda>e.
         if be_used e = 1 \<and> be_seq e > buf_expected b then Inr True
         else has_later_loop b (count + 1))
     else Inr False)"
  by pat_completeness auto
termination
  by (relation "measure (\<lambda>(b, count). nat (buf_size b - count))") auto

declare has_later_loop.simps [simp del]

definition buffer_has_later :: "Buffer \<Rightarrow> bool res" where
  "buffer_has_later b = has_later_loop b 0"

definition buffer_save :: "Buffer \<Rightarrow> u32 \<Rightarrow> bytes \<Rightarrow> int \<Rightarrow> Buffer res" where
  "buffer_save b seq data data_len =
    rbind (spot_of seq (buf_size b)) (\<lambda>spot.
    rbind (buffer_has b seq) (\<lambda>has.
      if has then Inr b
      else
        rbind (arr_get (buf_entry b) spot) (\<lambda>e.
        rbind (mem_read data 0 data_len) (\<lambda>d.
        rbind (mem_write (be_data e) 0 d) (\<lambda>d'.
        rbind (arr_put (buf_entry b) spot
          (e\<lparr>be_seq := seq, be_data_len := data_len, be_used := 1, be_data := d'\<rparr>)) (\<lambda>es.
        Inr (b\<lparr>buf_entry := es\<rparr>)))))))"

text \<open>The number of slots in use; each turn of \<open>buffer_write_ready\<close>'s loop frees one.\<close>

definition used_slots :: "Buffer \<Rightarrow> nat" where
  "used_slots b = length (filter (\<lambda>e. be_used e = 1) (buf_entry b))"

lemma filter_length_update:
  assumes "i < length xs" and "P (xs ! i)" and "\<not> P y"
  shows "length (filter P (xs[i := y])) < length (filter P xs)"
proof -
  have "xs = take i xs @ xs ! i # drop (Suc i) xs" using assms(1) by (simp add: id_take_nth_drop)
  then have "filter P xs = filter P (take i xs) @ xs ! i # filter P (drop (Suc i) xs)"
    using assms(2) by (metis filter.simps(2) filter_append)
  moreover have "filter P (xs[i := y]) = filter P (take i xs) @ filter P (drop (Suc i) xs)"
    using assms(1,3) by (simp add: upd_conv_take_nth_drop)
  ultimately show ?thesis by simp
qed

function buffer_write_ready :: "Buffer \<Rightarrow> Buffer sys" where
  "buffer_write_ready b w =
    (case buffer_has b (buf_expected b) of
       Inl h \<Rightarrow> (Inl h, w)
     | Inr False \<Rightarrow> (Inr b, w)
     | Inr True \<Rightarrow>
         (case rbind (spot_of (buf_expected b) (buf_size b)) (\<lambda>spot.
               rbind (arr_get (buf_entry b) spot) (\<lambda>e.
               rbind (mem_read (be_data e) 0 (be_data_len e)) (\<lambda>d. Inr (spot, e, d)))) of
            Inl h \<Rightarrow> (Inl h, w)
          | Inr (spot, e, d) \<Rightarrow>
              (case sys_write d w of
                 (Inl h, w') \<Rightarrow> (Inl h, w')
               | (Inr wrote, w') \<Rightarrow>
                   if wrote < 0 then (Inl (Exit (- 1)), w')
                   else (case arr_put (buf_entry b) spot (e\<lparr>be_used := 0\<rparr>) of
                           Inl h \<Rightarrow> (Inl h, w')
                         | Inr es \<Rightarrow> buffer_write_ready
                             (b\<lparr>buf_entry := es, buf_expected := buf_expected b + 1\<rparr>) w'))))"
  by pat_completeness auto
termination
  by (relation "measure (\<lambda>(b, w). used_slots b)")
    (auto simp: buffer_has_def rbind_eq_Inr arr_get_def arr_put_def used_slots_def
      intro!: filter_length_update split: if_splits)

declare buffer_write_ready.simps [simp del]

definition buffer_need_reject :: "Buffer \<Rightarrow> bool \<times> Buffer" where
  "buffer_need_reject b =
    (if buf_missing_active b = 0 \<or> buf_missing_seq b \<noteq> buf_expected b
     then (True, b\<lparr>buf_missing_active := 1, buf_missing_seq := buf_expected b\<rparr>)
     else (False, b))"

definition buffer_clear_reject :: "Buffer \<Rightarrow> u32 \<Rightarrow> Buffer" where
  "buffer_clear_reject b seq =
    (if buf_missing_active b = 1 \<and> buf_missing_seq b = seq
     then b\<lparr>buf_missing_active := 0\<rparr> else b)"

section \<open>Invariant and meaning\<close>

text \<open>
  A slot in use holds a packet of the current window, in the slot of its sequence number.
  The largest sequence number is never stored, so advancing past a stored one does not wrap.
\<close>

definition slot_ok :: "Buffer \<Rightarrow> nat \<Rightarrow> BufferEntry \<Rightarrow> bool" where
  "slot_ok b i e \<longleftrightarrow> length (be_data e) = SREJ_MAX_DATA \<and>
    (be_used e = 1 \<longrightarrow>
      0 \<le> be_data_len e \<and> be_data_len e \<le> int SREJ_MAX_DATA \<and>
      unat (be_seq e) mod nat (buf_size b) = i \<and>
      unat (buf_expected b) \<le> unat (be_seq e) \<and>
      unat (be_seq e) < unat (buf_expected b) + nat (buf_size b) \<and>
      unat (be_seq e) < 4294967295)"

definition buffer_inv :: "Buffer \<Rightarrow> bool" where
  "buffer_inv b \<longleftrightarrow> 0 \<le> buf_size b \<and> buf_size b < 2 ^ 31 \<and>
    length (buf_entry b) = nat (buf_size b) \<and>
    (\<forall>i < nat (buf_size b). slot_ok b i (buf_entry b ! i))"

text \<open>The data waiting under a sequence number.\<close>

definition buf_pending :: "Buffer \<Rightarrow> nat \<Rightarrow> bytes option" where
  "buf_pending b n =
    (let e = buf_entry b ! (n mod nat (buf_size b)) in
     if 0 < buf_size b \<and> be_used e = 1 \<and> unat (be_seq e) = n
     then Some (take (nat (be_data_len e)) (be_data e)) else None)"

abbreviation buf_next :: "Buffer \<Rightarrow> nat" where
  "buf_next b \<equiv> unat (buf_expected b)"

lemma buffer_inv_slot:
  "buffer_inv b \<Longrightarrow> i < nat (buf_size b) \<Longrightarrow> slot_ok b i (buf_entry b ! i)"
  by (simp add: buffer_inv_def)

lemma buf_pending_Some:
  assumes "buffer_inv b" and "buf_pending b n = Some d"
  shows "buf_next b \<le> n" "n < buf_next b + nat (buf_size b)" "n < 4294967295"
    "length d \<le> SREJ_MAX_DATA" "0 < buf_size b"
proof -
  let ?e = "buf_entry b ! (n mod nat (buf_size b))"
  have e: "0 < buf_size b" "be_used ?e = 1" "unat (be_seq ?e) = n" "d = take (nat (be_data_len ?e)) (be_data ?e)"
    using assms(2) by (auto simp: buf_pending_def Let_def split: if_splits)
  then have "slot_ok b (n mod nat (buf_size b)) ?e" using buffer_inv_slot [OF assms(1)] by simp
  with e show "buf_next b \<le> n" "n < buf_next b + nat (buf_size b)" "n < 4294967295"
    "length d \<le> SREJ_MAX_DATA" "0 < buf_size b"
    by (auto simp: slot_ok_def)
qed

text \<open>A slot in use is pending under its own number.\<close>

lemma slot_pending:
  assumes "buffer_inv b" and "i < nat (buf_size b)" and "be_used (buf_entry b ! i) = 1"
  shows "buf_pending b (unat (be_seq (buf_entry b ! i))) \<noteq> None"
  using buffer_inv_slot [OF assms(1,2)] assms(2,3) by (auto simp: slot_ok_def buf_pending_def Let_def)

lemma buffer_inv_get:
  assumes "buffer_inv b" and "0 < buf_size b"
  shows "spot_of seq (buf_size b) = Inr (int (unat seq mod nat (buf_size b)))"
    and "unat seq mod nat (buf_size b) < length (buf_entry b)"
    and "arr_get (buf_entry b) (int (unat seq mod nat (buf_size b))) =
      Inr (buf_entry b ! (unat seq mod nat (buf_size b)))"
proof -
  show "spot_of seq (buf_size b) = Inr (int (unat seq mod nat (buf_size b)))"
    using assms by (intro spot_of_pos) (simp_all add: buffer_inv_def)
  show l: "unat seq mod nat (buf_size b) < length (buf_entry b)"
    using assms by (simp add: buffer_inv_def)
  then show "arr_get (buf_entry b) (int (unat seq mod nat (buf_size b))) =
      Inr (buf_entry b ! (unat seq mod nat (buf_size b)))" by (subst arr_get_Inr) simp_all
qed

lemma buffer_has_eq:
  assumes "buffer_inv b" and "0 < buf_size b"
  shows "buffer_has b seq = Inr (buf_pending b (unat seq) \<noteq> None)"
  using buffer_inv_get [OF assms] assms(2)
  by (auto simp: buffer_has_def buf_pending_def Let_def word_unat_eq_iff)

lemma buffer_in_window_iff:
  assumes "0 \<le> buf_size b" and "buf_size b < 2 ^ 31"
  shows "buffer_in_window b seq \<longleftrightarrow>
    buf_next b \<le> unat seq \<and> unat seq < buf_next b + nat (buf_size b) \<and>
    buf_next b + nat (buf_size b) < 4294967296"
proof -
  have s: "unat (word_of_int (buf_size b) :: u32) = nat (buf_size b)"
    using assms by (simp add: unat_word_of_int_u32)
  have "unat (buf_expected b + word_of_int (buf_size b)) =
      (if buf_next b + nat (buf_size b) < 4294967296 then buf_next b + nat (buf_size b)
       else buf_next b + nat (buf_size b) - 4294967296)"
    using assms unat_less_2_32 [of "buf_expected b"]
    by (simp add: unat_word_ariths s mod_if [of "_ + _"])
  then show ?thesis
    using assms unat_less_2_32 [of "buf_expected b"]
    by (auto simp: buffer_in_window_def word_le_nat_alt word_less_nat_alt split: if_splits)
qed

lemma has_later_loop_eq:
  assumes "buffer_inv b" and "0 \<le> c"
  shows "has_later_loop b c =
    Inr (\<exists>i. nat c \<le> i \<and> i < nat (buf_size b) \<and> be_used (buf_entry b ! i) = 1 \<and>
      be_seq (buf_entry b ! i) > buf_expected b)"
  using assms
proof (induction b c rule: has_later_loop.induct)
  case (1 b c)
  let ?Q = "\<lambda>i. be_used (buf_entry b ! i) = 1 \<and> be_seq (buf_entry b ! i) > buf_expected b"
  show ?case
  proof (cases "c < buf_size b")
    case True
    then have g: "arr_get (buf_entry b) c = Inr (buf_entry b ! nat c)"
      using "1.prems" by (simp add: buffer_inv_def)
    show ?thesis
    proof (cases "?Q (nat c)")
      case True
      with \<open>c < buf_size b\<close> g "1.prems"(2) show ?thesis
        by (auto simp: has_later_loop.simps [of b c] intro!: exI [of _ "nat c"])
    next
      case False
      have "has_later_loop b (c + 1) = Inr (\<exists>i. nat (c + 1) \<le> i \<and> i < nat (buf_size b) \<and> ?Q i)"
        using "1.IH" [OF True g] False "1.prems" by simp
      moreover have "nat (c + 1) \<le> i \<longleftrightarrow> nat c \<le> i" if "?Q i" for i
        using that False "1.prems"(2) by (cases "i = nat c") auto
      ultimately show ?thesis
        using True g False by (simp add: has_later_loop.simps [of b c]) blast
    qed
  next
    case False
    then show ?thesis by (auto simp: has_later_loop.simps [of b c])
  qed
qed

lemma buffer_has_later_eq:
  assumes "buffer_inv b"
  shows "buffer_has_later b = Inr (\<exists>n > buf_next b. buf_pending b n \<noteq> None)"
proof -
  have "(\<exists>i < nat (buf_size b). be_used (buf_entry b ! i) = 1 \<and> be_seq (buf_entry b ! i) > buf_expected b)
    \<longleftrightarrow> (\<exists>n > buf_next b. buf_pending b n \<noteq> None)"
    (is "?L \<longleftrightarrow> ?R")
  proof
    assume ?L
    then show ?R using slot_pending [OF assms] by (auto simp: word_less_nat_alt)
  next
    assume ?R
    then show ?L
      by (auto simp: buf_pending_def Let_def word_less_nat_alt split: if_splits
          intro!: exI [of _ "_ mod nat (buf_size b)"])
  qed
  then show ?thesis
    using has_later_loop_eq [OF assms, of 0] by (simp add: buffer_has_later_def)
qed

section \<open>Saving\<close>

lemma slot_ok_cong:
  "buf_size b' = buf_size b \<Longrightarrow> buf_expected b' = buf_expected b \<Longrightarrow> slot_ok b' i e = slot_ok b i e"
  by (simp add: slot_ok_def)

text \<open>Filling a slot changes what is pending under its own number only.\<close>

lemma fill_slot:
  assumes inv: "buffer_inv b" and win: "buffer_in_window b seq"
    and e: "slot_ok b (unat seq mod nat (buf_size b)) e" "be_used e = 1" "be_seq e = seq"
    and b': "b' = b\<lparr>buf_entry := (buf_entry b)[unat seq mod nat (buf_size b) := e]\<rparr>"
  shows "buffer_inv b'"
    and "buf_pending b' = (buf_pending b)(unat seq \<mapsto> take (nat (be_data_len e)) (be_data e))"
proof -
  let ?N = "nat (buf_size b)"
  let ?i = "unat seq mod ?N"
  have w: "buf_next b \<le> unat seq" "unat seq < buf_next b + ?N"
    using win inv by (simp_all add: buffer_in_window_iff buffer_inv_def)
  then have N: "0 < ?N" "0 < buf_size b" by simp_all
  then have i: "?i < ?N" "?i < length (buf_entry b)" using inv by (simp_all add: buffer_inv_def)
  show "buffer_inv b'"
    using inv e(1) i unfolding b' by (auto simp: buffer_inv_def slot_ok_def nth_list_update)
  show "buf_pending b' = (buf_pending b)(unat seq \<mapsto> take (nat (be_data_len e)) (be_data e))"
  proof
    fix n
    consider "n = unat seq" | "n \<noteq> unat seq" "n mod ?N = ?i" | "n mod ?N \<noteq> ?i" by blast
    then show "buf_pending b' n = ((buf_pending b)(unat seq \<mapsto> take (nat (be_data_len e)) (be_data e))) n"
    proof cases
      case 1
      with e i N show ?thesis by (simp add: b' buf_pending_def)
    next
      case 2
      have "buf_pending b n = None"
      proof (rule ccontr)
        assume "buf_pending b n \<noteq> None"
        then obtain d where d: "buf_pending b n = Some d" by blast
        have "n = unat seq"
          using same_slot_eq [OF 2(2)] buf_pending_Some(1,2) [OF inv d] w by blast
        with 2(1) show False ..
      qed
      with 2 e i show ?thesis by (simp add: b' buf_pending_def)
    next
      case 3
      then show ?thesis by (auto simp: b' buf_pending_def)
    qed
  qed
qed

lemma buffer_save_spec:
  assumes inv: "buffer_inv b" and win: "buffer_in_window b seq"
    and len: "0 \<le> data_len" "data_len \<le> int SREJ_MAX_DATA" "data_len \<le> int (length data)"
  shows "\<exists>b'. buffer_save b seq data data_len = Inr b' \<and> buffer_inv b' \<and>
    b' = b\<lparr>buf_entry := buf_entry b'\<rparr> \<and>
    buf_pending b' = (if buf_pending b (unat seq) = None
      then (buf_pending b)(unat seq \<mapsto> take (nat data_len) data) else buf_pending b)"
proof -
  let ?N = "nat (buf_size b)"
  let ?i = "unat seq mod ?N"
  let ?e = "buf_entry b ! ?i"
  have w: "buf_next b \<le> unat seq" "unat seq < buf_next b + ?N" "buf_next b + ?N < 4294967296"
    using win inv by (simp_all add: buffer_in_window_iff buffer_inv_def)
  then have N: "0 < buf_size b" by simp
  note g = buffer_inv_get [OF inv N]
  show ?thesis
  proof (cases "buf_pending b (unat seq) = None")
    case True
    have l: "length (be_data ?e) = SREJ_MAX_DATA"
      using buffer_inv_slot [OF inv, of ?i] N by (simp add: slot_ok_def)
    let ?d = "take (nat data_len) data @ drop (nat data_len) (be_data ?e)"
    let ?e' = "?e\<lparr>be_seq := seq, be_data_len := data_len, be_used := 1, be_data := ?d\<rparr>"
    let ?b = "b\<lparr>buf_entry := (buf_entry b)[?i := ?e']\<rparr>"
    have dl: "length (take (nat data_len) data) = nat data_len" "nat data_len \<le> SREJ_MAX_DATA"
      using len by simp_all
    have "mem_write (be_data ?e) 0 (take (nat data_len) data) = Inr ?d"
      unfolding mem_write_def dl using dl(2) l by simp
    then have "buffer_save b seq data data_len = Inr ?b"
      using True len g N by (simp add: buffer_save_def buffer_has_eq [OF inv])
    moreover have ok: "slot_ok b ?i ?e'"
      using w len l N by (simp add: slot_ok_def)
    ultimately show ?thesis
      using True fill_slot [OF inv win ok _ _ refl] len by auto
  next
    case False
    then have "buffer_save b seq data data_len = Inr b"
      using g by (simp add: buffer_save_def buffer_has_eq [OF inv N])
    with False inv show ?thesis by auto
  qed
qed

section \<open>Writing what is ready\<close>

text \<open>The number of consecutive pending packets from \<open>n\<close> on.\<close>

definition run_from :: "(nat \<Rightarrow> bytes option) \<Rightarrow> nat \<Rightarrow> nat \<Rightarrow> bool" where
  "run_from pend n k \<longleftrightarrow> (\<forall>i < k. pend (n + i) \<noteq> None) \<and> pend (n + k) = None"

lemma run_from_0: "pend n = None \<Longrightarrow> run_from pend n 0"
  by (simp add: run_from_def)

lemma run_from_Suc:
  assumes "pend n = Some d" and "run_from (pend(n := None)) (Suc n) k"
  shows "run_from pend n (Suc k)"
  using assms by (auto simp: run_from_def less_Suc_eq_0_disj)

text \<open>Emptying the slot of the expected number and advancing.\<close>

lemma advance_slot:
  assumes inv: "buffer_inv b" and p: "buf_pending b (buf_next b) = Some d"
    and b': "b' = b\<lparr>buf_entry := (buf_entry b)[buf_next b mod nat (buf_size b) :=
      (buf_entry b ! (buf_next b mod nat (buf_size b)))\<lparr>be_used := 0\<rparr>], buf_expected := buf_expected b + 1\<rparr>"
  shows "buffer_inv b'" and "buf_next b' = Suc (buf_next b)"
    and "buf_pending b' = (buf_pending b)(buf_next b := None)"
proof -
  let ?N = "nat (buf_size b)"
  let ?i = "buf_next b mod ?N"
  note r = buf_pending_Some [OF inv p]
  have i: "?i < ?N" "?i < length (buf_entry b)" using inv r(5) by (simp_all add: buffer_inv_def)
  show nx: "buf_next b' = Suc (buf_next b)" using r(3) by (simp add: b' unat_Suc_u32)
  have other: "slot_ok b' j (buf_entry b ! j)" if "j < ?N" "j \<noteq> ?i" for j
  proof -
    have "unat (be_seq (buf_entry b ! j)) \<noteq> buf_next b"
      if "be_used (buf_entry b ! j) = 1"
      using buffer_inv_slot [OF inv \<open>j < ?N\<close>] that \<open>j \<noteq> ?i\<close> by (auto simp: slot_ok_def)
    then show ?thesis
      using buffer_inv_slot [OF inv \<open>j < ?N\<close>] nx by (auto simp: slot_ok_def b')
  qed
  moreover have "slot_ok b' ?i ((buf_entry b ! ?i)\<lparr>be_used := 0\<rparr>)"
    using buffer_inv_slot [OF inv i(1)] by (simp add: slot_ok_def)
  ultimately have "slot_ok b' j (buf_entry b' ! j)" if "j < ?N" for j
    using that i by (cases "j = ?i") (simp_all add: b')
  then show "buffer_inv b'" using inv by (simp add: buffer_inv_def b')
  show "buf_pending b' = (buf_pending b)(buf_next b := None)"
  proof
    fix n
    show "buf_pending b' n = ((buf_pending b)(buf_next b := None)) n"
    proof (cases "n mod ?N = ?i")
      case True
      have "buf_pending b n = None" if "n \<noteq> buf_next b"
      proof (rule ccontr)
        assume "buf_pending b n \<noteq> None"
        then obtain d' where "buf_pending b n = Some d'" by blast
        note r' = buf_pending_Some(1,2) [OF inv this]
        from that same_slot_eq [OF True r' r(1,2)] show False by simp
      qed
      moreover have "buf_pending b' n = None"
        using True i by (simp add: b' buf_pending_def)
      ultimately show ?thesis by simp
    next
      case False
      then show ?thesis by (auto simp: b' buf_pending_def)
    qed
  qed
qed

text \<open>
  The loop writes the packets of the whole run from the expected number on, in order, and leaves
  the others pending. \<open>write\<close> may fail (the process ends) or write less than it was given.
\<close>

lemma buffer_write_ready_stop:
  assumes "buffer_inv b" and "0 < buf_size b" and "buf_pending b (buf_next b) = None"
  shows "buffer_write_ready b w = (Inr b, w)"
  using assms by (simp add: buffer_write_ready.simps [of b w] buffer_has_eq)

lemma buffer_write_ready_step:
  assumes "buffer_inv b" and "buf_pending b (buf_next b) = Some d"
    and "b' = b\<lparr>buf_entry := (buf_entry b)[buf_next b mod nat (buf_size b) :=
      (buf_entry b ! (buf_next b mod nat (buf_size b)))\<lparr>be_used := 0\<rparr>], buf_expected := buf_expected b + 1\<rparr>"
    and "sys_write d w = (Inr k, w')"
  shows "buffer_write_ready b w =
    (if k < 0 then (Inl (Exit (- 1)), w') else buffer_write_ready b' w')"
proof -
  note r = buf_pending_Some [OF assms(1,2)]
  note g = buffer_inv_get [OF assms(1) r(5), of "buf_expected b"]
  let ?e = "buf_entry b ! (buf_next b mod nat (buf_size b))"
  have s: "slot_ok b (buf_next b mod nat (buf_size b)) ?e"
    using buffer_inv_slot [OF assms(1)] r(5) by simp
  have d: "be_used ?e = 1" "take (nat (be_data_len ?e)) (be_data ?e) = d"
    using assms(2) by (auto simp: buf_pending_def Let_def split: if_splits)
  then have "mem_read (be_data ?e) 0 (be_data_len ?e) = Inr d"
    using s by (simp add: slot_ok_def)
  then show ?thesis
    using assms(2,3,4) g
    by (simp add: buffer_write_ready.simps [of b w] buffer_has_eq [OF assms(1) r(5)])
qed

lemma sys_write_cases:
  obtains k w' where "sys_write d w = (Inr k, w')" and "k < 0 \<longleftrightarrow> (\<exists>ws. writes w = WriteError # ws)"
    and "w' = w\<lparr>out_data := out_data w @ take (nat k) d, writes := tl (writes w)\<rparr>"
    and "writes w = [] \<longrightarrow> k = int (length d)"
proof -
  have "write_amount w d < 0 \<longleftrightarrow> (\<exists>ws. writes w = WriteError # ws)"
    by (auto simp: write_amount_def split: list.splits write_answer.splits)
  moreover have "writes w = [] \<longrightarrow> write_amount w d = int (length d)"
    by (simp add: write_amount_def)
  ultimately show ?thesis
    using that [of "write_amount w d"] by (simp add: sys_write_def Let_def)
qed

text \<open>
  What the function does with the buffer and the file, whatever \<open>write\<close> answers: no undefined
  operation; if it returns, it has advanced over the whole run and kept the rest.
\<close>

definition ready_post :: "Buffer \<Rightarrow> world \<Rightarrow> Buffer \<Rightarrow> world \<Rightarrow> bool" where
  "ready_post b w b' w' \<longleftrightarrow>
    buffer_inv b' \<and> b' = b\<lparr>buf_entry := buf_entry b', buf_expected := buf_expected b'\<rparr> \<and>
    (\<exists>k. buf_next b' = buf_next b + k \<and> run_from (buf_pending b) (buf_next b) k \<and>
      (\<forall>n. buf_pending b' n = (if buf_next b \<le> n \<and> n < buf_next b + k then None else buf_pending b n)) \<and>
      w' = w\<lparr>out_data := out_data w', writes := writes w'\<rparr> \<and>
      (writes w = [] \<longrightarrow> writes w' = [] \<and>
        out_data w' = out_data w @
          concat (map (\<lambda>i. the (buf_pending b (buf_next b + i))) [0..<k])))"

lemma ready_post_stop:
  "buffer_inv b \<Longrightarrow> buf_pending b (buf_next b) = None \<Longrightarrow> ready_post b w b w"
  unfolding ready_post_def by (auto intro!: exI [of _ 0] run_from_0)

lemma map_upt_Suc_shift: "map f [0..<Suc k] = f 0 # map (\<lambda>i. f (Suc i)) [0..<k]"
  by (simp add: upt_conv_Cons map_Suc_upt [symmetric] del: upt_Suc)

lemma ready_post_step:
  assumes inv: "buffer_inv b" and p: "buf_pending b (buf_next b) = Some d"
    and b': "b' = b\<lparr>buf_entry := (buf_entry b)[buf_next b mod nat (buf_size b) :=
      (buf_entry b ! (buf_next b mod nat (buf_size b)))\<lparr>be_used := 0\<rparr>], buf_expected := buf_expected b + 1\<rparr>"
    and w': "w' = w\<lparr>out_data := out_data w @ e, writes := tl (writes w)\<rparr>" "writes w = [] \<Longrightarrow> e = d"
    and post: "ready_post b' w' b'' w''"
  shows "ready_post b w b'' w''"
proof -
  note adv = advance_slot [OF inv p b']
  from post obtain k where k: "buf_next b'' = Suc (buf_next b) + k"
    "run_from ((buf_pending b)(buf_next b := None)) (Suc (buf_next b)) k"
    "\<forall>n. buf_pending b'' n = (if Suc (buf_next b) \<le> n \<and> n < Suc (buf_next b) + k then None
      else ((buf_pending b)(buf_next b := None)) n)"
    "w'' = w'\<lparr>out_data := out_data w'', writes := writes w''\<rparr>"
    "writes w' = [] \<longrightarrow> writes w'' = [] \<and> out_data w'' = out_data w' @
      concat (map (\<lambda>i. the (((buf_pending b)(buf_next b := None)) (Suc (buf_next b) + i))) [0..<k])"
    "buffer_inv b''" "b'' = b'\<lparr>buf_entry := buf_entry b'', buf_expected := buf_expected b''\<rparr>"
    unfolding ready_post_def adv(2,3) by blast
  have "run_from (buf_pending b) (buf_next b) (Suc k)" by (rule run_from_Suc [OF p k(2)])
  moreover have "buf_pending b'' n =
      (if buf_next b \<le> n \<and> n < buf_next b + Suc k then None else buf_pending b n)" for n
    using k(3) by auto
  moreover have "writes w = [] \<longrightarrow> writes w'' = [] \<and> out_data w'' = out_data w @
      concat (map (\<lambda>i. the (buf_pending b (buf_next b + i))) [0..<Suc k])"
    using k(5) p w' unfolding map_upt_Suc_shift by simp
  moreover have "w'' = w\<lparr>out_data := out_data w'', writes := writes w''\<rparr>"
    using k(4) w'(1) by simp
  moreover have "b'' = b\<lparr>buf_entry := buf_entry b'', buf_expected := buf_expected b''\<rparr>"
    using k(7) b' by simp
  ultimately show ?thesis
    unfolding ready_post_def using k(1,6) by (intro conjI exI [of _ "Suc k"] allI) simp_all
qed

lemma post_buffer_write_ready:
  assumes "buffer_inv b" and "0 < buf_size b"
  shows "post (buffer_write_ready b) w (ready_post b w)
    (\<lambda>w'. w' = w\<lparr>out_data := out_data w', writes := writes w'\<rparr> \<and> writes w \<noteq> [])"
  using assms
proof (induction "used_slots b" arbitrary: b w rule: less_induct)
  case less
  show ?case
  proof (cases "buf_pending b (buf_next b)")
    case None
    with less.prems show ?thesis
      by (simp add: post_from_eq [OF buffer_write_ready_stop] ready_post_stop)
  next
    case (Some d)
    let ?i = "buf_next b mod nat (buf_size b)"
    define b' where b': "b' = b\<lparr>buf_entry := (buf_entry b)[?i := (buf_entry b ! ?i)\<lparr>be_used := 0\<rparr>],
      buf_expected := buf_expected b + 1\<rparr>"
    obtain k w' where w: "sys_write d w = (Inr k, w')"
      and neg: "k < 0 \<longleftrightarrow> (\<exists>ws. writes w = WriteError # ws)"
      and w': "w' = w\<lparr>out_data := out_data w @ take (nat k) d, writes := tl (writes w)\<rparr>"
      and full: "writes w = [] \<longrightarrow> k = int (length d)"
      by (rule sys_write_cases [of d w])
    note step = buffer_write_ready_step [OF less.prems(1) Some b' w]
    show ?thesis
    proof (cases "k < 0")
      case True
      with step w' neg show ?thesis by (auto simp: post_def)
    next
      case False
      have "used_slots b' < used_slots b"
        using Some less.prems(2) buffer_inv_get(2) [OF less.prems, of "buf_expected b"]
        by (auto simp: b' used_slots_def buf_pending_def Let_def intro!: filter_length_update split: if_splits)
      then have "post (buffer_write_ready b') w' (ready_post b' w')
        (\<lambda>w''. w'' = w'\<lparr>out_data := out_data w'', writes := writes w''\<rparr> \<and> writes w' \<noteq> [])"
        by (rule less.hyps) (use advance_slot(1) [OF less.prems(1) Some b'] less.prems(2) b' in simp_all)
      then have "post (buffer_write_ready b') w' (ready_post b w)
        (\<lambda>w''. w'' = w\<lparr>out_data := out_data w'', writes := writes w''\<rparr> \<and> writes w \<noteq> [])"
      proof (rule post_mono)
        show "ready_post b w c v" if "ready_post b' w' c v" for c v
          by (rule ready_post_step [OF less.prems(1) Some b' w' _ that]) (simp add: full)
      qed (auto simp: w')
      with step False show ?thesis by (simp add: post_def)
    qed
  qed
qed

section \<open>Initialisation\<close>

lemma post_buffer_init:
  assumes "sz < 2 ^ 31"
  shows "post (buffer_init b sz start_seq fd) w
    (\<lambda>b' v. 0 \<le> sz \<and> buffer_inv b' \<and> buf_alloc b' \<and> buf_size b' = sz \<and> buf_expected b' = start_seq \<and>
      buf_output_file b' = fd \<and> buf_missing_active b' = 0 \<and> (\<forall>n. buf_pending b' n = None) \<and>
      v = w\<lparr>allocs := tl (allocs w), live := Suc (live w)\<rparr>)
    (\<lambda>v. v = w\<lparr>allocs := tl (allocs w)\<rparr> \<and> (sz < 0 \<or> allocs w \<noteq> []))"
proof -
  have m: "0 < sz \<Longrightarrow> n mod nat sz < nat sz" for n :: nat by simp
  show ?thesis
    using assms
    by (auto simp: post_def buffer_init_def iobind_def sys_calloc_def buffer_inv_def slot_ok_def
        buf_pending_def zero_BufferEntry_def m Let_def)
qed

section \<open>The interface to the server\<close>

text \<open>
  The stream is a list of chunks, numbered from \<open>base\<close>. A receiver is in step with it when the
  file holds the chunks before the next expected number and everything that waits is a chunk
  under its own number.
\<close>

definition stream_ok :: "bytes list \<Rightarrow> nat \<Rightarrow> nat \<Rightarrow> (nat \<Rightarrow> bytes option) \<Rightarrow> bytes \<Rightarrow> bool" where
  "stream_ok cs base n pend out \<longleftrightarrow>
    base \<le> n \<and> n \<le> base + length cs \<and> out = concat (take (n - base) cs) \<and>
    (\<forall>m d. pend m = Some d \<longrightarrow> base \<le> m \<and> m < base + length cs \<and> d = cs ! (m - base))"

lemma concat_take_run:
  assumes "n + k \<le> length cs" and "\<And>i. i < k \<Longrightarrow> f i = cs ! (n + i)"
  shows "concat (take n cs) @ concat (map f [0..<k]) = concat (take (n + k) cs)"
  using assms
proof (induction k)
  case (Suc k)
  then have "concat (take n cs) @ concat (map f [0..<k]) = concat (take (n + k) cs)" by simp
  with Suc.prems show ?case by (simp add: take_Suc_conv_app_nth)
qed simp

text \<open>What the server relies on: how saving a packet and writing the ready ones move the state.\<close>

locale reassembly =
  fixes inv :: "'b \<Rightarrow> bool"
    and next_no :: "'b \<Rightarrow> nat"
    and pend :: "'b \<Rightarrow> nat \<Rightarrow> bytes option"
    and saves :: "'b \<Rightarrow> nat \<Rightarrow> bytes \<Rightarrow> 'b \<Rightarrow> bool"
    and flushes :: "'b \<Rightarrow> bytes \<Rightarrow> 'b \<Rightarrow> bool"
  assumes saves_inv: "inv b \<Longrightarrow> saves b n d b' \<Longrightarrow> inv b' \<and> next_no b' = next_no b"
    and saves_pend: "inv b \<Longrightarrow> saves b n d b' \<Longrightarrow>
      pend b' = (if pend b n = None then (pend b)(n \<mapsto> d) else pend b)"
    and flushes_inv: "inv b \<Longrightarrow> flushes b out b' \<Longrightarrow> inv b'"
    and flushes_run: "inv b \<Longrightarrow> flushes b out b' \<Longrightarrow>
      \<exists>k. next_no b' = next_no b + k \<and> run_from (pend b) (next_no b) k \<and>
        out = concat (map (\<lambda>i. the (pend b (next_no b + i))) [0..<k]) \<and>
        (\<forall>n. pend b' n = (if next_no b \<le> n \<and> n < next_no b + k then None else pend b n))"
begin

lemma saves_stream:
  assumes "inv b" and "stream_ok cs base (next_no b) (pend b) out" and "saves b n d b'"
    and "base \<le> n" "n < base + length cs" "d = cs ! (n - base)"
  shows "stream_ok cs base (next_no b') (pend b') out"
  using assms saves_inv [OF assms(1,3)] saves_pend [OF assms(1,3)]
  by (auto simp: stream_ok_def)

lemma flushes_stream:
  assumes "inv b" and s: "stream_ok cs base (next_no b) (pend b) out" and "flushes b part b'"
  shows "stream_ok cs base (next_no b') (pend b') (out @ part)"
proof -
  from flushes_run [OF assms(1,3)] obtain k where
    k: "next_no b' = next_no b + k" "run_from (pend b) (next_no b) k"
      "part = concat (map (\<lambda>i. the (pend b (next_no b + i))) [0..<k])"
      "\<forall>n. pend b' n = (if next_no b \<le> n \<and> n < next_no b + k then None else pend b n)"
    by blast
  let ?n = "next_no b - base"
  have b: "base \<le> next_no b" "next_no b \<le> base + length cs" using s by (auto simp: stream_ok_def)
  have r: "the (pend b (next_no b + i)) = cs ! (?n + i) \<and> ?n + i < length cs" if i: "i < k" for i
  proof -
    obtain d where d: "pend b (next_no b + i) = Some d" using k(2) i by (auto simp: run_from_def)
    have e: "next_no b + i - base = ?n + i" using b by simp
    from s d have "next_no b + i < base + length cs \<and> d = cs ! (next_no b + i - base)"
      unfolding stream_ok_def by blast
    then have "next_no b + i < base + length cs" "d = cs ! (?n + i)" unfolding e by simp_all
    moreover from this(1) b have "?n + i < length cs" by linarith
    ultimately show ?thesis by (simp add: d)
  qed
  have l: "?n + k \<le> length cs" using r [of "k - 1"] b by (cases k) auto
  have "concat (take ?n cs) @ part = concat (take (?n + k) cs)"
    unfolding k(3) by (rule concat_take_run [OF l]) (use r in blast)
  with s k b l show ?thesis by (auto simp: stream_ok_def split: if_splits)
qed

text \<open>A server that saves an authentic chunk and then writes what is ready stays in step.\<close>

lemma saves_flushes_stream:
  assumes "inv b" and "stream_ok cs base (next_no b) (pend b) out"
    and "saves b n d b'" "base \<le> n" "n < base + length cs" "d = cs ! (n - base)"
    and "flushes b' part b''"
  shows "inv b'' \<and> stream_ok cs base (next_no b'') (pend b'') (out @ part)"
  using flushes_stream [OF _ saves_stream [OF assms(1-6)] assms(7)] saves_inv [OF assms(1,3)]
    flushes_inv [OF _ assms(7)] by blast

end

lemma stream_ok_prefix: "stream_ok cs base n pend out \<Longrightarrow> \<exists>rest. concat cs = out @ rest"
  unfolding stream_ok_def by (intro exI [of _ "concat (drop (n - base) cs)"])
    (simp flip: concat_append)

lemma stream_ok_complete:
  "stream_ok cs base n pend out \<Longrightarrow> base + length cs \<le> n \<Longrightarrow> out = concat cs"
  by (auto simp: stream_ok_def)

text \<open>The operations of the code as the two relations of the interface.\<close>

definition buffer_saves :: "Buffer \<Rightarrow> nat \<Rightarrow> bytes \<Rightarrow> Buffer \<Rightarrow> bool" where
  "buffer_saves b n d b' \<longleftrightarrow> (\<exists>seq data len. n = unat seq \<and> buffer_in_window b seq \<and>
    0 \<le> len \<and> len \<le> int SREJ_MAX_DATA \<and> len \<le> int (length data) \<and> d = take (nat len) data \<and>
    buffer_save b seq data len = Inr b')"

definition buffer_flushes :: "Buffer \<Rightarrow> bytes \<Rightarrow> Buffer \<Rightarrow> bool" where
  "buffer_flushes b out b' \<longleftrightarrow> 0 < buf_size b \<and> (\<exists>w w'. writes w = [] \<and>
    buffer_write_ready b w = (Inr b', w') \<and> out_data w' = out_data w @ out)"

interpretation circular: reassembly buffer_inv buf_next buf_pending buffer_saves buffer_flushes
proof unfold_locales
  fix b n d b'
  assume inv: "buffer_inv b" and "buffer_saves b n d b'"
  then obtain seq data len where s: "n = unat seq" "buffer_in_window b seq" "0 \<le> len"
    "len \<le> int SREJ_MAX_DATA" "len \<le> int (length data)" "d = take (nat len) data"
    "buffer_save b seq data len = Inr b'"
    by (auto simp: buffer_saves_def)
  from buffer_save_spec [OF inv s(2-5)] s(1,6,7)
  have b': "buffer_inv b'" "b' = b\<lparr>buf_entry := buf_entry b'\<rparr>"
    and pend: "buf_pending b' = (if buf_pending b n = None then (buf_pending b)(n \<mapsto> d) else buf_pending b)"
    by auto
  from b'(2) have "buf_next b' = buf_next b" by (cases b, cases b') simp
  with b'(1) show "buffer_inv b' \<and> buf_next b' = buf_next b" by simp
  show "buf_pending b' = (if buf_pending b n = None then (buf_pending b)(n \<mapsto> d) else buf_pending b)"
    by (rule pend)
next
  fix b out b'
  assume inv: "buffer_inv b" and "buffer_flushes b out b'"
  then obtain w w' where w: "0 < buf_size b" "writes w = []" "buffer_write_ready b w = (Inr b', w')"
    "out_data w' = out_data w @ out"
    by (auto simp: buffer_flushes_def)
  have "ready_post b w b' w'" by (rule post_Inr [OF post_buffer_write_ready [OF inv w(1)] w(3)])
  then show "buffer_inv b'" "\<exists>k. buf_next b' = buf_next b + k \<and> run_from (buf_pending b) (buf_next b) k \<and>
      out = concat (map (\<lambda>i. the (buf_pending b (buf_next b + i))) [0..<k]) \<and>
      (\<forall>n. buf_pending b' n = (if buf_next b \<le> n \<and> n < buf_next b + k then None else buf_pending b n))"
    using w(2,4) by (auto simp: ready_post_def)
qed

section \<open>Properties\<close>

text \<open>C14: the buffer refines a map from sequence numbers to data. For a number in the window,
  \<open>buffer_save\<close> stays inside its arrays, keeps the invariant, changes only the slots,
  stores the data under its number and leaves every other waiting packet in place; a
  duplicate of a waiting packet changes nothing.\<close>

theorem buffer_save_refines_map:
  assumes "buffer_inv b" and "buffer_in_window b seq"
    and "0 \<le> data_len" "data_len \<le> int SREJ_MAX_DATA" "data_len \<le> int (length data)"
  shows "\<exists>b'. buffer_save b seq data data_len = Inr b' \<and> buffer_inv b' \<and>
    b' = b\<lparr>buf_entry := buf_entry b'\<rparr> \<and>
    buf_pending b' = (if buf_pending b (unat seq) = None
      then (buf_pending b)(unat seq \<mapsto> take (nat data_len) data) else buf_pending b)"
  by (rule buffer_save_spec [OF assms])

definition demo_buffer :: Buffer where
  "demo_buffer = zero_Buffer\<lparr>buf_entry := [zero_BufferEntry\<lparr>be_seq := 6, be_data_len := 2, be_used := 1,
      be_data := 4 # 5 # replicate 1398 0\<rparr>, zero_BufferEntry],
    buf_alloc := True, buf_size := 2, buf_expected := 6\<rparr>"

lemma demo_buffer_inv: "buffer_inv demo_buffer"
  by (auto simp: buffer_inv_def demo_buffer_def slot_ok_def zero_BufferEntry_def less_2_cases_iff)

lemma demo_buffer_pending: "buf_pending demo_buffer n = (if n = 6 then Some [4, 5] else None)"
proof -
  have s: "buf_size demo_buffer = 2" by (simp add: demo_buffer_def)
  have e: "buf_entry demo_buffer ! (n mod 2) = (if even n then buf_entry demo_buffer ! 0 else buf_entry demo_buffer ! 1)"
    by (cases "even n") (simp_all add: odd_iff_mod_2_eq_one even_iff_mod_2_eq_zero)
  have d: "be_used (buf_entry demo_buffer ! 0) = 1" "be_seq (buf_entry demo_buffer ! 0) = 6"
    "take (nat (be_data_len (buf_entry demo_buffer ! 0))) (be_data (buf_entry demo_buffer ! 0)) = [4, 5]"
    "be_used (buf_entry demo_buffer ! 1) = 0"
    by (simp_all add: demo_buffer_def zero_BufferEntry_def)
  show ?thesis unfolding buf_pending_def Let_def s by (simp add: e d [simplified])
qed

theorem buffer_save_refines_map_witness:
  "\<exists>b'. buffer_save demo_buffer 7 [1, 2, 3] 3 = Inr b' \<and> buffer_inv b' \<and>
    buf_pending b' 7 = Some [1, 2, 3] \<and> buf_pending b' 6 = Some [4, 5]"
proof -
  have "buffer_in_window demo_buffer 7" by (simp add: buffer_in_window_def demo_buffer_def)
  with buffer_save_refines_map [of demo_buffer 7 3 "[1, 2, 3]"] demo_buffer_inv show ?thesis
    by (auto simp: demo_buffer_pending)
qed

text \<open>C15: whatever \<open>write\<close> answers, \<open>buffer_write_ready\<close> terminates without an undefined
  operation. If it returns, it has advanced the expected number over the longest run of
  waiting packets, released exactly those, and, when all writes were full, appended their data
  to the file in order; it can end the process only when a write failed.\<close>

theorem buffer_write_ready_drains_run:
  assumes "buffer_inv b" and "0 < buf_size b"
  shows "post (buffer_write_ready b) w
    (\<lambda>b' w'. buffer_inv b' \<and> (\<exists>k. buf_next b' = buf_next b + k \<and>
      (\<forall>i < k. buf_pending b (buf_next b + i) \<noteq> None) \<and> buf_pending b (buf_next b + k) = None \<and>
      (\<forall>n. buf_pending b' n = (if buf_next b \<le> n \<and> n < buf_next b + k then None else buf_pending b n)) \<and>
      (writes w = [] \<longrightarrow> out_data w' = out_data w @
        concat (map (\<lambda>i. the (buf_pending b (buf_next b + i))) [0..<k]))))
    (\<lambda>w'. writes w \<noteq> [])"
  by (rule post_mono [OF post_buffer_write_ready [OF assms]])
    (auto simp: ready_post_def run_from_def)

theorem buffer_write_ready_drains_run_witness:
  "post (buffer_write_ready demo_buffer) (polled_world [])
    (\<lambda>b' w'. buffer_inv b' \<and> buf_next b' = 7 \<and> out_data w' = [4, 5]) (\<lambda>_. False)"
proof -
  have "0 < buf_size demo_buffer" "buf_next demo_buffer = 6" by (simp_all add: demo_buffer_def)
  note d = buffer_write_ready_drains_run [OF demo_buffer_inv this(1), of "polled_world []"] this(2)
  have k: "k = 1" if "\<forall>i. i = 0 \<or> \<not> i < k" "0 < k" for k :: nat
    using spec [OF that(1), of 1] that(2) by linarith
  from d(1) show ?thesis
    by (rule post_mono) (auto simp: d(2) demo_buffer_pending polled_world_def dest!: k split: if_splits)
qed

text \<open>\<open>buffer_has_later\<close> scans every slot and answers whether any packet beyond the
  expected one waits, which is the gap that a reject reports.\<close>

theorem buffer_has_later_gap:
  assumes "buffer_inv b"
  shows "buffer_has_later b = Inr (\<exists>n > unat (buf_expected b). buf_pending b n \<noteq> None)"
  by (rule buffer_has_later_eq [OF assms])

theorem buffer_has_later_gap_witness: "buffer_has_later demo_buffer = Inr False"
proof -
  have "unat (buf_expected demo_buffer) = 6" by (simp add: demo_buffer_def)
  with buffer_has_later_gap [OF demo_buffer_inv] show ?thesis by (simp add: demo_buffer_pending)
qed


text \<open>The reject bookkeeping asks for a missing packet once: the first question says yes, later
  ones for the same expected number say no, until the flag is cleared for that very number.\<close>

theorem reject_once_per_gap:
  assumes "buf_missing_active b = 0 \<or> buf_missing_active b = 1" and "buffer_need_reject b = (need, b')"
  shows "need = (buf_missing_active b = 0 \<or> buf_missing_seq b \<noteq> buf_expected b) \<and>
    \<not> fst (buffer_need_reject b') \<and>
    fst (buffer_need_reject (buffer_clear_reject b' s)) = (s = buf_expected b')"
  using assms by (auto simp: buffer_need_reject_def buffer_clear_reject_def split: if_splits)

theorem reject_once_per_gap_witness:
  "\<not> fst (buffer_need_reject (zero_Buffer\<lparr>buf_missing_active := 1\<rparr>))"
  using reject_once_per_gap [of zero_Buffer True "zero_Buffer\<lparr>buf_missing_active := 1\<rparr>" 0]
  by (simp add: zero_Buffer_def buffer_need_reject_def)

end
