(* ===== verification/CText.thy ===== *)
theory CText
  imports Prelude
begin

text \<open>
  The C library's conversions of decimal text that the program and its error library use:
  \<open>strtol\<close>, \<open>atol\<close>, \<open>atoi\<close> and the tokens of \<open>strtok_r\<close>. A C string is the list of
  its bytes without the NUL.
\<close>

section \<open>Integers\<close>

text \<open>
  White space, a sign, the longest run of digits, the value cut to the range of \<open>long\<close>;
  \<open>atoi\<close> converts that to \<open>int\<close>.
\<close>

definition is_space :: "u8 \<Rightarrow> bool" where
  "is_space b \<longleftrightarrow> b = 32 \<or> (9 \<le> b \<and> b \<le> 13)"

definition is_digit :: "u8 \<Rightarrow> bool" where
  "is_digit b \<longleftrightarrow> 48 \<le> b \<and> b \<le> 57"

definition digits_value :: "bytes \<Rightarrow> int" where
  "digits_value ds = foldl (\<lambda>n d. 10 * n + (uint d - 48)) 0 ds"

definition strtol10 :: "bytes \<Rightarrow> int" where
  "strtol10 s =
    (case dropWhile is_space s of
       [] \<Rightarrow> 0
     | b # bs \<Rightarrow>
         if b = 45 then max (- (2 ^ 63)) (- digits_value (takeWhile is_digit bs))
         else if b = 43 then min (2 ^ 63 - 1) (digits_value (takeWhile is_digit bs))
         else min (2 ^ 63 - 1) (digits_value (takeWhile is_digit (b # bs))))"

definition atoi :: "bytes \<Rightarrow> int" where
  "atoi s = sint (word_of_int (strtol10 s) :: u32)"

text \<open>Whether \<open>strtol\<close> converts anything, that is, moves its end pointer: a digit comes after
  the white space and the sign.\<close>

definition strtol_converts :: "bytes \<Rightarrow> bool" where
  "strtol_converts s =
    (case dropWhile is_space s of
       [] \<Rightarrow> False
     | b # bs \<Rightarrow> if b = 45 \<or> b = 43 then bs \<noteq> [] \<and> is_digit (hd bs) else is_digit b)"

section \<open>Tokens\<close>

lemma tokens_shorter:
  assumes "dropWhile (\<lambda>b. b = sep) s \<noteq> []"
  shows "length (dropWhile (\<lambda>b. b \<noteq> sep) (dropWhile (\<lambda>b. b = sep) s)) < length s"
proof -
  obtain b bs where t: "dropWhile (\<lambda>b. b = sep) s = b # bs" using assms by (meson neq_Nil_conv)
  then have "b \<noteq> sep" using hd_dropWhile [of "\<lambda>b. b = sep" s] by simp
  then have "length (dropWhile (\<lambda>b. b \<noteq> sep) (b # bs)) \<le> length bs" by (simp add: length_dropWhile_le)
  moreover have "length (b # bs) \<le> length s" using length_dropWhile_le [of "\<lambda>b. b = sep" s] t by simp
  ultimately show ?thesis using t by simp
qed

text \<open>The tokens \<open>strtok_r\<close> gives one after the other for the delimiter \<open>sep\<close>: the longest
  pieces without it, none of them empty.\<close>

function tokens :: "u8 \<Rightarrow> bytes \<Rightarrow> bytes list" where
  "tokens sep s =
    (let t = dropWhile (\<lambda>b. b = sep) s in
     if t = [] then []
     else takeWhile (\<lambda>b. b \<noteq> sep) t # tokens sep (dropWhile (\<lambda>b. b \<noteq> sep) t))"
  by pat_completeness auto

termination
  by (relation "measure (\<lambda>(sep, s). length s)") (simp_all add: tokens_shorter)

declare tokens.simps [simp del]

text \<open>No token is empty or holds the delimiter.\<close>

lemma tokens_sep: "t \<in> set (tokens sep s) \<Longrightarrow> t \<noteq> [] \<and> sep \<notin> set t"
proof (induction sep s rule: tokens.induct)
  case (1 sep s)
  show ?case
  proof (cases "dropWhile (\<lambda>b. b = sep) s")
    case Nil
    with 1(2) show ?thesis by (simp add: tokens.simps [of sep s])
  next
    case (Cons b bs)
    then have "b \<noteq> sep" using hd_dropWhile [of "\<lambda>b. b = sep" s] by simp
    with 1 Cons show ?thesis
      by (auto simp: tokens.simps [of sep s] dest: set_takeWhileD)
  qed
qed

end
