(* ===== verification/Server.thy ===== *)
theory Server
  imports Complex_Main Networks Buffer CText
begin

text \<open>
  The server (\<open>udpCode_spring26_v3/server.h\<close>, \<open>server.c\<close>): the parent that hands every
  filename packet to a child, and the child's state machine START, FILENAME, RECV_DATA,
  WAIT_ON_DONE, DONE. A state function takes and returns the child's \<open>ServerInfo\<close>.

  A received packet is the list of the bytes received: what lies behind them in the code's
  1407-byte array is never the received data, so reading there is an undefined operation here.
\<close>

section \<open>Data\<close>

datatype STATE = START | FILENAME | RECV_DATA | WAIT_ON_DONE | DONE

text \<open>The enumeration's order, which is the order of the phases.\<close>

instantiation STATE :: linorder
begin

fun phase :: "STATE \<Rightarrow> nat" where
  "phase START = 0"
| "phase FILENAME = 1"
| "phase RECV_DATA = 2"
| "phase WAIT_ON_DONE = 3"
| "phase DONE = 4"

definition less_eq_STATE :: "STATE \<Rightarrow> STATE \<Rightarrow> bool" where
  "less_eq_STATE a b \<longleftrightarrow> phase a \<le> phase b"

definition less_STATE :: "STATE \<Rightarrow> STATE \<Rightarrow> bool" where
  "less_STATE a b \<longleftrightarrow> phase a < phase b"

instance
proof
  have inj: "phase a = phase b \<Longrightarrow> a = b" for a b by (cases a; cases b) simp_all
  fix x y z :: STATE
  show "x < y \<longleftrightarrow> x \<le> y \<and> \<not> y \<le> x" "x \<le> x" "x \<le> y \<or> y \<le> x"
    by (auto simp: less_eq_STATE_def less_STATE_def)
  show "x \<le> y \<Longrightarrow> y \<le> z \<Longrightarrow> x \<le> z" by (simp add: less_eq_STATE_def)
  show "x \<le> y \<Longrightarrow> y \<le> x \<Longrightarrow> x = y" by (simp add: less_eq_STATE_def inj)
qed

end

record ServerInfo =
  si_socket_num :: int
  si_output_file :: int
  si_window_size :: int
  si_buffer_size :: int
  si_retry_count :: int
  si_control_seq :: u32
  si_first_packet :: bytes
  si_first_packet_len :: int
  si_last_ack :: bytes
  si_last_ack_len :: int
  si_client :: addr
  si_buffer :: Buffer

abbreviation (input) MAX_TRIES :: int where "MAX_TRIES \<equiv> 10"
abbreviation (input) FIRST_DATA_SEQ :: u32 where "FIRST_DATA_SEQ \<equiv> 2"
abbreviation (input) POLL_ONE_SEC :: int where "POLL_ONE_SEC \<equiv> 1000"
abbreviation (input) POLL_TEN_SEC :: int where "POLL_TEN_SEC \<equiv> 10000"

text \<open>\<open>memset(&info, 0, sizeof(ServerInfo))\<close>; address 0 with port 0 is the cleared address.\<close>

definition zero_ServerInfo :: ServerInfo where
  "zero_ServerInfo = \<lparr>si_socket_num = 0, si_output_file = 0, si_window_size = 0, si_buffer_size = 0,
    si_retry_count = 0, si_control_seq = 0, si_first_packet = replicate SREJ_MAX_PACKET 0,
    si_first_packet_len = 0, si_last_ack = replicate SREJ_MAX_PACKET 0, si_last_ack_len = 0,
    si_client = (0, 0), si_buffer = zero_Buffer\<rparr>"

section \<open>Sending\<close>

definition send_filename_response :: "ServerInfo \<Rightarrow> u8 \<Rightarrow> ServerInfo sys" where
  "send_filename_response info value =
    iobind (lift_res (make_packet (uninit SREJ_MAX_PACKET) (si_control_seq info) FLAG_FILENAME_RESP [value] 1))
      (\<lambda>(packet, packet_len).
        iobind (safeSendto packet packet_len (si_client info)) (\<lambda>_.
          ret (info\<lparr>si_control_seq := si_control_seq info + 1\<rparr>)))"

definition send_rr :: "ServerInfo \<Rightarrow> ServerInfo sys" where
  "send_rr info =
    iobind (lift_res (write_u32 (uninit 4) 0 (buffer_expected (si_buffer info)))) (\<lambda>payload.
    iobind (lift_res (make_packet (uninit SREJ_MAX_PACKET) (si_control_seq info) FLAG_RR payload 4))
      (\<lambda>(packet, packet_len).
        iobind (safeSendto packet packet_len (si_client info)) (\<lambda>_.
          ret (info\<lparr>si_control_seq := si_control_seq info + 1\<rparr>))))"

definition send_reject :: "ServerInfo \<Rightarrow> u32 \<Rightarrow> ServerInfo sys" where
  "send_reject info seq =
    iobind (lift_res (write_u32 (uninit 4) 0 seq)) (\<lambda>payload.
    iobind (lift_res (make_packet (uninit SREJ_MAX_PACKET) (si_control_seq info) FLAG_SREJ payload 4))
      (\<lambda>(packet, packet_len).
        iobind (safeSendto packet packet_len (si_client info)) (\<lambda>_.
          ret (info\<lparr>si_control_seq := si_control_seq info + 1\<rparr>))))"

definition resend_last_ack :: "ServerInfo \<Rightarrow> unit sys" where
  "resend_last_ack info = safeSendto (si_last_ack info) (si_last_ack_len info) (si_client info)"

definition send_eof_ack :: "ServerInfo \<Rightarrow> ServerInfo sys" where
  "send_eof_ack info =
    iobind (lift_res (make_packet (si_last_ack info) (si_control_seq info) FLAG_EOF_ACK [] 0))
      (\<lambda>(packet, packet_len).
        let info = info\<lparr>si_last_ack := packet, si_last_ack_len := packet_len,
          si_control_seq := si_control_seq info + 1\<rparr> in
        iobind (resend_last_ack info) (\<lambda>_. ret info))"

section \<open>Handling packets\<close>

definition handle_data_packet :: "ServerInfo \<Rightarrow> bytes \<Rightarrow> int \<Rightarrow> ServerInfo sys" where
  "handle_data_packet info packet packet_len =
    iobind (lift_res (get_seq packet)) (\<lambda>seq.
      let data_len = packet_len - int SREJ_HEADER_LEN; data = drop SREJ_HEADER_LEN packet in
      if seq < buffer_expected (si_buffer info) then send_rr info
      else if \<not> buffer_in_window (si_buffer info) seq then send_rr info
      else iobind (lift_res (buffer_save (si_buffer info) seq data data_len)) (\<lambda>b.
        if seq = buffer_expected b then
          iobind (buffer_write_ready (buffer_clear_reject b seq)) (\<lambda>b.
          iobind (send_rr (info\<lparr>si_buffer := b\<rparr>)) (\<lambda>info.
          iobind (lift_res (buffer_has_later (si_buffer info))) (\<lambda>later.
            if later then
              (let (need, b) = buffer_need_reject (si_buffer info); info = info\<lparr>si_buffer := b\<rparr> in
               if need then send_reject info (buffer_expected b) else ret info)
            else ret info)))
        else
          (let (need, b) = buffer_need_reject b; info = info\<lparr>si_buffer := b\<rparr> in
           if need then send_reject info (buffer_expected b) else ret info)))"

definition handle_eof_packet :: "ServerInfo \<Rightarrow> ServerInfo sys" where
  "handle_eof_packet info =
    iobind (send_eof_ack info) (\<lambda>info. ret (info\<lparr>si_retry_count := 0\<rparr>))"

section \<open>The states of a child\<close>

definition start_state :: "(nat \<Rightarrow> pollfd) \<Rightarrow> ServerInfo \<Rightarrow> (STATE \<times> ServerInfo) sys" where
  "start_state junk info =
    iobind createUdpSocket (\<lambda>s.
    iobind setupPollSet (\<lambda>_.
    iobind (addToPollSet junk s) (\<lambda>_.
    ret (FILENAME, info\<lparr>si_socket_num := s\<rparr>))))"

definition filename_state :: "ServerInfo \<Rightarrow> (STATE \<times> ServerInfo) sys" where
  "filename_state info =
    iobind (lift_res (read_u32 (si_first_packet info) SREJ_HEADER_LEN)) (\<lambda>window_size.
    iobind (lift_res (read_u32 (si_first_packet info) (SREJ_HEADER_LEN + 4))) (\<lambda>buffer_size.
    iobind (lift_res (c_string (si_first_packet info) (SREJ_HEADER_LEN + 8))) (\<lambda>file_name.
    iobind (sys_open_trunc file_name) (\<lambda>fd.
      let info = info\<lparr>si_window_size := sint window_size, si_buffer_size := sint buffer_size,
        si_output_file := fd\<rparr> in
      if fd < 0 then
        iobind (send_filename_response info 1) (\<lambda>info. ret (DONE, info))
      else
        iobind (send_filename_response info 0) (\<lambda>info.
        iobind (buffer_init (si_buffer info) (si_window_size info) FIRST_DATA_SEQ (si_output_file info)) (\<lambda>b.
        ret (RECV_DATA, info\<lparr>si_buffer := b\<rparr>)))))))"

definition recv_data_state :: "ServerInfo \<Rightarrow> (STATE \<times> ServerInfo) sys" where
  "recv_data_state info =
    iobind (pollCall POLL_TEN_SEC) (\<lambda>ready.
      if ready < 0 then ret (DONE, info)
      else iobind (safeRecvfrom (int SREJ_MAX_PACKET)) (\<lambda>(client, packet).
        let info = info\<lparr>si_client := client\<rparr>; packet_len = int (length packet) in
        iobind (lift_res (check_packet packet packet_len)) (\<lambda>ok.
          if \<not> ok then ret (RECV_DATA, info)
          else iobind (lift_res (get_flag packet)) (\<lambda>flag.
            if flag = FLAG_DATA then
              iobind (handle_data_packet info packet packet_len) (\<lambda>info. ret (RECV_DATA, info))
            else if flag = FLAG_EOF then
              iobind (handle_eof_packet info) (\<lambda>info. ret (WAIT_ON_DONE, info))
            else ret (RECV_DATA, info)))))"

definition wait_on_done_state :: "ServerInfo \<Rightarrow> (STATE \<times> ServerInfo) sys" where
  "wait_on_done_state info =
    iobind (pollCall POLL_ONE_SEC) (\<lambda>ready.
      if ready < 0 then
        (let info = info\<lparr>si_retry_count := si_retry_count info + 1\<rparr> in
         if si_retry_count info \<ge> MAX_TRIES then ret (DONE, info)
         else iobind (resend_last_ack info) (\<lambda>_. ret (WAIT_ON_DONE, info)))
      else iobind (safeRecvfrom (int SREJ_MAX_PACKET)) (\<lambda>(client, packet).
        let info = info\<lparr>si_client := client\<rparr>; packet_len = int (length packet) in
        iobind (lift_res (check_packet packet packet_len)) (\<lambda>ok.
          if \<not> ok then ret (WAIT_ON_DONE, info)
          else iobind (lift_res (get_flag packet)) (\<lambda>flag.
            if flag = FLAG_DONE then ret (DONE, info)
            else iobind (if flag = FLAG_EOF then resend_last_ack info else ret ()) (\<lambda>_.
              ret (WAIT_ON_DONE, info))))))"

definition server_step :: "(nat \<Rightarrow> pollfd) \<Rightarrow> STATE \<Rightarrow> ServerInfo \<Rightarrow> (STATE \<times> ServerInfo) sys" where
  "server_step junk state info =
    (case state of
       START \<Rightarrow> start_state junk info
     | FILENAME \<Rightarrow> filename_state info
     | RECV_DATA \<Rightarrow> recv_data_state info
     | WAIT_ON_DONE \<Rightarrow> wait_on_done_state info
     | DONE \<Rightarrow> ret (DONE, info))"

text \<open>The loop \<open>while (state != DONE)\<close>, for at most \<open>n\<close> turns: \<open>None\<close> is a run cut short.\<close>

fun server_loop :: "(nat \<Rightarrow> pollfd) \<Rightarrow> nat \<Rightarrow> STATE \<Rightarrow> ServerInfo \<Rightarrow> ServerInfo option sys" where
  "server_loop junk n state info =
    (if state = DONE then ret (Some info)
     else case n of
       0 \<Rightarrow> ret None
     | Suc m \<Rightarrow> iobind (server_step junk state info) (\<lambda>(state, info). server_loop junk m state info))"

declare server_loop.simps [simp del]

definition close_if_open :: "int \<Rightarrow> unit sys" where
  "close_if_open fd = (if fd > 0 then sys_close fd else ret ())"

definition process_client :: "(nat \<Rightarrow> pollfd) \<Rightarrow> nat \<Rightarrow> int \<Rightarrow> bytes \<Rightarrow> int \<Rightarrow> addr \<Rightarrow> ServerInfo option sys" where
  "process_client junk n main_socket packet packet_len client =
    iobind (lift_res (mem_read packet 0 packet_len)) (\<lambda>bs.
    iobind (lift_res (mem_write (si_first_packet zero_ServerInfo) 0 bs)) (\<lambda>first_packet.
      let info = zero_ServerInfo\<lparr>si_first_packet := first_packet, si_client := client,
        si_first_packet_len := packet_len, si_control_seq := 1\<rparr> in
      iobind (sys_close main_socket) (\<lambda>_.
      iobind (server_loop junk n START info) (\<lambda>r.
        case r of
          None \<Rightarrow> ret None
        | Some info \<Rightarrow>
            iobind (close_if_open (si_output_file info)) (\<lambda>_.
            iobind (close_if_open (si_socket_num info)) (\<lambda>_.
            iobind (buffer_free (si_buffer info)) (\<lambda>b.
            ret (Some (info\<lparr>si_buffer := b\<rparr>)))))))))"

section \<open>The parent\<close>

definition sys_fork :: "int sys" where
  "sys_fork w = (case forks w of False # fs \<Rightarrow> (Inr (- 1), w\<lparr>forks := fs\<rparr>) | fs \<Rightarrow> (Inr 1, w\<lparr>forks := tl fs\<rparr>))"

text \<open>
  One turn of \<open>while (1)\<close> in \<open>process_server\<close>. A child is recorded with what it is given:
  the packet and the client's address.
\<close>

definition accept_client :: "unit sys" where
  "accept_client =
    iobind (safeRecvfrom (int SREJ_MAX_PACKET)) (\<lambda>(client, packet).
    iobind (lift_res (check_packet packet (int (length packet)))) (\<lambda>ok.
      if \<not> ok then ret ()
      else iobind (lift_res (get_flag packet)) (\<lambda>flag.
        if flag = FLAG_FILENAME then
          iobind sys_fork (\<lambda>pid w.
            if pid < 0 then (Inl (Exit (- 1)), w)
            else (Inr (), w\<lparr>children := children w @ [(client, packet)]\<rparr>))
        else ret ())))"

text \<open>The parent never returns: it serves until it blocks in \<open>recvfrom\<close> or a call fails.\<close>

fun process_server :: "nat \<Rightarrow> unit sys" where
  "process_server 0 = ret ()"
| "process_server (Suc n) = iobind accept_client (\<lambda>_. process_server n)"

text \<open>\<open>waitpid (-1, NULL, WNOHANG)\<close>: positive as long as a finished child is left.\<close>

definition sys_waitpid :: "int sys" where
  "sys_waitpid w = (if zombies w = 0 then (Inr 0, w) else (Inr 1, w\<lparr>zombies := zombies w - 1\<rparr>))"

function handle_zombies :: "unit sys" where
  "handle_zombies w =
    (case sys_waitpid w of
       (Inl h, w') \<Rightarrow> (Inl h, w')
     | (Inr pid, w') \<Rightarrow> if pid > 0 then handle_zombies w' else (Inr (), w'))"
  by pat_completeness auto
termination
  by (relation "measure zombies") (auto simp: sys_waitpid_def split: if_splits)

declare handle_zombies.simps [simp del]


section \<open>The command line\<close>

text \<open>\<open>error_rate\<close> is the value of \<open>atof (argv[1])\<close>; \<open>argc\<close> is the length of \<open>argv\<close>.\<close>

definition process_args :: "bytes list \<Rightarrow> rat \<Rightarrow> int res" where
  "process_args argv error_rate =
    (if length argv < 2 \<or> length argv > 3 then Inl (Exit (- 1))
     else if error_rate < 0 \<or> error_rate > 1 then Inl (Exit (- 1))
     else if length argv = 3 then rbind (arr_get argv 2) (\<lambda>a2. Inr (atoi a2))
     else Inr 0)"

text \<open>\<open>main\<close>, the parent serving for \<open>n\<close> turns.\<close>

definition server_main :: "nat \<Rightarrow> bytes list \<Rightarrow> rat \<Rightarrow> int sys" where
  "server_main n argv error_rate =
    iobind (lift_res (process_args argv error_rate)) (\<lambda>port_number.
    iobind udpServerSetup (\<lambda>socket_num.
    iobind (process_server n) (\<lambda>_.
    iobind (sys_close socket_num) (\<lambda>_. ret 0))))"

end
