(* ===== verification/Stream.thy ===== *)
theory Stream
  imports Packet
begin

text \<open>
  What the two ends agree on: the file is a sequence of chunks of at most 1400 bytes, and chunk
  \<open>k\<close> travels in a data packet with sequence number \<open>2 + k\<close>.
\<close>

text \<open>The client's stream: chunk \<open>k\<close> travels under number \<open>2 + k\<close>.\<close>

definition chunks_ok :: "bytes list \<Rightarrow> bool" where
  "chunks_ok cs \<longleftrightarrow> 2 + length cs < 4294967296 \<and> (\<forall>c \<in> set cs. length c \<le> SREJ_MAX_DATA)"

definition data_packet :: "bytes list \<Rightarrow> nat \<Rightarrow> bytes" where
  "data_packet cs k = packet_bytes (word_of_nat (2 + k)) FLAG_DATA (cs ! k)"

definition genuine :: "bytes list \<Rightarrow> bytes \<Rightarrow> bool" where
  "genuine cs m \<longleftrightarrow> chunks_ok cs \<and> (\<exists>k < length cs. m = data_packet cs k)"

lemma unat_word_of_nat_u32: "n < 4294967296 \<Longrightarrow> unat (word_of_nat n :: u32) = n"
  by (simp add: unat_of_nat)

lemma genuine_fields:
  assumes "genuine cs m" and "get_seq m = Inr seq"
  shows "2 \<le> unat seq" "unat seq < 2 + length cs" "drop 7 m = cs ! (unat seq - 2)"
proof -
  obtain k where k: "k < length cs" "m = data_packet cs k" "2 + length cs < 4294967296"
    "length (cs ! k) \<le> SREJ_MAX_DATA"
    using assms(1) by (auto simp: genuine_def chunks_ok_def)
  have u: "unat (word_of_nat (2 + k) :: u32) = 2 + k"
    by (rule unat_word_of_nat_u32) (use k(1,3) in linarith)
  have "seq = word_of_nat (2 + k)" using assms(2) k(2,4) by (simp add: data_packet_def)
  with u have "unat seq = 2 + k" by simp
  with k show "2 \<le> unat seq" "unat seq < 2 + length cs" "drop 7 m = cs ! (unat seq - 2)"
    by (simp_all add: data_packet_def)
qed

text \<open>Appending a chunk does not change the packets of the earlier ones.\<close>

lemma data_packet_append: "k < length cs \<Longrightarrow> data_packet (cs @ ds) k = data_packet cs k"
  by (simp add: data_packet_def nth_append)

lemma length_data_packet:
  "chunks_ok cs \<Longrightarrow> k < length cs \<Longrightarrow> 7 \<le> length (data_packet cs k) \<and> length (data_packet cs k) \<le> SREJ_MAX_PACKET"
proof -
  assume "chunks_ok cs" "k < length cs"
  then have "length (cs ! k) \<le> SREJ_MAX_DATA" by (simp add: chunks_ok_def)
  then show ?thesis by (simp add: data_packet_def)
qed

end
