(* ===== verification/Server_Correct.thy ===== *)
theory Server_Correct
  imports Server Stream
begin

text \<open>
  Correctness of the server. The invariant of a child is stated for any network: no undefined
  operation, every packet it sends is well-formed and acknowledges no more than it has written.
  Under a switch \<open>A\<close> (authentic data packets, full writes) it also says that the file and the
  buffer are in step with the client's stream of chunks.
\<close>

section \<open>What the server has sent and written\<close>

text \<open>A packet the server sends while the next expected number is \<open>n\<close>.\<close>

definition srv_fields :: "nat \<Rightarrow> u8 \<Rightarrow> bytes \<Rightarrow> bool" where
  "srv_fields n f d \<longleftrightarrow> length d \<le> 4 \<and>
    (f = FLAG_FILENAME_RESP \<or> f = FLAG_SREJ \<or> f = FLAG_EOF_ACK \<or>
     f = FLAG_RR \<and> (\<exists>v. d = be_bytes32 v \<and> unat v \<le> n))"

definition srv_msg :: "nat \<Rightarrow> bytes \<Rightarrow> bool" where
  "srv_msg n m \<longleftrightarrow> (\<exists>s f d. m = packet_bytes s f d \<and> srv_fields n f d)"

lemma srv_fields_mono: "srv_fields n f d \<Longrightarrow> n \<le> k \<Longrightarrow> srv_fields k f d"
  by (auto simp: srv_fields_def)

lemma srv_msg_mono: "srv_msg n m \<Longrightarrow> n \<le> k \<Longrightarrow> srv_msg k m"
  unfolding srv_msg_def using srv_fields_mono by blast

lemma srv_msgI: "srv_fields n f d \<Longrightarrow> srv_msg n (packet_bytes s f d)"
  unfolding srv_msg_def by blast

definition srv_log :: "bool \<Rightarrow> bytes list \<Rightarrow> nat \<Rightarrow> (nat \<Rightarrow> bytes option) \<Rightarrow> world \<Rightarrow> bool" where
  "srv_log A cs n pend w \<longleftrightarrow> (\<forall>x \<in> set (sent w). srv_msg n (snd x)) \<and>
    (A \<longrightarrow> writes w = [] \<and> stream_ok cs 2 n pend (out_data w))"

definition srv_end :: "bool \<Rightarrow> bytes list \<Rightarrow> world \<Rightarrow> bool" where
  "srv_end A cs w \<longleftrightarrow> (\<exists>n pend. srv_log A cs n pend w)"

lemma srv_log_send:
  "srv_log A cs n pend w \<Longrightarrow> srv_msg n m \<Longrightarrow>
    srv_log A cs n pend (w\<lparr>sends := s, sent := sent w @ [(c, m)]\<rparr>)"
  by (auto simp: srv_log_def)

lemma srv_log_cong:
  "srv_log A cs n pend w \<Longrightarrow> sent v = sent w \<Longrightarrow> out_data v = out_data w \<Longrightarrow> writes v = writes w \<Longrightarrow>
    srv_log A cs n pend v"
  by (simp add: srv_log_def)

lemma srv_end_cong:
  "srv_end A cs w \<Longrightarrow> sent v = sent w \<Longrightarrow> out_data v = out_data w \<Longrightarrow> writes v = writes w \<Longrightarrow>
    srv_end A cs v"
  unfolding srv_end_def using srv_log_cong by blast

lemma srv_endI: "srv_log A cs n pend w \<Longrightarrow> srv_end A cs w"
  unfolding srv_end_def by blast

section \<open>The senders\<close>

text \<open>The state a sender leaves: one more packet to the current client.\<close>

definition after_send :: "addr \<Rightarrow> bytes \<Rightarrow> world \<Rightarrow> world" where
  "after_send c m w = w\<lparr>sends := tl (sends w), sent := sent w @ [(c, m)]\<rparr>"

lemma after_send_sel [simp]:
  "net (after_send c m w) = net w" "out_data (after_send c m w) = out_data w"
  "writes (after_send c m w) = writes w" "live (after_send c m w) = live w"
  "sent (after_send c m w) = sent w @ [(c, m)]" "socket_polled (after_send c m w) = socket_polled w"
  by (simp_all add: after_send_def)

lemma srv_log_after_send:
  "srv_log A cs n pend w \<Longrightarrow> srv_msg n m \<Longrightarrow> srv_log A cs n pend (after_send c m w)"
  by (simp add: after_send_def srv_log_send)

abbreviation next_control :: "ServerInfo \<Rightarrow> ServerInfo" where
  "next_control info \<equiv> info\<lparr>si_control_seq := si_control_seq info + 1\<rparr>"

lemma post_send_filename_response:
  assumes "P (next_control info)
      (after_send (si_client info) (packet_bytes (si_control_seq info) FLAG_FILENAME_RESP [v]) w)"
    and "E (w\<lparr>sends := tl (sends w)\<rparr>)"
  shows "post (send_filename_response info v) w P E"
  unfolding send_filename_response_def
  by (rule post_make_send) (use assms in \<open>simp_all add: after_send_def\<close>)

lemma post_send_rr:
  assumes "P (next_control info) (after_send (si_client info)
      (packet_bytes (si_control_seq info) FLAG_RR (be_bytes32 (buf_expected (si_buffer info)))) w)"
    and "sends w \<noteq> [] \<Longrightarrow> E (w\<lparr>sends := tl (sends w)\<rparr>)"
  shows "post (send_rr info) w P E"
proof -
  have "write_u32 (uninit 4) 0 v = Inr (be_bytes32 v)" for v by simp
  then show ?thesis
    unfolding send_rr_def iobind_eqs buffer_expected_def
    by (simp only: iobind_eqs) (rule post_make_send, use assms in \<open>simp_all add: after_send_def\<close>)
qed

lemma post_send_reject:
  assumes "P (next_control info) (after_send (si_client info)
      (packet_bytes (si_control_seq info) FLAG_SREJ (be_bytes32 seq)) w)"
    and "sends w \<noteq> [] \<Longrightarrow> E (w\<lparr>sends := tl (sends w)\<rparr>)"
  shows "post (send_reject info seq) w P E"
proof -
  have "write_u32 (uninit 4) 0 v = Inr (be_bytes32 v)" for v by simp
  then show ?thesis
    unfolding send_reject_def
    by (simp only: iobind_eqs) (rule post_make_send, use assms in \<open>simp_all add: after_send_def\<close>)
qed

lemma post_resend_last_ack:
  assumes "0 < si_last_ack_len info" and "si_last_ack_len info \<le> int (length (si_last_ack info))"
    and "P () (after_send (si_client info) (take (nat (si_last_ack_len info)) (si_last_ack info)) w)"
    and "E (w\<lparr>sends := tl (sends w)\<rparr>)"
  shows "post (resend_last_ack info) w P E"
  unfolding resend_last_ack_def
  by (rule post_safeSendto) (use assms in \<open>simp_all add: after_send_def\<close>)

lemma post_handle_eof_packet:
  assumes "length (si_last_ack info) = SREJ_MAX_PACKET"
    and "\<And>info'. info' = info\<lparr>si_last_ack := si_last_ack info', si_last_ack_len := 7,
        si_control_seq := si_control_seq info + 1, si_retry_count := 0\<rparr> \<Longrightarrow>
      length (si_last_ack info') = SREJ_MAX_PACKET \<Longrightarrow>
      take 7 (si_last_ack info') = packet_bytes (si_control_seq info) FLAG_EOF_ACK [] \<Longrightarrow>
      P info' (after_send (si_client info) (packet_bytes (si_control_seq info) FLAG_EOF_ACK []) w)"
    and "E (w\<lparr>sends := tl (sends w)\<rparr>)"
  shows "post (handle_eof_packet info) w P E"
proof -
  let ?m = "packet_bytes (si_control_seq info) FLAG_EOF_ACK []"
  let ?a = "?m @ drop 7 (si_last_ack info)"
  have m: "make_packet (si_last_ack info) (si_control_seq info) FLAG_EOF_ACK [] 0 = Inr (?a, 7)"
    using make_packet_sent [of "[]" 0 "si_last_ack info"] assms(1) by simp
  have "nat 7 = 7" by simp
  then show ?thesis
    unfolding handle_eof_packet_def send_eof_ack_def m iobind_eqs
    by (auto simp: Let_def assms(1) intro!: post_resend_last_ack assms(2,3))
qed

section \<open>The buffer and the stream\<close>

text \<open>
  The state of a child that has its buffer. \<open>frame\<close> says what handling a packet leaves alone.
\<close>

definition frame :: "ServerInfo \<Rightarrow> world \<Rightarrow> ServerInfo \<Rightarrow> world \<Rightarrow> bool" where
  "frame info w info' w' \<longleftrightarrow>
    info' = info\<lparr>si_buffer := si_buffer info', si_control_seq := si_control_seq info'\<rparr> \<and>
    buf_alloc (si_buffer info') = buf_alloc (si_buffer info) \<and>
    net w' = net w \<and> live w' = live w \<and> socket_polled w' = socket_polled w"

definition srv_ok :: "bool \<Rightarrow> bytes list \<Rightarrow> ServerInfo \<Rightarrow> world \<Rightarrow> bool" where
  "srv_ok A cs info w \<longleftrightarrow> buffer_inv (si_buffer info) \<and>
    srv_log A cs (buf_next (si_buffer info)) (buf_pending (si_buffer info)) w"

lemma buf_pending_cong:
  "buf_entry b' = buf_entry b \<Longrightarrow> buf_size b' = buf_size b \<Longrightarrow> buf_pending b' = buf_pending b"
  by (simp add: fun_eq_iff buf_pending_def)

lemma buffer_inv_cong:
  "buf_entry b' = buf_entry b \<Longrightarrow> buf_size b' = buf_size b \<Longrightarrow> buf_expected b' = buf_expected b \<Longrightarrow>
    buffer_inv b' = buffer_inv b"
  by (simp add: buffer_inv_def slot_ok_def)

lemma srv_ok_cong:
  assumes "srv_ok A cs info w"
    and "buf_entry (si_buffer info') = buf_entry (si_buffer info)"
      "buf_size (si_buffer info') = buf_size (si_buffer info)"
      "buf_expected (si_buffer info') = buf_expected (si_buffer info)"
    and "sent w' = sent w" "out_data w' = out_data w" "writes w' = writes w"
  shows "srv_ok A cs info' w'"
proof -
  have "buf_pending (si_buffer info') = buf_pending (si_buffer info)"
    "buffer_inv (si_buffer info') = buffer_inv (si_buffer info)"
    by (rule buf_pending_cong buffer_inv_cong; rule assms)+
  with assms show ?thesis by (simp add: srv_ok_def srv_log_def)
qed

lemma srv_ok_after_send:
  "srv_ok A cs info w \<Longrightarrow> srv_msg (buf_next (si_buffer info)) m \<Longrightarrow> srv_ok A cs info (after_send c m w)"
  by (simp add: srv_ok_def srv_log_after_send)

lemma srv_ok_end: "srv_ok A cs info w \<Longrightarrow> srv_end A cs w"
  unfolding srv_ok_def using srv_endI by blast

lemma srv_end_sends: "srv_end A cs w \<Longrightarrow> srv_end A cs (w\<lparr>sends := s\<rparr>)"
  by (rule srv_end_cong) simp_all

text \<open>The flags of the code's reject bookkeeping do not matter for the invariant.\<close>

lemma buffer_need_reject_frame:
  assumes "buffer_need_reject b = (need, b')"
  shows "buf_entry b' = buf_entry b" "buf_size b' = buf_size b" "buf_expected b' = buf_expected b"
    "buf_alloc b' = buf_alloc b"
  using assms by (auto simp: buffer_need_reject_def split: if_splits)

lemma buffer_clear_reject_frame:
  "buf_entry (buffer_clear_reject b s) = buf_entry b" "buf_size (buffer_clear_reject b s) = buf_size b"
  "buf_expected (buffer_clear_reject b s) = buf_expected b" "buf_alloc (buffer_clear_reject b s) = buf_alloc b"
  by (simp_all add: buffer_clear_reject_def)

lemma post_need_reject:
  assumes ok: "srv_ok A cs info w"
  shows "post (let (need, b) = buffer_need_reject (si_buffer info); info = info\<lparr>si_buffer := b\<rparr> in
      if need then send_reject info (buffer_expected b) else ret info) w
    (\<lambda>info' w'. srv_ok A cs info' w' \<and> frame info w info' w') (srv_end A cs)"
proof -
  obtain need b where b: "buffer_need_reject (si_buffer info) = (need, b)" by fastforce
  let ?info = "info\<lparr>si_buffer := b\<rparr>"
  note f = buffer_need_reject_frame [OF b]
  have ok': "srv_ok A cs ?info w" by (rule srv_ok_cong [OF ok]) (simp_all add: f)
  have "srv_ok A cs (next_control ?info) (after_send (si_client info) (packet_bytes s FLAG_SREJ (be_bytes32 v)) w)" for s v
    by (rule srv_ok_cong [OF srv_ok_after_send [OF ok']]) (auto intro!: srv_msgI simp: srv_fields_def)
  then show ?thesis
    using ok' by (auto simp: b f frame_def Let_def srv_end_sends srv_ok_end [OF ok] intro!: post_send_reject)
qed

lemma post_rr:
  assumes ok: "srv_ok A cs info w"
  shows "post (send_rr info) w (\<lambda>info' w'. srv_ok A cs info' w' \<and> frame info w info' w' \<and>
    si_buffer info' = si_buffer info) (srv_end A cs)"
proof (rule post_send_rr)
  have "srv_msg (buf_next (si_buffer info))
      (packet_bytes (si_control_seq info) FLAG_RR (be_bytes32 (buf_expected (si_buffer info))))"
    by (rule srv_msgI) (auto simp: srv_fields_def)
  from srv_ok_after_send [OF ok this] have "srv_ok A cs (next_control info) (after_send (si_client info)
      (packet_bytes (si_control_seq info) FLAG_RR (be_bytes32 (buf_expected (si_buffer info)))) w)"
    by (rule srv_ok_cong) simp_all
  then show "srv_ok A cs (next_control info) (after_send (si_client info)
      (packet_bytes (si_control_seq info) FLAG_RR (be_bytes32 (buf_expected (si_buffer info)))) w) \<and>
    frame info w (next_control info) (after_send (si_client info)
      (packet_bytes (si_control_seq info) FLAG_RR (be_bytes32 (buf_expected (si_buffer info)))) w) \<and>
    si_buffer (next_control info) = si_buffer info"
    by (simp add: frame_def)
qed (rule srv_end_sends [OF srv_ok_end [OF ok]])

lemma frame_refl [simp]: "frame info w info w"
  by (simp add: frame_def)

lemma frame_trans:
  assumes "frame i1 w1 i2 w2" and "frame i2 w2 i3 w3"
  shows "frame i1 w1 i3 w3"
proof -
  from assms(1) have "i2 = i1\<lparr>si_buffer := si_buffer i2, si_control_seq := si_control_seq i2\<rparr>"
    by (simp add: frame_def)
  moreover from assms(2) have "i3 = i2\<lparr>si_buffer := si_buffer i3, si_control_seq := si_control_seq i3\<rparr>"
    by (simp add: frame_def)
  ultimately have "i3 = i1\<lparr>si_buffer := si_buffer i3, si_control_seq := si_control_seq i3\<rparr>"
    by (cases i1, cases i2, cases i3) simp
  with assms show ?thesis unfolding frame_def by simp
qed

lemma srv_ok_save:
  assumes ok: "srv_ok A cs info w" and win: "buffer_in_window (si_buffer info) seq"
    and len: "0 \<le> len" "len \<le> int SREJ_MAX_DATA" "len \<le> int (length data)"
    and auth: "A \<Longrightarrow> 2 \<le> unat seq \<and> unat seq < 2 + length cs \<and> take (nat len) data = cs ! (unat seq - 2)"
  shows "\<exists>b'. buffer_save (si_buffer info) seq data len = Inr b' \<and> srv_ok A cs (info\<lparr>si_buffer := b'\<rparr>) w \<and>
    b' = (si_buffer info)\<lparr>buf_entry := buf_entry b'\<rparr>"
proof -
  let ?b = "si_buffer info"
  have inv: "buffer_inv ?b" and log: "srv_log A cs (buf_next ?b) (buf_pending ?b) w"
    using ok by (simp_all add: srv_ok_def)
  obtain b' where b': "buffer_save ?b seq data len = Inr b'" "buffer_inv b'" "b' = ?b\<lparr>buf_entry := buf_entry b'\<rparr>"
    using buffer_save_spec [OF inv win len] by blast
  have saves: "buffer_saves ?b (unat seq) (take (nat len) data) b'"
    unfolding buffer_saves_def using win len b'(1) by blast
  have n: "buf_next b' = buf_next ?b" using circular.saves_inv [OF inv saves] by simp
  have "A \<Longrightarrow> stream_ok cs 2 (buf_next b') (buf_pending b') (out_data w)"
    by (rule circular.saves_stream [OF inv _ saves]) (use log auth in \<open>auto simp: srv_log_def\<close>)
  with log n have "srv_log A cs (buf_next b') (buf_pending b') w" by (auto simp: srv_log_def)
  with b' show ?thesis by (auto simp: srv_ok_def)
qed

lemma post_write_ready_ok:
  assumes ok: "srv_ok A cs info w" and sz: "0 < buf_size (si_buffer info)"
  shows "post (buffer_write_ready (si_buffer info)) w
    (\<lambda>b' w'. srv_ok A cs (info\<lparr>si_buffer := b'\<rparr>) w' \<and> frame info w (info\<lparr>si_buffer := b'\<rparr>) w' \<and>
      buf_size b' = buf_size (si_buffer info)) (srv_end A cs)"
proof -
  let ?b = "si_buffer info"
  have inv: "buffer_inv ?b" and log: "srv_log A cs (buf_next ?b) (buf_pending ?b) w"
    using ok by (simp_all add: srv_ok_def)
  note spec = post_buffer_write_ready [OF inv sz, of w]
  obtain r w' where e: "buffer_write_ready ?b w = (r, w')" by fastforce
  show ?thesis
  proof (cases r)
    case (Inl h)
    then have h: "h \<noteq> Trap" "h \<noteq> Blocked" using post_no_trap [OF spec] post_no_block [OF spec] e by auto
    from post_exit [OF spec] e Inl have w': "w' = w\<lparr>out_data := out_data w', writes := writes w'\<rparr>" "writes w \<noteq> []"
      by auto
    from w'(1) have "sent w' = sent w" by (cases w, cases w') simp
    with log w'(2) have "srv_log A cs (buf_next ?b) (buf_pending ?b) w'" by (simp add: srv_log_def)
    with e Inl h show ?thesis by (cases h) (auto simp: post_def dest: srv_endI)
  next
    case (Inr b')
    with e have rp: "ready_post ?b w b' w'" by (intro post_Inr [OF spec]) simp
    then obtain k where k: "buf_next b' = buf_next ?b + k" "buffer_inv b'"
      "b' = ?b\<lparr>buf_entry := buf_entry b', buf_expected := buf_expected b'\<rparr>"
      "w' = w\<lparr>out_data := out_data w', writes := writes w'\<rparr>"
      "writes w = [] \<longrightarrow> writes w' = [] \<and> (\<exists>part. out_data w' = out_data w @ part)"
      unfolding ready_post_def by blast
    have w': "sent w' = sent w" "net w' = net w" "live w' = live w" "socket_polled w' = socket_polled w"
      by (subst k(4), simp)+
    have b': "buf_alloc b' = buf_alloc ?b" "buf_size b' = buf_size ?b"
      by (subst k(3), simp)+
    have "stream_ok cs 2 (buf_next b') (buf_pending b') (out_data w')" if A
    proof -
      from log that have wr: "writes w = []" "stream_ok cs 2 (buf_next ?b) (buf_pending ?b) (out_data w)"
        by (simp_all add: srv_log_def)
      with k(5) obtain part where part: "out_data w' = out_data w @ part" by blast
      have "buffer_flushes ?b part b'"
        unfolding buffer_flushes_def using sz wr(1) e Inr part by blast
      from circular.flushes_stream [OF inv wr(2) this] show ?thesis unfolding part .
    qed
    moreover have "srv_msg (buf_next b') m" if "srv_msg (buf_next ?b) m" for m
      using srv_msg_mono [OF that] k(1) by simp
    ultimately have "srv_log A cs (buf_next b') (buf_pending b') w'"
      using log k(5) by (auto simp: srv_log_def w'(1))
    with k(2) w' b' e Inr show ?thesis by (simp add: post_def srv_ok_def frame_def)
  qed
qed

section \<open>A data packet\<close>

lemma post_handle_data_packet:
  assumes ok: "srv_ok A cs info w" and chk: "check_packet p (int (length p)) = Inr True"
    and len: "length p \<le> SREJ_MAX_PACKET" and auth: "A \<Longrightarrow> genuine cs p"
  shows "post (handle_data_packet info p (int (length p))) w
    (\<lambda>info' w'. srv_ok A cs info' w' \<and> frame info w info' w') (srv_end A cs)"
proof -
  obtain seq where seq: "get_seq p = Inr seq" using check_packet_True(3) [OF chk] by blast
  have n: "7 \<le> length p" using check_packet_True(1) [OF chk] by simp
  have rr: "post (send_rr i) v (\<lambda>info' w'. srv_ok A cs info' w' \<and> frame i v info' w') (srv_end A cs)"
    if "srv_ok A cs i v" for i v
    by (rule post_mono [OF post_rr [OF that]]) auto
  show ?thesis
  proof (cases "seq < buf_expected (si_buffer info) \<or> \<not> buffer_in_window (si_buffer info) seq")
    case True
    then show ?thesis
      using rr [OF ok]
      by (auto simp: handle_data_packet_def seq iobind_eqs Let_def buffer_expected_def)
  next
    case False
    then have win: "buffer_in_window (si_buffer info) seq" by simp
    have dl: "0 \<le> int (length p) - 7" "int (length p) - 7 \<le> int SREJ_MAX_DATA"
      "int (length p) - 7 \<le> int (length (drop 7 p))" "nat (int (length p) - 7) = length (drop 7 p)"
      using n len by simp_all
    have au: "2 \<le> unat seq \<and> unat seq < 2 + length cs \<and>
        take (nat (int (length p) - 7)) (drop 7 p) = cs ! (unat seq - 2)" if A
      using genuine_fields [OF auth [OF that] seq] unfolding dl(4) by simp
    obtain b' where b': "buffer_save (si_buffer info) seq (drop 7 p) (int (length p) - 7) = Inr b'"
      "srv_ok A cs (info\<lparr>si_buffer := b'\<rparr>) w" "b' = (si_buffer info)\<lparr>buf_entry := buf_entry b'\<rparr>"
      using srv_ok_save [OF ok win dl(1-3) au] by blast
    have fr: "frame info w (info\<lparr>si_buffer := b'\<rparr>) w" "buf_size b' = buf_size (si_buffer info)"
      using b'(3) by (cases b', cases "si_buffer info", simp add: frame_def)+
    let ?c = "buffer_clear_reject b' seq"
    let ?ic = "info\<lparr>si_buffer := ?c\<rparr>"
    have okc: "srv_ok A cs ?ic w"
      by (rule srv_ok_cong [OF b'(2)]) (simp_all add: buffer_clear_reject_frame)
    have frc: "frame info w ?ic w" using fr by (simp add: frame_def buffer_clear_reject_frame)
    have sz: "0 < buf_size (si_buffer ?ic)"
    proof -
      have "0 \<le> buf_size (si_buffer info)" "buf_size (si_buffer info) < 2 ^ 31"
        using ok by (simp_all add: srv_ok_def buffer_inv_def)
      from win [unfolded buffer_in_window_iff [OF this]] have "0 < nat (buf_size (si_buffer info))" by linarith
      then show ?thesis using fr(2) by (simp add: buffer_clear_reject_frame)
    qed
    have gap: "post (let (need, b) = buffer_need_reject (si_buffer i); info = i\<lparr>si_buffer := b\<rparr> in
        if need then send_reject info (buffer_expected b) else ret info) v
      (\<lambda>info' w'. srv_ok A cs info' w' \<and> frame info w info' w') (srv_end A cs)"
      if "srv_ok A cs i v" "frame info w i v" for i v
      by (rule post_mono [OF post_need_reject [OF that(1)]]) (auto intro: frame_trans [OF that(2)])
    have tail: "post (iobind (send_rr i) (\<lambda>info. iobind (lift_res (buffer_has_later (si_buffer info))) (\<lambda>later.
        if later then (let (need, b) = buffer_need_reject (si_buffer info); info = info\<lparr>si_buffer := b\<rparr> in
          if need then send_reject info (buffer_expected b) else ret info) else ret info))) v
      (\<lambda>info' w'. srv_ok A cs info' w' \<and> frame info w info' w') (srv_end A cs)"
      if i: "srv_ok A cs i v" "frame info w i v" for i v
    proof (rule post_seq [OF rr [OF i(1)]])
      fix j u
      assume j: "srv_ok A cs j u \<and> frame i v j u"
      then have "buffer_inv (si_buffer j)" by (simp add: srv_ok_def)
      with j gap [of j u] frame_trans [OF i(2), of j u] buffer_has_later_eq
      show "post (iobind (lift_res (buffer_has_later (si_buffer j))) (\<lambda>later.
          if later then (let (need, b) = buffer_need_reject (si_buffer j); info = j\<lparr>si_buffer := b\<rparr> in
            if need then send_reject info (buffer_expected b) else ret info) else ret j)) u
        (\<lambda>info' w'. srv_ok A cs info' w' \<and> frame info w info' w') (srv_end A cs)"
        by (simp add: iobind_eqs)
    qed
    have "post (iobind (buffer_write_ready ?c) (\<lambda>b. iobind (send_rr (info\<lparr>si_buffer := b\<rparr>)) (\<lambda>info.
        iobind (lift_res (buffer_has_later (si_buffer info))) (\<lambda>later.
        if later then (let (need, b) = buffer_need_reject (si_buffer info); info = info\<lparr>si_buffer := b\<rparr> in
          if need then send_reject info (buffer_expected b) else ret info) else ret info)))) w
      (\<lambda>info' w'. srv_ok A cs info' w' \<and> frame info w info' w') (srv_end A cs)"
    proof (rule post_seq [OF post_write_ready_ok [OF okc sz, simplified]])
      fix b v
      assume "srv_ok A cs (info\<lparr>si_buffer := b\<rparr>) v \<and> frame ?ic w (info\<lparr>si_buffer := b\<rparr>) v \<and> buf_size b = buf_size ?c"
      then show "post (iobind (send_rr (info\<lparr>si_buffer := b\<rparr>)) (\<lambda>info.
          iobind (lift_res (buffer_has_later (si_buffer info))) (\<lambda>later.
          if later then (let (need, b) = buffer_need_reject (si_buffer info); info = info\<lparr>si_buffer := b\<rparr> in
            if need then send_reject info (buffer_expected b) else ret info) else ret info))) v
        (\<lambda>info' w'. srv_ok A cs info' w' \<and> frame info w info' w') (srv_end A cs)"
        by (intro tail) (auto intro: frame_trans [OF frc])
    qed
    moreover have "post (let (need, b) = buffer_need_reject b'; info = info\<lparr>si_buffer := b\<rparr> in
        if need then send_reject info (buffer_expected b) else ret info) w
      (\<lambda>info' w'. srv_ok A cs info' w' \<and> frame info w info' w') (srv_end A cs)"
      using gap [OF b'(2) fr(1)] by simp
    ultimately show ?thesis
      using False unfolding handle_data_packet_def seq iobind_eqs
      by (simp only: Let_def [of "int (length p) - int SREJ_HEADER_LEN"] Let_def [of "drop SREJ_HEADER_LEN p"]
          b'(1) iobind_eqs buffer_expected_def of_nat_numeral split: if_split) (auto simp: b'(1))
  qed
qed

section \<open>The state machine\<close>

text \<open>Every data packet that arrives intact is a chunk of the stream.\<close>

definition data_auth :: "bytes list \<Rightarrow> net_event list \<Rightarrow> bool" where
  "data_auth cs es \<longleftrightarrow> (\<forall>a m. Arrives (Datagram a m) \<in> set es \<longrightarrow>
    (let p = take SREJ_MAX_PACKET m in
     check_packet p (int (length p)) = Inr True \<longrightarrow> get_flag p = Inr FLAG_DATA \<longrightarrow> genuine cs p))"

lemma data_authD:
  assumes "data_auth cs es" and "Arrives (Datagram a m) \<in> set es"
    and "check_packet (take SREJ_MAX_PACKET m) (int (length (take SREJ_MAX_PACKET m))) = Inr True"
    and "get_flag (take SREJ_MAX_PACKET m) = Inr FLAG_DATA"
  shows "genuine cs (take SREJ_MAX_PACKET m)"
  using assms unfolding data_auth_def Let_def by blast

lemma data_auth_tl: "data_auth cs es \<Longrightarrow> data_auth cs (tl es)"
  by (cases es) (auto simp: data_auth_def)

text \<open>The invariant of a child in each state; it has the buffer from RECV_DATA on.\<close>

definition srv_common :: "bool \<Rightarrow> bytes list \<Rightarrow> ServerInfo \<Rightarrow> world \<Rightarrow> bool" where
  "srv_common A cs info w \<longleftrightarrow> length (si_last_ack info) = SREJ_MAX_PACKET \<and>
    length (si_first_packet info) = SREJ_MAX_PACKET \<and>
    (\<exists>name. c_string (si_first_packet info) 15 = Inr name) \<and>
    (A \<longrightarrow> data_auth cs (net w)) \<and> (buf_alloc (si_buffer info) \<longrightarrow> 0 < live w)"

definition srv_inv :: "bool \<Rightarrow> bytes list \<Rightarrow> STATE \<Rightarrow> ServerInfo \<Rightarrow> world \<Rightarrow> bool" where
  "srv_inv A cs st info w \<longleftrightarrow> srv_common A cs info w \<and>
    (case st of
       START \<Rightarrow> hung w = [] \<and> 0 \<le> maxFileDescriptor w \<and> maxFileDescriptor w \<le> 10 \<and> \<not> buf_alloc (si_buffer info) \<and>
         srv_log A cs 2 (\<lambda>_. None) w
     | FILENAME \<Rightarrow> socket_polled w \<and> \<not> buf_alloc (si_buffer info) \<and> srv_log A cs 2 (\<lambda>_. None) w
     | RECV_DATA \<Rightarrow> socket_polled w \<and> srv_ok A cs info w
     | WAIT_ON_DONE \<Rightarrow> socket_polled w \<and> srv_ok A cs info w \<and> si_last_ack_len info = 7 \<and>
         si_retry_count info < 10 \<and> (\<exists>s. take 7 (si_last_ack info) = packet_bytes s FLAG_EOF_ACK [])
     | DONE \<Rightarrow> srv_end A cs w)"

text \<open>How many turns of the loop are left at most.\<close>

definition srv_rank :: "STATE \<Rightarrow> ServerInfo \<Rightarrow> world \<Rightarrow> nat" where
  "srv_rank st info w = (case st of
     START \<Rightarrow> 14 + length (net w)
   | FILENAME \<Rightarrow> 13 + length (net w)
   | RECV_DATA \<Rightarrow> 12 + length (net w)
   | WAIT_ON_DONE \<Rightarrow> nat (11 - si_retry_count info) + length (net w)
   | DONE \<Rightarrow> 0)"

abbreviation srv_next :: "bool \<Rightarrow> bytes list \<Rightarrow> STATE \<Rightarrow> ServerInfo \<Rightarrow> world \<Rightarrow> STATE \<times> ServerInfo \<Rightarrow> world \<Rightarrow> bool" where
  "srv_next A cs st info w r w' \<equiv> srv_inv A cs (fst r) (snd r) w' \<and> st \<le> fst r \<and>
    srv_rank (fst r) (snd r) w' < srv_rank st info w"

lemma srv_log_poll_set:
  "srv_log A cs n pend w \<Longrightarrow> same_but_poll_set w v \<Longrightarrow> srv_log A cs n pend v"
  by (rule srv_log_cong) (simp_all add: same_but_poll_setD)

lemma post_srv_start_state:
  assumes inv: "srv_inv A cs START info w"
  shows "post (start_state junk info) w (srv_next A cs START info w) (srv_end A cs)"
  unfolding start_state_def
proof (rule post_seq)
  from inv have i: "srv_common A cs info w" "0 \<le> maxFileDescriptor w" "maxFileDescriptor w \<le> 10"
    "srv_log A cs 2 (\<lambda>_. None) w" and h: "hung w = []" and na: "\<not> buf_alloc (si_buffer info)" by (simp_all add: srv_inv_def)
  let ?P = "\<lambda>s v. 0 \<le> s \<and> udp_fd v = s \<and> srv_log A cs 2 (\<lambda>_. None) v \<and> net v = net w \<and> hung v = []"
  show "post createUdpSocket w (\<lambda>s v. ?P s v \<and> maxFileDescriptor v = maxFileDescriptor w) (srv_end A cs)"
  proof (rule post_mono [OF post_createUdpSocket])
    fix s v
    assume *: "0 \<le> s \<and> fds w = s # fds v \<and> v = w\<lparr>fds := fds v, udp_fd := s\<rparr>"
    from * have "v = w\<lparr>fds := fds v, udp_fd := s\<rparr>" by blast
    then have "sent v = sent w" "out_data v = out_data w" "writes v = writes w" "net v = net w" "udp_fd v = s" "hung v = hung w"
      "maxFileDescriptor v = maxFileDescriptor w"
      by (cases v, cases w, simp)+
    with * i(4) h show "?P s v \<and> maxFileDescriptor v = maxFileDescriptor w" by (auto intro: srv_log_cong)
  next
    fix v
    assume *: "v = w\<lparr>fds := fds v\<rparr>"
    then have "sent v = sent w" "out_data v = out_data w" "writes v = writes w"
      by (cases v, cases w, simp)+
    with i(4) show "srv_end A cs v" by (auto intro: srv_endI srv_log_cong)
  qed
  fix s v
  assume v: "?P s v \<and> maxFileDescriptor v = maxFileDescriptor w"
  show "post (iobind setupPollSet (\<lambda>_. iobind (addToPollSet junk s) (\<lambda>_. ret (FILENAME, info\<lparr>si_socket_num := s\<rparr>)))) v
    (srv_next A cs START info w) (srv_end A cs)"
  proof (rule post_seq)
    show "post setupPollSet v (\<lambda>_ u. poll_set_ok u \<and> ?P s u) (srv_end A cs)"
      by (rule post_mono [OF post_setupPollSet])
        (use v i in \<open>auto simp: same_but_poll_setD intro: srv_log_poll_set srv_endI\<close>)
    fix x u
    assume u: "poll_set_ok u \<and> ?P s u"
    show "post (iobind (addToPollSet junk s) (\<lambda>_. ret (FILENAME, info\<lparr>si_socket_num := s\<rparr>))) u
      (srv_next A cs START info w) (srv_end A cs)"
    proof (rule post_seq)
      show "post (addToPollSet junk s) u (\<lambda>_ t. socket_polled t \<and> ?P s t) (srv_end A cs)"
        by (rule post_mono [OF post_addToPollSet])
          (use u in \<open>auto simp: same_but_poll_setD intro: srv_log_poll_set srv_endI\<close>)
      fix y t
      assume t: "socket_polled t \<and> ?P s t"
      then have "srv_common A cs (info\<lparr>si_socket_num := s\<rparr>) t" using i(1) na by (simp add: srv_common_def)
      with t na show "post (ret (FILENAME, info\<lparr>si_socket_num := s\<rparr>)) t
        (srv_next A cs START info w) (srv_end A cs)"
        by (simp add: srv_inv_def srv_rank_def less_eq_STATE_def)
    qed
  qed
qed

lemma post_sys_open_trunc:
  "post (sys_open_trunc name) w
    (\<lambda>fd v. socket_polled v = socket_polled w \<and> sent v = sent w \<and> writes v = writes w \<and> net v = net w \<and>
      live v = live w \<and> (if fd < 0 then out_data v = out_data w \<and> opened v = opened w
        else out_data v = [] \<and> opened v = opened w @ [name]))
    (\<lambda>_. False)"
  by (auto simp: post_def sys_open_trunc_def iobind_def sys_new_fd_def socket_polled_defs split: list.split)

lemma post_response:
  assumes "srv_log A cs 2 (\<lambda>_. None) w" and "socket_polled w"
    and "\<And>v. srv_log A cs 2 (\<lambda>_. None) v \<Longrightarrow> socket_polled v \<Longrightarrow> net v = net w \<Longrightarrow> live v = live w \<Longrightarrow>
      post (k (next_control info)) v P (srv_end A cs)"
  shows "post (iobind (send_filename_response info x) k) w P (srv_end A cs)"
  unfolding post_iobind
proof (rule post_send_filename_response)
  show "post (k (next_control info)) (after_send (si_client info)
      (packet_bytes (si_control_seq info) FLAG_FILENAME_RESP [x]) w) P (srv_end A cs)"
    by (rule assms(3))
      (auto simp: assms(2) intro!: srv_log_after_send [OF assms(1)] srv_msgI simp: srv_fields_def)
  show "srv_end A cs (w\<lparr>sends := tl (sends w)\<rparr>)"
    by (rule srv_end_sends [OF srv_endI [OF assms(1)]])
qed

lemma post_srv_filename_state:
  assumes inv: "srv_inv A cs FILENAME info w"
  shows "post (filename_state info) w (srv_next A cs FILENAME info w) (srv_end A cs)"
proof -
  from inv have i: "srv_common A cs info w" "socket_polled w" "\<not> buf_alloc (si_buffer info)"
    "srv_log A cs 2 (\<lambda>_. None) w" by (simp_all add: srv_inv_def)
  from i(1) obtain name where l: "length (si_first_packet info) = SREJ_MAX_PACKET"
    "length (si_last_ack info) = SREJ_MAX_PACKET"
    "c_string (si_first_packet info) 15 = Inr name" by (auto simp: srv_common_def)
  have rd: "\<exists>v. read_u32 (si_first_packet info) off = Inr v" if "off \<le> 1403" for off
    using l(1) that by (simp add: read_u32_def)
  obtain ws where ws: "read_u32 (si_first_packet info) 7 = Inr ws" using rd [of 7] by auto
  obtain bs where bs: "read_u32 (si_first_packet info) (7 + 4) = Inr bs" using rd [of 11] by auto
  have nm: "c_string (si_first_packet info) (7 + 8) = Inr name" using l(3) by simp
  have com: "srv_common A cs j v" if "si_first_packet j = si_first_packet info" "si_last_ack j = si_last_ack info"
    "net v = net w" "buf_alloc (si_buffer j) \<longrightarrow> 0 < live v" for j v
    using i(1) that by (simp add: srv_common_def)
  let ?info = "\<lambda>fd. info\<lparr>si_window_size := sint ws, si_buffer_size := sint bs, si_output_file := fd\<rparr>"
  have bad: "post (iobind (send_filename_response (?info fd) 1) (\<lambda>info. ret (DONE, info))) v
      (srv_next A cs FILENAME info w) (srv_end A cs)"
    if v: "socket_polled v" "srv_log A cs 2 (\<lambda>_. None) v" "net v = net w" "live v = live w" for fd v
  proof (rule post_response [OF v(2,1)])
    fix u
    assume u: "srv_log A cs 2 (\<lambda>_. None) u" "net u = net v" "live u = live v"
    have "srv_common A cs (next_control (?info fd)) u" by (rule com) (use u v i in simp_all)
    with u(1) show "post (ret (DONE, next_control (?info fd))) u (srv_next A cs FILENAME info w) (srv_end A cs)"
      by (auto simp: srv_inv_def srv_rank_def less_eq_STATE_def intro: srv_endI)
  qed
  have good: "post (iobind (send_filename_response (?info fd) 0) (\<lambda>info.
        iobind (buffer_init (si_buffer info) (si_window_size info) FIRST_DATA_SEQ (si_output_file info)) (\<lambda>b.
        ret (RECV_DATA, info\<lparr>si_buffer := b\<rparr>)))) v (srv_next A cs FILENAME info w) (srv_end A cs)"
    if v: "socket_polled v" "srv_log A cs 2 (\<lambda>_. None) v" "net v = net w" "live v = live w" for fd v
  proof (rule post_response [OF v(2,1)])
    fix u
    assume u: "srv_log A cs 2 (\<lambda>_. None) u" "socket_polled u" "net u = net v" "live u = live v"
    let ?j = "next_control (?info fd)"
    have sz: "sint ws < 2 ^ 31" using sint_lt [of ws] by simp
    show "post (iobind (buffer_init (si_buffer ?j) (si_window_size ?j) FIRST_DATA_SEQ (si_output_file ?j)) (\<lambda>b.
        ret (RECV_DATA, ?j\<lparr>si_buffer := b\<rparr>))) u (srv_next A cs FILENAME info w) (srv_end A cs)"
      unfolding post_iobind post_ret
    proof (rule post_mono [OF post_buffer_init])
      fix b t
      assume b: "0 \<le> si_window_size ?j \<and> buffer_inv b \<and> buf_alloc b \<and> buf_size b = si_window_size ?j \<and>
        buf_expected b = FIRST_DATA_SEQ \<and> buf_output_file b = si_output_file ?j \<and> buf_missing_active b = 0 \<and>
        (\<forall>n. buf_pending b n = None) \<and> t = u\<lparr>allocs := tl (allocs u), live := Suc (live u)\<rparr>"
      then have "buf_pending b = (\<lambda>_. None)" "buf_next b = 2" by (auto simp: fun_eq_iff)
      moreover have "srv_log A cs 2 (\<lambda>_. None) t" using u(1) b by (auto intro: srv_log_cong)
      ultimately have "srv_ok A cs (?j\<lparr>si_buffer := b\<rparr>) t" using b by (simp add: srv_ok_def)
      moreover have "srv_common A cs (?j\<lparr>si_buffer := b\<rparr>) t" by (rule com) (use u v b in simp_all)
      ultimately show "srv_next A cs FILENAME info w (RECV_DATA, ?j\<lparr>si_buffer := b\<rparr>) t"
        using b u v by (simp add: srv_inv_def srv_rank_def less_eq_STATE_def)
    next
      fix t
      assume "t = u\<lparr>allocs := tl (allocs u)\<rparr> \<and> (si_window_size ?j < 0 \<or> allocs u \<noteq> [])"
      with srv_end_cong [OF srv_endI [OF u(1)], of t] show "srv_end A cs t" by simp
    qed (use sz in simp)
  qed
  show ?thesis
    unfolding filename_state_def ws bs nm iobind_eqs
  proof (rule post_seq [OF post_mono [OF post_sys_open_trunc]])
    fix fd :: int and v
    assume v: "socket_polled v = socket_polled w \<and> sent v = sent w \<and> writes v = writes w \<and> net v = net w \<and>
      live v = live w \<and> (if fd < 0 then out_data v = out_data w \<and> opened v = opened w
        else out_data v = [] \<and> opened v = opened w @ [name])"
    have "srv_log A cs 2 (\<lambda>_. None) v"
      using i(4) v by (auto simp: srv_log_def stream_ok_def split: if_splits)
    then show "socket_polled v \<and> srv_log A cs 2 (\<lambda>_. None) v \<and> net v = net w \<and> live v = live w"
      using v i(2) by simp
  next
    fix fd :: int and v
    assume v: "socket_polled v \<and> srv_log A cs 2 (\<lambda>_. None) v \<and> net v = net w \<and> live v = live w"
    with good [of v fd] bad [of v fd] show "post (let info = ?info fd in
        if fd < 0 then iobind (send_filename_response info 1) (\<lambda>info. ret (DONE, info))
        else iobind (send_filename_response info 0) (\<lambda>info.
          iobind (buffer_init (si_buffer info) (si_window_size info) FIRST_DATA_SEQ (si_output_file info)) (\<lambda>b.
          ret (RECV_DATA, info\<lparr>si_buffer := b\<rparr>)))) v (srv_next A cs FILENAME info w) (srv_end A cs)"
      by (simp only: Let_def split: if_split) blast
  qed simp
qed

text \<open>What a poll that keeps the process state but its poll table leaves intact.\<close>

lemma srv_poll:
  assumes "v = w\<lparr>net := es, pollFileDescriptors := fs\<rparr>"
  shows "sent v = sent w" "out_data v = out_data w" "writes v = writes w" "net v = es" "live v = live w"
  using assms by simp_all

lemma srv_ok_poll:
  assumes "srv_ok A cs info w" and "v = w\<lparr>net := es, pollFileDescriptors := fs\<rparr>"
  shows "srv_ok A cs (info\<lparr>si_client := c\<rparr>) v" "srv_ok A cs info v" "srv_end A cs v"
proof -
  show "srv_ok A cs (info\<lparr>si_client := c\<rparr>) v" "srv_ok A cs info v"
    by (rule srv_ok_cong [OF assms(1)]; simp add: assms(2))+
  then show "srv_end A cs v" by (blast intro: srv_ok_end)
qed

lemma srv_common_keep:
  assumes "srv_common A cs info w" and "si_first_packet j = si_first_packet info"
    and "length (si_last_ack j) = SREJ_MAX_PACKET" and "A \<Longrightarrow> data_auth cs (net w) \<Longrightarrow> data_auth cs (net v)"
    and "buf_alloc (si_buffer j) = buf_alloc (si_buffer info)" and "live v = live w"
  shows "srv_common A cs j v"
  using assms by (simp add: srv_common_def)

lemma frame_sel:
  assumes "frame info w j v"
  shows "si_first_packet j = si_first_packet info" "si_last_ack j = si_last_ack info"
    "buf_alloc (si_buffer j) = buf_alloc (si_buffer info)" "net v = net w" "live v = live w"
    "socket_polled v = socket_polled w"
proof -
  from assms have "j = info\<lparr>si_buffer := si_buffer j, si_control_seq := si_control_seq j\<rparr>"
    by (simp add: frame_def)
  then show "si_first_packet j = si_first_packet info" "si_last_ack j = si_last_ack info"
    by (cases j, cases info, simp)+
qed (use assms in \<open>simp_all add: frame_def\<close>)

lemma post_recv_data_state:
  assumes inv: "srv_inv A cs RECV_DATA info w"
  shows "post (recv_data_state info) w (srv_next A cs RECV_DATA info w) (srv_end A cs)"
proof -
  from inv have i: "srv_common A cs info w" "socket_polled w" "srv_ok A cs info w"
    by (simp_all add: srv_inv_def)
  let ?handle = "\<lambda>(client, packet).
        let info = info\<lparr>si_client := client\<rparr>; packet_len = int (length packet) in
        iobind (lift_res (check_packet packet packet_len)) (\<lambda>ok.
          if \<not> ok then ret (RECV_DATA, info)
          else iobind (lift_res (get_flag packet)) (\<lambda>flag.
            if flag = FLAG_DATA then
              iobind (handle_data_packet info packet packet_len) (\<lambda>info. ret (RECV_DATA, info))
            else if flag = FLAG_EOF then
              iobind (handle_eof_packet info) (\<lambda>info. ret (WAIT_ON_DONE, info))
            else ret (RECV_DATA, info)))"
  show ?thesis
    unfolding recv_data_state_def
  proof (rule post_poll_recv [OF i(2)], simp)
    fix v
    assume v: "socket_polled v" "v = w\<lparr>net := tl (net w), pollFileDescriptors := pollFileDescriptors v\<rparr>"
    have "srv_common A cs info v"
      by (rule srv_common_keep [OF i(1)])
        (use i(1) srv_poll [OF v(2)] data_auth_tl in \<open>simp_all add: srv_common_def\<close>)
    with srv_ok_poll(3) [OF i(3) v(2)]
    show "post (ret (DONE, info)) v (srv_next A cs RECV_DATA info w) (srv_end A cs)"
      by (simp add: srv_inv_def srv_rank_def less_eq_STATE_def)
  next
    fix v es src m
    assume n: "net w = Arrives (Datagram src m) # es" and v: "socket_polled v"
      "v = w\<lparr>net := es, pollFileDescriptors := pollFileDescriptors v\<rparr>"
    let ?p = "take (nat (int SREJ_MAX_PACKET)) m"
    let ?i = "info\<lparr>si_client := src\<rparr>"
    have ok: "srv_ok A cs ?i v" by (rule srv_ok_poll(1) [OF i(3) v(2)])
    have com: "srv_common A cs ?i v"
      by (rule srv_common_keep [OF i(1)])
        (use i(1) srv_poll [OF v(2)] n data_auth_tl [of cs "net w"] in \<open>simp_all add: srv_common_def\<close>)
    have len: "length ?p \<le> SREJ_MAX_PACKET" by simp
    have "int (length ?p) \<le> 65536" using len by linarith
    then obtain b where b: "check_packet ?p (int (length ?p)) = Inr b"
      using check_packet_defined [OF order_refl] by blast
    have stay: "post (ret (RECV_DATA, ?i)) v (srv_next A cs RECV_DATA info w) (srv_end A cs)"
      using ok com v n srv_poll(4) [OF v(2)] by (simp add: srv_inv_def srv_rank_def)
    show "post (?handle (src, ?p)) v (srv_next A cs RECV_DATA info w) (srv_end A cs)"
    proof (cases b)
      case False
      with stay show ?thesis by (simp only: prod.case Let_def b iobind_eqs simp_thms if_True)
    next
      case True
      with b have chk: "check_packet ?p (int (length ?p)) = Inr True" by simp
      obtain f where f: "get_flag ?p = Inr f" using check_packet_True(4) [OF chk] by blast
      have data: "post (iobind (handle_data_packet ?i ?p (int (length ?p))) (\<lambda>info. ret (RECV_DATA, info))) v
          (srv_next A cs RECV_DATA info w) (srv_end A cs)" if "f = FLAG_DATA"
      proof (rule post_seq [OF post_handle_data_packet [OF ok chk len]])
        assume A
        with i(1) have "data_auth cs (net w)" by (simp add: srv_common_def)
        from data_authD [OF this, of src m] n chk f that show "genuine cs ?p" by simp
      next
        fix j u
        assume j: "srv_ok A cs j u \<and> frame ?i v j u"
        note s = frame_sel [OF conjunct2 [OF j]]
        have "srv_common A cs j u" by (rule srv_common_keep [OF com]) (use com s in \<open>simp_all add: srv_common_def\<close>)
        with j s v(1) n srv_poll(4) [OF v(2)]
        show "post (ret (RECV_DATA, j)) u (srv_next A cs RECV_DATA info w) (srv_end A cs)"
          by (simp add: srv_inv_def srv_rank_def)
      qed
      have eof: "post (iobind (handle_eof_packet ?i) (\<lambda>info. ret (WAIT_ON_DONE, info))) v
          (srv_next A cs RECV_DATA info w) (srv_end A cs)"
        unfolding post_iobind
      proof (rule post_handle_eof_packet)
        show "length (si_last_ack ?i) = SREJ_MAX_PACKET" using com by (simp add: srv_common_def)
        show "srv_end A cs (v\<lparr>sends := tl (sends v)\<rparr>)" by (rule srv_end_sends [OF srv_ok_end [OF ok]])
        fix j
        let ?m = "packet_bytes (si_control_seq ?i) FLAG_EOF_ACK []"
        assume j: "j = ?i\<lparr>si_last_ack := si_last_ack j, si_last_ack_len := 7,
            si_control_seq := si_control_seq ?i + 1, si_retry_count := 0\<rparr>"
          and la: "length (si_last_ack j) = SREJ_MAX_PACKET" "take 7 (si_last_ack j) = ?m"
        from j have s: "si_buffer j = si_buffer info" "si_last_ack_len j = 7" "si_retry_count j = 0"
          "si_first_packet j = si_first_packet info"
          by (cases j, cases info, simp)+
        have "srv_ok A cs j (after_send (si_client ?i) ?m v)"
          by (rule srv_ok_cong [OF srv_ok_after_send [OF ok]])
            (auto simp: s srv_fields_def intro!: srv_msgI)
        moreover have "srv_common A cs j (after_send (si_client ?i) ?m v)"
          by (rule srv_common_keep [OF com]) (simp_all add: s la)
        ultimately show "post (ret (WAIT_ON_DONE, j)) (after_send (si_client ?i) ?m v)
            (srv_next A cs RECV_DATA info w) (srv_end A cs)"
          using la(2) v(1) n srv_poll(4) [OF v(2)] s(2,3)
          by (auto simp: srv_inv_def srv_rank_def less_eq_STATE_def)
      qed
      from data eof stay show ?thesis
        by (simp only: prod.case Let_def chk f iobind_eqs simp_thms if_False split: if_split) blast
    qed
  next
    fix v
    assume "v = w\<lparr>net := net v, pollFileDescriptors := pollFileDescriptors v\<rparr>"
    then show "srv_end A cs v" by (rule srv_ok_poll(3) [OF i(3)])
  qed
qed

lemma post_resend:
  assumes ok: "srv_ok A cs info w" and "si_last_ack_len info = 7"
    and la: "length (si_last_ack info) = SREJ_MAX_PACKET" "\<exists>s. take 7 (si_last_ack info) = packet_bytes s FLAG_EOF_ACK []"
  shows "post (resend_last_ack info) w
    (\<lambda>_ v. srv_ok A cs info v \<and> net v = net w \<and> live v = live w \<and> socket_polled v = socket_polled w) (srv_end A cs)"
proof (rule post_resend_last_ack)
  from la(2) obtain s where s: "take 7 (si_last_ack info) = packet_bytes s FLAG_EOF_ACK []" by blast
  let ?m = "take (nat (si_last_ack_len info)) (si_last_ack info)"
  have "?m = packet_bytes s FLAG_EOF_ACK []" using assms(2) s by simp
  then have "srv_msg (buf_next (si_buffer info)) ?m" by (auto simp: srv_fields_def intro!: srv_msgI)
  then show "srv_ok A cs info (after_send (si_client info) ?m w) \<and> net (after_send (si_client info) ?m w) = net w \<and>
      live (after_send (si_client info) ?m w) = live w \<and>
      socket_polled (after_send (si_client info) ?m w) = socket_polled w"
    by (simp add: srv_ok_after_send [OF ok])
  show "srv_end A cs (w\<lparr>sends := tl (sends w)\<rparr>)" by (rule srv_end_sends [OF srv_ok_end [OF ok]])
qed (use assms in simp_all)

lemma srv_waitI:
  assumes "srv_common A cs j v" and "srv_ok A cs j v" and "socket_polled v" and "si_last_ack_len j = 7"
    and "si_retry_count j < 10" and "\<exists>s. take 7 (si_last_ack j) = packet_bytes s FLAG_EOF_ACK []"
    and "nat (11 - si_retry_count j) + length (net v) < nat (11 - si_retry_count info) + length (net w)"
  shows "srv_next A cs WAIT_ON_DONE info w (WAIT_ON_DONE, j) v"
  using assms by (simp add: srv_inv_def srv_rank_def)

lemma post_wait_on_done_state:
  assumes inv: "srv_inv A cs WAIT_ON_DONE info w"
  shows "post (wait_on_done_state info) w (srv_next A cs WAIT_ON_DONE info w) (srv_end A cs)"
proof -
  from inv have i: "srv_common A cs info w" "socket_polled w" "srv_ok A cs info w"
    "si_last_ack_len info = 7" "\<exists>s. take 7 (si_last_ack info) = packet_bytes s FLAG_EOF_ACK []"
    and retry: "si_retry_count info < 10"
    by (simp_all add: srv_inv_def)
  let ?Q = "srv_next A cs WAIT_ON_DONE info w"
  show ?thesis
    unfolding wait_on_done_state_def
  proof (rule post_poll_recv [OF i(2)], simp)
    fix v
    assume v: "socket_polled v" "v = w\<lparr>net := tl (net w), pollFileDescriptors := pollFileDescriptors v\<rparr>"
    let ?i = "info\<lparr>si_retry_count := si_retry_count info + 1\<rparr>"
    have com: "srv_common A cs ?i v"
      by (rule srv_common_keep [OF i(1)])
        (use i(1) srv_poll [OF v(2)] data_auth_tl in \<open>simp_all add: srv_common_def\<close>)
    have ok: "srv_ok A cs ?i v"
      by (rule srv_ok_cong [OF i(3)]) (use srv_poll [OF v(2)] in simp_all)
    have nv: "length (net v) \<le> length (net w)" using srv_poll(4) [OF v(2)] by simp
    have la: "length (si_last_ack ?i) = SREJ_MAX_PACKET" using com by (simp add: srv_common_def)
    have "post (iobind (resend_last_ack ?i) (\<lambda>_. ret (WAIT_ON_DONE, ?i))) v ?Q (srv_end A cs)"
      if "\<not> si_retry_count ?i \<ge> 10"
    proof (rule post_seq [OF post_resend [OF ok _ la]])
      fix x u
      assume u: "srv_ok A cs ?i u \<and> net u = net v \<and> live u = live v \<and> socket_polled u = socket_polled v"
      have "srv_common A cs ?i u" by (rule srv_common_keep [OF com]) (use com u in \<open>simp_all add: srv_common_def\<close>)
      moreover have "nat (11 - si_retry_count ?i) + length (net u) < nat (11 - si_retry_count info) + length (net w)"
        using that nv u by simp
      ultimately have "srv_next A cs WAIT_ON_DONE info w (WAIT_ON_DONE, ?i) u"
        by (intro srv_waitI) (use that u v(1) i(4,5) in simp_all)
      then show "post (ret (WAIT_ON_DONE, ?i)) u ?Q (srv_end A cs)" by (simp only: post_ret)
    qed (use i(4,5) in simp_all)
    moreover have "post (ret (DONE, ?i)) v ?Q (srv_end A cs)"
      using com srv_ok_end [OF ok] retry by (simp add: srv_inv_def srv_rank_def less_eq_STATE_def)
    ultimately show "post (let info = ?i in if si_retry_count info \<ge> 10 then ret (DONE, info)
        else iobind (resend_last_ack info) (\<lambda>_. ret (WAIT_ON_DONE, info))) v ?Q (srv_end A cs)"
      by (simp only: Let_def split: if_split) blast
  next
    fix v es src m
    assume n: "net w = Arrives (Datagram src m) # es" and v: "socket_polled v"
      "v = w\<lparr>net := es, pollFileDescriptors := pollFileDescriptors v\<rparr>"
    let ?p = "take (nat (int SREJ_MAX_PACKET)) m"
    let ?i = "info\<lparr>si_client := src\<rparr>"
    have ok: "srv_ok A cs ?i v" by (rule srv_ok_poll(1) [OF i(3) v(2)])
    have com: "srv_common A cs ?i v"
      by (rule srv_common_keep [OF i(1)])
        (use i(1) srv_poll [OF v(2)] n data_auth_tl [of cs "net w"] in \<open>simp_all add: srv_common_def\<close>)
    have la: "length (si_last_ack ?i) = SREJ_MAX_PACKET" using com by (simp add: srv_common_def)
    have "length ?p \<le> SREJ_MAX_PACKET" by simp
    then have "int (length ?p) \<le> 65536" by linarith
    then obtain b where b: "check_packet ?p (int (length ?p)) = Inr b"
      using check_packet_defined [OF order_refl] by blast
    have wait: "post (ret (WAIT_ON_DONE, ?i)) u ?Q (srv_end A cs)"
      if u: "srv_ok A cs ?i u" "net u = net v" "live u = live v" "socket_polled u" for u
    proof -
      have "srv_common A cs ?i u" by (rule srv_common_keep [OF com]) (use com u in \<open>simp_all add: srv_common_def\<close>)
      then have "srv_next A cs WAIT_ON_DONE info w (WAIT_ON_DONE, ?i) u"
        by (rule srv_waitI) (use u n srv_poll(4) [OF v(2)] i(4,5) retry in simp_all)
      then show ?thesis by (simp only: post_ret)
    qed
    have stay: "post (ret (WAIT_ON_DONE, ?i)) v ?Q (srv_end A cs)" by (rule wait [OF ok]) (use v(1) in simp_all)
    have again: "post (iobind (resend_last_ack ?i) (\<lambda>_. ret (WAIT_ON_DONE, ?i))) v ?Q (srv_end A cs)"
      by (rule post_seq [OF post_resend [OF ok _ la]], use i(4,5) in simp, use i(4,5) in simp, rule wait)
        (use v(1) in auto)
    have stop: "post (ret (DONE, ?i)) v ?Q (srv_end A cs)"
      using com srv_ok_end [OF ok] retry by (simp add: srv_inv_def srv_rank_def less_eq_STATE_def)
    show "post ((\<lambda>(client, packet).
        let info = info\<lparr>si_client := client\<rparr>; packet_len = int (length packet) in
        iobind (lift_res (check_packet packet packet_len)) (\<lambda>ok.
          if \<not> ok then ret (WAIT_ON_DONE, info)
          else iobind (lift_res (get_flag packet)) (\<lambda>flag.
            if flag = FLAG_DONE then ret (DONE, info)
            else iobind (if flag = FLAG_EOF then resend_last_ack info else ret ()) (\<lambda>_.
              ret (WAIT_ON_DONE, info))))) (src, ?p)) v ?Q (srv_end A cs)"
    proof (cases b)
      case False
      with stay show ?thesis by (simp only: prod.case Let_def b iobind_eqs simp_thms if_True)
    next
      case True
      with b have chk: "check_packet ?p (int (length ?p)) = Inr True" by simp
      obtain f where f: "get_flag ?p = Inr f" using check_packet_True(4) [OF chk] by blast
      show ?thesis
      proof (cases "f = FLAG_EOF")
        case True
        then have "f \<noteq> FLAG_DONE" by simp
        with again True show ?thesis by (simp only: prod.case Let_def chk f iobind_eqs simp_thms if_False if_True)
      next
        case False
        from stay stop show ?thesis
          by (cases "f = FLAG_DONE") (simp_all only: prod.case Let_def chk f iobind_eqs False simp_thms if_False if_True)
      qed
    qed
  next
    fix v
    assume "v = w\<lparr>net := net v, pollFileDescriptors := pollFileDescriptors v\<rparr>"
    then show "srv_end A cs v" by (rule srv_ok_poll(3) [OF i(3)])
  qed
qed

lemma post_server_step:
  "srv_inv A cs st info w \<Longrightarrow> st \<noteq> DONE \<Longrightarrow>
    post (server_step junk st info) w (srv_next A cs st info w) (srv_end A cs)"
  using post_srv_start_state post_srv_filename_state post_recv_data_state post_wait_on_done_state
  by (cases st) (simp_all add: server_step_def)

lemma srv_rank_pos: "srv_inv A cs st info w \<Longrightarrow> st \<noteq> DONE \<Longrightarrow> 0 < srv_rank st info w"
  by (cases st) (simp_all add: srv_inv_def srv_rank_def)

text \<open>With as many turns as the rank, the loop is done, whatever the network does.\<close>

lemma post_server_loop:
  assumes "srv_inv A cs st info w" and "srv_rank st info w \<le> n"
  shows "post (server_loop junk n st info) w
    (\<lambda>r w'. \<exists>info'. r = Some info' \<and> srv_inv A cs DONE info' w') (srv_end A cs)"
  using assms
proof (induction n arbitrary: st info w)
  case 0
  with srv_rank_pos have "st = DONE" by fastforce
  with 0 show ?case by (simp add: server_loop.simps [of junk 0] post_def)
next
  case (Suc n)
  show ?case
  proof (cases "st = DONE")
    case False
    have "post (iobind (server_step junk st info) (\<lambda>(state, info). server_loop junk n state info)) w
        (\<lambda>r w'. \<exists>info'. r = Some info' \<and> srv_inv A cs DONE info' w') (srv_end A cs)"
      by (rule post_seq [OF post_server_step [OF Suc.prems(1) False]])
        (use Suc.IH Suc.prems(2) in \<open>fastforce split: prod.splits\<close>)
    with False show ?thesis by (simp only: server_loop.simps [of junk "Suc n"] nat.case if_False)
  qed (use Suc.prems in \<open>simp add: server_loop.simps [of junk "Suc n"] post_def\<close>)
qed

lemma takeWhile_zeros: "length (takeWhile (\<lambda>b. b \<noteq> 0) (xs @ replicate n (0 :: u8))) \<le> length xs"
  by (cases "0 \<in> set xs") (auto simp: takeWhile_append length_takeWhile_le)

text \<open>The name in the first packet ends inside the array unless a full packet has no NUL.\<close>

lemma c_string_padded:
  assumes "length packet \<le> SREJ_MAX_PACKET"
    and "length packet < SREJ_MAX_PACKET \<or> 0 \<in> set (drop 15 packet)"
  shows "\<exists>name. c_string (packet @ replicate (SREJ_MAX_PACKET - length packet) 0) 15 = Inr name"
proof -
  let ?a = "packet @ replicate (SREJ_MAX_PACKET - length packet) 0"
  have l: "length ?a = SREJ_MAX_PACKET" using assms(1) by simp
  have z: "0 \<in> set (drop 15 ?a)" using assms by auto
  have "length (takeWhile (\<lambda>b. b \<noteq> 0) (drop 15 ?a)) < length (drop 15 ?a)"
  proof (rule ccontr)
    assume "\<not> ?thesis"
    then have "takeWhile (\<lambda>b. b \<noteq> 0) (drop 15 ?a) = drop 15 ?a"
      by (metis length_takeWhile_le nat_less_le takeWhile_eq_take take_all_iff)
    then show False using z by (metis (mono_tags, lifting) set_takeWhileD)
  qed
  with l show ?thesis by (auto simp: c_string_def Let_def)
qed

lemma post_close_if_open:
  "(\<And>c. P () (w\<lparr>closed := c\<rparr>)) \<Longrightarrow> P () w \<Longrightarrow> post (close_if_open fd) w P E"
  by (simp add: close_if_open_def post_def sys_close_def)

lemma post_process_client:
  assumes len: "length packet \<le> SREJ_MAX_PACKET" "length packet < SREJ_MAX_PACKET \<or> 0 \<in> set (drop 15 packet)"
    and w: "hung w = []" "0 \<le> maxFileDescriptor w" "maxFileDescriptor w \<le> 10" "srv_log A cs 2 (\<lambda>_. None) w"
    and auth: "A \<Longrightarrow> data_auth cs (net w)" and n: "14 + length (net w) \<le> n"
  shows "post (process_client junk n main_socket packet (int (length packet)) client) w
    (\<lambda>r w'. r \<noteq> None \<and> srv_end A cs w') (srv_end A cs)"
proof -
  let ?fp = "packet @ replicate (SREJ_MAX_PACKET - length packet) 0"
  let ?info = "zero_ServerInfo\<lparr>si_first_packet := ?fp, si_client := client,
    si_first_packet_len := int (length packet), si_control_seq := 1\<rparr>"
  have rd: "mem_read packet 0 (int (length packet)) = Inr packet" by simp
  have wr: "mem_write (si_first_packet zero_ServerInfo) 0 packet = Inr ?fp"
    using len(1) by (simp add: zero_ServerInfo_def)
  let ?w = "w\<lparr>closed := closed w @ [main_socket]\<rparr>"
  have inv: "srv_inv A cs START ?info ?w"
    using w auth c_string_padded [OF len] len(1)
    by (simp add: srv_inv_def srv_common_def zero_ServerInfo_def zero_Buffer_def srv_log_def)
  have rank: "srv_rank START ?info ?w \<le> n" using n by (simp add: srv_rank_def)
  have cl: "post (sys_close main_socket) w (\<lambda>_ v. v = ?w) (srv_end A cs)"
    by (simp add: post_def sys_close_def)
  have "post (iobind (server_loop junk n START ?info) (\<lambda>r. case r of None \<Rightarrow> ret None
        | Some info \<Rightarrow> iobind (close_if_open (si_output_file info)) (\<lambda>_.
            iobind (close_if_open (si_socket_num info)) (\<lambda>_.
            iobind (buffer_free (si_buffer info)) (\<lambda>b. ret (Some (info\<lparr>si_buffer := b\<rparr>))))))) ?w
      (\<lambda>r w'. r \<noteq> None \<and> srv_end A cs w') (srv_end A cs)"
  proof (rule post_seq [OF post_server_loop [OF inv rank]])
    fix r v
    assume "\<exists>info'. r = Some info' \<and> srv_inv A cs DONE info' v"
    then obtain info where i: "r = Some info" "srv_common A cs info v" "srv_end A cs v"
      by (auto simp: srv_inv_def)
    have e: "srv_end A cs (v\<lparr>closed := c, live := l\<rparr>)" "srv_end A cs (v\<lparr>closed := c\<rparr>)" for c l
      by (rule srv_end_cong [OF i(3)]; simp)+
    have f: "post (iobind (buffer_free (si_buffer info)) (\<lambda>b. ret (Some (info\<lparr>si_buffer := b\<rparr>)))) (v\<lparr>closed := c\<rparr>)
        (\<lambda>r w'. r \<noteq> None \<and> srv_end A cs w') (srv_end A cs)" for c
      using i(2) e(1) e(2) [of c] by (auto simp: buffer_free_def post_def iobind_def sys_free_def srv_common_def)
    from f [of "closed v"] have f0: "post (iobind (buffer_free (si_buffer info)) (\<lambda>b. ret (Some (info\<lparr>si_buffer := b\<rparr>)))) v
        (\<lambda>r w'. r \<noteq> None \<and> srv_end A cs w') (srv_end A cs)" by simp
    show "post (case r of None \<Rightarrow> ret None
        | Some info \<Rightarrow> iobind (close_if_open (si_output_file info)) (\<lambda>_.
            iobind (close_if_open (si_socket_num info)) (\<lambda>_.
            iobind (buffer_free (si_buffer info)) (\<lambda>b. ret (Some (info\<lparr>si_buffer := b\<rparr>)))))) v
      (\<lambda>r w'. r \<noteq> None \<and> srv_end A cs w') (srv_end A cs)"
      unfolding i(1) option.case post_iobind [of "close_if_open _"]
      by (intro post_close_if_open) (use f f0 in \<open>simp_all del: post_iobind\<close>)
  qed
  then show ?thesis
    unfolding process_client_def rd wr iobind_eqs Let_def
    by (intro post_seq [OF cl]) simp
qed

section \<open>A standard input that is hung up\<close>

text \<open>
  The cleared entries of the poll table watch descriptor 0. When the standard input is hung up (the
  writer of a pipe has closed it) or closed, \<open>pollCall\<close> finds the entry ready at once, and the child,
  which takes any index for its socket, waits in \<open>recvfrom\<close> for ever on a quiet network: none of its
  timeouts works. The processes of the other theorems start with nothing hung up.
\<close>

lemma pollCall_hung_input:
  assumes "poll_set_ok w" and "0 < maxFileDescriptor w" and "p_fd (pollFileDescriptors w ! 0) = 0"
    and "0 \<in> set (hung w)" and "set (net w) \<subseteq> {Quiet}" and "0 \<le> t"
  shows "\<exists>fs. pollCall t w = (Inr 0, w\<lparr>pollFileDescriptors := fs\<rparr>)"
proof -
  let ?m = "maxFileDescriptor w"
  have "poll_wait ?m t w = net w" using assms(6) by (simp add: poll_wait_def)
  then have out: "call_outcome t w (net w)"
    using pollCall_outcome [of w t] assms(1) by (simp add: poll_set_ok_def)
  have r: "entry_ready w (net w) 0" using assms(3,4) by (simp add: entry_ready_def Let_def)
  then have ex: "\<exists>i. 0 \<le> i \<and> i < ?m \<and> entry_ready w (net w) i" using assms(2) by blast
  have q: "\<not> (\<exists>es. net w = PollError # es)" using assms(5) by auto
  obtain k where k: "pollCall t w = (Inr k, w\<lparr>net := net w, pollFileDescriptors := polled w (arrived (net w))\<rparr>)"
    "0 \<le> k" "\<forall>j. 0 \<le> j \<and> j < k \<longrightarrow> \<not> entry_ready w (net w) j"
    using call_outcome_ready [OF out ex q] by blast
  have "\<not> 0 < k" using k(3) r by blast
  then have "k = 0" using k(2) by simp
  moreover have "w\<lparr>net := net w, pollFileDescriptors := f\<rparr> = w\<lparr>pollFileDescriptors := f\<rparr>" for f by simp
  ultimately show ?thesis using k(1) by (intro exI [of _ "polled w (arrived (net w))"]) (simp only:)
qed

lemma recv_quiet_blocks: "set (net w) \<subseteq> {Quiet} \<Longrightarrow> safeRecvfrom len w = (Inl Blocked, w)"
proof -
  have "set es \<subseteq> {Quiet} \<Longrightarrow> next_arrival es = None" for es by (induction es rule: next_arrival.induct) auto
  then show "set (net w) \<subseteq> {Quiet} \<Longrightarrow> safeRecvfrom len w = (Inl Blocked, w)"
    by (simp add: safeRecvfrom_def sys_recvfrom_def iobind_def)
qed

theorem hung_input_blocks:
  assumes "poll_set_ok w" and "0 < maxFileDescriptor w" and "p_fd (pollFileDescriptors w ! 0) = 0"
    and "0 \<in> set (hung w)" and "set (net w) \<subseteq> {Quiet}"
  shows "fst (recv_data_state info w) = Inl Blocked" and "fst (wait_on_done_state info w) = Inl Blocked"
proof -
  obtain f where "pollCall POLL_TEN_SEC w = (Inr 0, w\<lparr>pollFileDescriptors := f\<rparr>)"
    using pollCall_hung_input [OF assms, of POLL_TEN_SEC] by auto
  with recv_quiet_blocks [of "w\<lparr>pollFileDescriptors := f\<rparr>"] assms(5)
  show "fst (recv_data_state info w) = Inl Blocked" by (simp add: recv_data_state_def iobind_def)
  obtain g where "pollCall POLL_ONE_SEC w = (Inr 0, w\<lparr>pollFileDescriptors := g\<rparr>)"
    using pollCall_hung_input [OF assms, of POLL_ONE_SEC] by auto
  with recv_quiet_blocks [of "w\<lparr>pollFileDescriptors := g\<rparr>"] assms(5)
  show "fst (wait_on_done_state info w) = Inl Blocked" by (simp add: wait_on_done_state_def iobind_def)
qed

end
