(* ===== verification/Window.thy ===== *)
theory Window
  imports PollLib
begin

text \<open>
  The sender's circular window (\<open>udpCode_spring26_v3/Window.h\<close>, \<open>Window.c\<close>): the packets
  sent and not yet acknowledged, slot \<open>seq % size\<close> for sequence number \<open>seq\<close>. The
  contract is stated on \<open>win_pending\<close>, the packets held by sequence number; the interface
  \<open>send_window\<close> is what the client relies on when it adds, resends and acknowledges.
\<close>

section \<open>Data\<close>

record WindowEntry =
  we_seq :: u32
  we_packet_len :: int
  we_used :: int
  we_packet :: bytes

record Window =
  win_entry :: "WindowEntry list"
  win_alloc :: bool
  win_size :: int
  win_lower :: u32
  win_current :: u32
  win_upper :: u32

definition zero_WindowEntry :: WindowEntry where
  "zero_WindowEntry = \<lparr>we_seq = 0, we_packet_len = 0, we_used = 0, we_packet = replicate SREJ_MAX_PACKET 0\<rparr>"

definition zero_Window :: Window where
  "zero_Window = \<lparr>win_entry = [], win_alloc = False, win_size = 0, win_lower = 0, win_current = 0, win_upper = 0\<rparr>"

section \<open>The code\<close>

definition window_init :: "Window \<Rightarrow> int \<Rightarrow> u32 \<Rightarrow> Window sys" where
  "window_init w sz start_seq =
    iobind (sys_calloc sz zero_WindowEntry) (\<lambda>r.
      case r of
        None \<Rightarrow> halts (Exit (- 1))
      | Some es \<Rightarrow> ret (w\<lparr>win_entry := es, win_alloc := True, win_size := sz,
          win_lower := start_seq, win_current := start_seq, win_upper := start_seq + word_of_int sz\<rparr>))"

definition window_free :: "Window \<Rightarrow> Window sys" where
  "window_free w =
    (if win_alloc w then iobind sys_free (\<lambda>_. ret (w\<lparr>win_entry := []\<rparr>)) else ret w)"

definition window_open :: "Window \<Rightarrow> bool" where
  "window_open w = (win_current w < win_upper w)"

definition window_empty :: "Window \<Rightarrow> bool" where
  "window_empty w = (win_lower w = win_current w)"

definition window_add :: "Window \<Rightarrow> u32 \<Rightarrow> bytes \<Rightarrow> int \<Rightarrow> Window res" where
  "window_add w seq packet packet_len =
    rbind (spot_of seq (win_size w)) (\<lambda>spot.
    rbind (arr_get (win_entry w) spot) (\<lambda>e.
    rbind (mem_read packet 0 packet_len) (\<lambda>p.
    rbind (mem_write (we_packet e) 0 p) (\<lambda>p'.
    rbind (arr_put (win_entry w) spot
      (e\<lparr>we_seq := seq, we_packet_len := packet_len, we_used := 1, we_packet := p'\<rparr>)) (\<lambda>es.
    Inr (if seq = win_current w
         then w\<lparr>win_entry := es, win_current := win_current w + 1\<rparr>
         else w\<lparr>win_entry := es\<rparr>))))))"

text \<open>The pointer that \<open>window_find\<close> returns is given as the entry it points to, or NULL.\<close>

definition window_find :: "Window \<Rightarrow> u32 \<Rightarrow> WindowEntry option res" where
  "window_find w seq =
    rbind (spot_of seq (win_size w)) (\<lambda>spot.
    rbind (arr_get (win_entry w) spot) (\<lambda>e.
    Inr (if we_used e = 1 \<and> we_seq e = seq then Some e else None)))"

function lowest_loop :: "Window \<Rightarrow> u32 \<Rightarrow> WindowEntry option res" where
  "lowest_loop w seq =
    (if seq < win_current w then
       rbind (window_find w seq) (\<lambda>entry.
         case entry of Some e \<Rightarrow> Inr (Some e) | None \<Rightarrow> lowest_loop w (seq + 1))
     else Inr None)"
  by pat_completeness auto
termination
  by (relation "measure (\<lambda>(w, seq). unat (win_current w) - unat seq)")
    (auto simp: unat_Suc_below word_less_nat_alt)

declare lowest_loop.simps [simp del]

definition window_lowest :: "Window \<Rightarrow> WindowEntry option res" where
  "window_lowest w = lowest_loop w (win_lower w)"

text \<open>The two loops of \<open>window_rr\<close>.\<close>

function rr_release :: "Window \<Rightarrow> u32 \<Rightarrow> u32 \<Rightarrow> Window res" where
  "rr_release w rr_seq seq =
    (if seq < rr_seq \<and> seq < win_current w then
       rbind (spot_of seq (win_size w)) (\<lambda>spot.
       rbind (arr_get (win_entry w) spot) (\<lambda>e.
       rbind (if we_seq e = seq then arr_put (win_entry w) spot (e\<lparr>we_used := 0\<rparr>) else Inr (win_entry w)) (\<lambda>es.
       rr_release (w\<lparr>win_entry := es\<rparr>) rr_seq (seq + 1))))
     else Inr w)"
  by pat_completeness auto
termination
  by (relation "measure (\<lambda>(w, rr_seq, seq). unat rr_seq - unat seq)")
    (auto simp: unat_Suc_below word_less_nat_alt)

declare rr_release.simps [simp del]

function rr_advance :: "Window \<Rightarrow> Window res" where
  "rr_advance w =
    (if win_lower w < win_current w then
       rbind (window_find w (win_lower w)) (\<lambda>entry.
         case entry of None \<Rightarrow> rr_advance (w\<lparr>win_lower := win_lower w + 1\<rparr>) | Some _ \<Rightarrow> Inr w)
     else Inr w)"
  by pat_completeness auto
termination
  by (relation "measure (\<lambda>w. unat (win_current w) - unat (win_lower w))")
    (auto simp: unat_Suc_below word_less_nat_alt)

declare rr_advance.simps [simp del]

definition window_rr :: "Window \<Rightarrow> u32 \<Rightarrow> Window res" where
  "window_rr w rr_seq =
    rbind (rr_release w rr_seq (win_lower w)) (\<lambda>w.
    rbind (rr_advance w) (\<lambda>w.
    Inr (w\<lparr>win_upper := win_lower w + word_of_int (win_size w)\<rparr>)))"

section \<open>Invariant and meaning\<close>

text \<open>A slot in use holds a packet in the slot of its sequence number.\<close>

definition wslot_ok :: "int \<Rightarrow> nat \<Rightarrow> WindowEntry \<Rightarrow> bool" where
  "wslot_ok sz i e \<longleftrightarrow> length (we_packet e) = SREJ_MAX_PACKET \<and>
    (we_used e = 1 \<longrightarrow> 0 \<le> we_packet_len e \<and> we_packet_len e \<le> int SREJ_MAX_PACKET \<and>
      unat (we_seq e) mod nat sz = i)"

definition win_shape :: "Window \<Rightarrow> bool" where
  "win_shape w \<longleftrightarrow> 0 < win_size w \<and> win_size w < 2 ^ 31 \<and>
    length (win_entry w) = nat (win_size w) \<and>
    (\<forall>i < nat (win_size w). wslot_ok (win_size w) i (win_entry w ! i))"

text \<open>The packet held under a sequence number.\<close>

definition win_pending :: "Window \<Rightarrow> nat \<Rightarrow> bytes option" where
  "win_pending w n =
    (let e = win_entry w ! (n mod nat (win_size w)) in
     if we_used e = 1 \<and> unat (we_seq e) = n then Some (take (nat (we_packet_len e)) (we_packet e)) else None)"

abbreviation win_lo :: "Window \<Rightarrow> nat" where "win_lo w \<equiv> unat (win_lower w)"
abbreviation win_cur :: "Window \<Rightarrow> nat" where "win_cur w \<equiv> unat (win_current w)"

text \<open>The packets held are exactly those from the lower edge up to the next one to send.\<close>

definition win_inv :: "Window \<Rightarrow> bool" where
  "win_inv w \<longleftrightarrow> win_shape w \<and> win_lo w \<le> win_cur w \<and> win_cur w \<le> win_lo w + nat (win_size w) \<and>
    win_upper w = win_lower w + word_of_int (win_size w) \<and>
    (\<forall>n. win_pending w n \<noteq> None \<longleftrightarrow> win_lo w \<le> n \<and> n < win_cur w)"

lemma win_shape_get:
  assumes "win_shape w"
  shows "spot_of seq (win_size w) = Inr (int (unat seq mod nat (win_size w)))"
    and "unat seq mod nat (win_size w) < length (win_entry w)"
    and "arr_get (win_entry w) (int (unat seq mod nat (win_size w))) =
      Inr (win_entry w ! (unat seq mod nat (win_size w)))"
    and "wslot_ok (win_size w) (unat seq mod nat (win_size w)) (win_entry w ! (unat seq mod nat (win_size w)))"
proof -
  show "spot_of seq (win_size w) = Inr (int (unat seq mod nat (win_size w)))"
    using assms by (intro spot_of_pos) (simp_all add: win_shape_def)
  show l: "unat seq mod nat (win_size w) < length (win_entry w)"
    using assms by (simp add: win_shape_def)
  then show "arr_get (win_entry w) (int (unat seq mod nat (win_size w))) =
      Inr (win_entry w ! (unat seq mod nat (win_size w)))" by (subst arr_get_Inr) simp_all
  show "wslot_ok (win_size w) (unat seq mod nat (win_size w)) (win_entry w ! (unat seq mod nat (win_size w)))"
    using assms by (simp add: win_shape_def)
qed

text \<open>\<open>window_find\<close> gives the entry of a held packet, and NULL for any other number.\<close>

definition entry_packet :: "WindowEntry \<Rightarrow> bytes \<Rightarrow> bool" where
  "entry_packet e p \<longleftrightarrow> length (we_packet e) = SREJ_MAX_PACKET \<and> 0 \<le> we_packet_len e \<and>
    we_packet_len e \<le> int SREJ_MAX_PACKET \<and> p = take (nat (we_packet_len e)) (we_packet e)"

lemma window_find_cases:
  assumes "win_shape w"
  obtains "window_find w seq = Inr None" "win_pending w (unat seq) = None"
  | e p where "window_find w seq = Inr (Some e)" "win_pending w (unat seq) = Some p" "entry_packet e p"
    "we_seq e = seq"
proof -
  let ?e = "win_entry w ! (unat seq mod nat (win_size w))"
  note g = win_shape_get [OF assms, of seq]
  have f: "window_find w seq = Inr (if we_used ?e = 1 \<and> we_seq ?e = seq then Some ?e else None)"
    using g by (simp add: window_find_def)
  show ?thesis
  proof (cases "we_used ?e = 1 \<and> we_seq ?e = seq")
    case True
    with g(4) have "entry_packet ?e (take (nat (we_packet_len ?e)) (we_packet ?e))"
      by (simp add: entry_packet_def wslot_ok_def)
    with True f that(2) show ?thesis by (simp add: win_pending_def)
  next
    case False
    then have "win_pending w (unat seq) = None" by (auto simp: win_pending_def Let_def word_unat_eq_iff)
    moreover have "window_find w seq = Inr None" using False unfolding f by simp
    ultimately show ?thesis using that(1) by blast
  qed
qed

text \<open>Replacing the slot of a number.\<close>

lemma win_put_slot:
  assumes s: "win_shape w" and e: "wslot_ok (win_size w) (unat seq mod nat (win_size w)) e" "we_seq e = seq"
    and only: "\<And>n. n mod nat (win_size w) = unat seq mod nat (win_size w) \<Longrightarrow> n \<noteq> unat seq \<Longrightarrow>
      win_pending w n = None"
    and w': "win_entry w' = (win_entry w)[unat seq mod nat (win_size w) := e]" "win_size w' = win_size w"
  shows "win_shape w'"
    and "win_pending w' = (win_pending w)(unat seq :=
      (if we_used e = 1 then Some (take (nat (we_packet_len e)) (we_packet e)) else None))"
proof -
  let ?i = "unat seq mod nat (win_size w)"
  have i: "?i < length (win_entry w)" by (rule win_shape_get(2) [OF s])
  show "win_shape w'"
    using s e(1) w' by (auto simp: win_shape_def nth_list_update)
  show "win_pending w' = (win_pending w)(unat seq :=
      (if we_used e = 1 then Some (take (nat (we_packet_len e)) (we_packet e)) else None))"
  proof
    fix n
    consider "n = unat seq" | "n \<noteq> unat seq" "n mod nat (win_size w) = ?i" | "n mod nat (win_size w) \<noteq> ?i"
      by blast
    then show "win_pending w' n = ((win_pending w)(unat seq :=
      (if we_used e = 1 then Some (take (nat (we_packet_len e)) (we_packet e)) else None))) n"
    proof cases
      case 1
      with i e(2) w' show ?thesis by (simp add: win_pending_def)
    next
      case 2
      with only [OF 2(2,1)] i e(2) w' show ?thesis by (simp add: win_pending_def)
    next
      case 3
      then show ?thesis using w' by (auto simp: win_pending_def Let_def)
    qed
  qed
qed

section \<open>Adding\<close>

lemma window_open_iff:
  assumes "win_inv w"
  shows "window_open w \<longleftrightarrow>
    win_lo w + nat (win_size w) < 4294967296 \<and> win_cur w < win_lo w + nat (win_size w)"
  using assms unat_less_2_32 [of "win_lower w"]
  by (auto simp: window_open_def word_less_nat_alt win_inv_def win_shape_def unat_u32_numeral_add)

lemma window_add_spec:
  assumes inv: "win_inv w" and opn: "window_open w"
    and len: "0 \<le> packet_len" "packet_len \<le> int SREJ_MAX_PACKET" "packet_len \<le> int (length packet)"
  shows "\<exists>w'. window_add w (win_current w) packet packet_len = Inr w' \<and> win_inv w' \<and>
    w' = w\<lparr>win_entry := win_entry w', win_current := win_current w + 1\<rparr> \<and>
    win_cur w' = Suc (win_cur w) \<and>
    win_pending w' = (win_pending w)(win_cur w \<mapsto> take (nat packet_len) packet)"
proof -
  let ?N = "nat (win_size w)"
  let ?i = "win_cur w mod ?N"
  let ?e = "win_entry w ! ?i"
  have s: "win_shape w" and pend: "\<And>n. win_pending w n \<noteq> None \<longleftrightarrow> win_lo w \<le> n \<and> n < win_cur w"
    and lo: "win_lo w \<le> win_cur w" and up: "win_upper w = win_lower w + word_of_int (win_size w)"
    using inv by (simp_all add: win_inv_def)
  have c: "win_cur w < win_lo w + ?N" "win_lo w + ?N < 4294967296"
    using opn window_open_iff [OF inv] by simp_all
  then have suc: "unat (win_current w + 1) = Suc (win_cur w)" by (simp add: unat_Suc_u32)
  note g = win_shape_get [OF s, of "win_current w"]
  let ?p = "take (nat packet_len) packet @ drop (nat packet_len) (we_packet ?e)"
  let ?e' = "?e\<lparr>we_seq := win_current w, we_packet_len := packet_len, we_used := 1, we_packet := ?p\<rparr>"
  let ?w = "w\<lparr>win_entry := (win_entry w)[?i := ?e'], win_current := win_current w + 1\<rparr>"
  have pl: "length (take (nat packet_len) packet) = nat packet_len" "nat packet_len \<le> SREJ_MAX_PACKET"
    using len by simp_all
  have wl: "length (we_packet ?e) = SREJ_MAX_PACKET" using g(4) by (simp add: wslot_ok_def)
  have "mem_write (we_packet ?e) 0 (take (nat packet_len) packet) = Inr ?p"
    unfolding mem_write_def pl using pl(2) wl by simp
  then have add: "window_add w (win_current w) packet packet_len = Inr ?w"
    using g len by (simp add: window_add_def)
  have only: "win_pending w n = None" if "n mod ?N = ?i" "n \<noteq> win_cur w" for n
  proof (rule ccontr)
    assume "win_pending w n \<noteq> None"
    then have "win_lo w \<le> n" "n < win_cur w" using pend by auto
    with same_slot_eq [OF that(1), of "win_lo w"] lo c(1) have "n = win_cur w" by linarith
    with that(2) show False ..
  qed
  have ok: "wslot_ok (win_size w) ?i ?e'" using len wl pl by (simp add: wslot_ok_def)
  have slot: "win_shape ?w"
    "win_pending ?w = (win_pending w)(win_cur w \<mapsto> take (nat packet_len) packet)"
    using win_put_slot [OF s ok _ only, of ?w] pl by simp_all
  have "win_pending ?w n \<noteq> None \<longleftrightarrow> win_lo w \<le> n \<and> n < Suc (win_cur w)" for n
    using pend [of n] lo by (auto simp: slot(2))
  then have "win_inv ?w"
    using slot(1) suc lo c(1) up by (simp add: win_inv_def)
  then show ?thesis using add slot(2) suc by simp
qed

section \<open>Looking up the lowest packet\<close>

lemma window_lowest_spec:
  assumes "win_inv w"
  shows "win_lower w = win_current w \<and> window_lowest w = Inr None \<or>
    (\<exists>e p. window_lowest w = Inr (Some e) \<and> win_pending w (win_lo w) = Some p \<and> entry_packet e p)"
proof (cases "win_lo w < win_cur w")
  case True
  have s: "win_shape w" and p: "win_pending w (win_lo w) \<noteq> None"
    using assms True by (simp_all add: win_inv_def)
  from s obtain e p where "window_find w (win_lower w) = Inr (Some e)"
    "win_pending w (win_lo w) = Some p" "entry_packet e p"
    by (rule window_find_cases [of w "win_lower w"]) (use p in auto)
  with True show ?thesis
    by (simp add: window_lowest_def lowest_loop.simps [of w "win_lower w"] word_less_nat_alt)
next
  case False
  with assms have "win_lo w = win_cur w" by (simp add: win_inv_def)
  then have "win_lower w = win_current w" by (simp only: word_unat_eq_iff)
  then show ?thesis
    by (simp add: window_lowest_def lowest_loop.simps [of w "win_current w"])
qed

section \<open>Acknowledging\<close>

text \<open>The first loop of \<open>window_rr\<close> releases the held packets below the acknowledged number.\<close>

lemma rr_release_spec:
  assumes "win_shape w" and "\<forall>n. unat seq \<le> n \<and> n < min (unat rr_seq) (win_cur w) \<longrightarrow> win_pending w n \<noteq> None"
  shows "\<exists>w'. rr_release w rr_seq seq = Inr w' \<and> win_shape w' \<and> w' = w\<lparr>win_entry := win_entry w'\<rparr> \<and>
    (\<forall>n. win_pending w' n =
      (if unat seq \<le> n \<and> n < min (unat rr_seq) (win_cur w) then None else win_pending w n))"
  using assms
proof (induction w rr_seq seq rule: rr_release.induct)
  case (1 w rr_seq seq)
  show ?case
  proof (cases "seq < rr_seq \<and> seq < win_current w")
    case True
    then have lt: "unat seq < min (unat rr_seq) (win_cur w)" by (simp add: word_less_nat_alt)
    let ?i = "unat seq mod nat (win_size w)"
    let ?e = "win_entry w ! ?i"
    note g = win_shape_get [OF "1.prems"(1), of seq]
    from "1.prems"(2) lt have "win_pending w (unat seq) \<noteq> None" by simp
    then have e: "we_used ?e = 1" "we_seq ?e = seq"
      by (auto simp: win_pending_def Let_def word_unat_eq_iff split: if_splits)
    let ?w = "w\<lparr>win_entry := (win_entry w)[?i := ?e\<lparr>we_used := 0\<rparr>]\<rparr>"
    have only: "win_pending w n = None" if "n mod nat (win_size w) = ?i" "n \<noteq> unat seq" for n
      using that e(2) by (auto simp: win_pending_def)
    have slot: "win_shape ?w" "win_pending ?w = (win_pending w)(unat seq := None)"
      using win_put_slot [OF "1.prems"(1) _ _ only, of seq "?e\<lparr>we_used := 0\<rparr>" ?w] g(4) e(2)
      by (simp_all add: wslot_ok_def)
    have suc: "unat (seq + 1) = Suc (unat seq)" using True by (blast intro: unat_Suc_below)
    have put: "arr_put (win_entry w) (int ?i) (?e\<lparr>we_used := 0\<rparr>) = Inr (win_entry ?w)"
      using g(2) by (subst arr_put_Inr) simp_all
    have "\<forall>n. unat (seq + 1) \<le> n \<and> n < min (unat rr_seq) (win_cur ?w) \<longrightarrow> win_pending ?w n \<noteq> None"
      using "1.prems"(2) by (simp add: slot(2) suc)
    then obtain w' where w': "rr_release ?w rr_seq (seq + 1) = Inr w'" "win_shape w'"
      "w' = ?w\<lparr>win_entry := win_entry w'\<rparr>"
      "\<forall>n. win_pending w' n = (if Suc (unat seq) \<le> n \<and> n < min (unat rr_seq) (win_cur w) then None
        else win_pending ?w n)"
      using "1.IH" [OF True g(1) g(3), of "win_entry ?w"] put slot(1) e(2) suc by auto
    have "rr_release w rr_seq seq = Inr w'"
      using True g(1,3) e(2) put w'(1) by (simp add: rr_release.simps [of w rr_seq seq])
    moreover have "win_pending w' n = (if unat seq \<le> n \<and> n < min (unat rr_seq) (win_cur w) then None
        else win_pending w n)" for n
      using w'(4) lt by (auto simp: slot(2))
    moreover have "w' = w\<lparr>win_entry := win_entry w'\<rparr>" using w'(3) by simp
    ultimately show ?thesis using w'(2) by blast
  next
    case False
    then have "rr_release w rr_seq seq = Inr w" by (auto simp: rr_release.simps [of w rr_seq seq])
    with False "1.prems"(1) show ?thesis by (auto simp: word_less_nat_alt)
  qed
qed

text \<open>The second loop moves the lower edge to the first packet still held.\<close>

lemma rr_advance_spec:
  assumes "win_shape w" and "win_lo w \<le> m" "m \<le> win_cur w"
    and "\<forall>n. win_lo w \<le> n \<and> n < m \<longrightarrow> win_pending w n = None"
    and "m < win_cur w \<longrightarrow> win_pending w m \<noteq> None"
  shows "\<exists>w'. rr_advance w = Inr w' \<and> w' = w\<lparr>win_lower := win_lower w'\<rparr> \<and> win_lo w' = m"
  using assms
proof (induction w rule: rr_advance.induct)
  case (1 w)
  show ?case
  proof (cases "win_lo w = m")
    case True
    show ?thesis
    proof (cases "m < win_cur w")
      case True
      from "1.prems"(1) obtain e where "window_find w (win_lower w) = Inr (Some e)"
        by (rule window_find_cases [of w "win_lower w"]) (use "1.prems"(5) True \<open>win_lo w = m\<close> in auto)
      with True \<open>win_lo w = m\<close> show ?thesis
        by (simp add: rr_advance.simps [of w] word_less_nat_alt)
    next
      case False
      with True show ?thesis by (simp add: rr_advance.simps [of w] word_less_nat_alt)
    qed
  next
    case False
    with "1.prems"(2,3) have lt: "win_lower w < win_current w" "win_lo w < m"
      by (simp_all add: word_less_nat_alt)
    from "1.prems"(1) have f: "window_find w (win_lower w) = Inr None"
      by (rule window_find_cases [of w "win_lower w"]) (use "1.prems"(4) lt(2) in auto)
    let ?w = "w\<lparr>win_lower := win_lower w + 1\<rparr>"
    have p: "win_pending ?w = win_pending w" by (simp add: fun_eq_iff win_pending_def)
    have "\<exists>w'. rr_advance ?w = Inr w' \<and> w' = ?w\<lparr>win_lower := win_lower w'\<rparr> \<and> win_lo w' = m"
      using "1.IH" [OF lt(1) f refl] "1.prems" lt
      by (simp add: unat_Suc_below p) (simp add: win_shape_def)
    with lt(1) f show ?thesis by (simp add: rr_advance.simps [of w])
  qed
qed

lemma window_rr_spec:
  assumes inv: "win_inv w"
  shows "\<exists>w'. window_rr w rr_seq = Inr w' \<and> win_inv w' \<and>
    w' = w\<lparr>win_entry := win_entry w', win_lower := win_lower w', win_upper := win_upper w'\<rparr> \<and>
    win_lo w' = max (win_lo w) (min (unat rr_seq) (win_cur w)) \<and>
    (\<forall>n. win_pending w' n = (if win_lo w' \<le> n then win_pending w n else None))"
proof -
  let ?m = "max (win_lo w) (min (unat rr_seq) (win_cur w))"
  have s: "win_shape w" and pend: "\<And>n. win_pending w n \<noteq> None \<longleftrightarrow> win_lo w \<le> n \<and> n < win_cur w"
    and lo: "win_lo w \<le> win_cur w" and cur: "win_cur w \<le> win_lo w + nat (win_size w)"
    using inv by (simp_all add: win_inv_def)
  obtain v where v: "rr_release w rr_seq (win_lower w) = Inr v" "win_shape v" "v = w\<lparr>win_entry := win_entry v\<rparr>"
    "\<forall>n. win_pending v n = (if win_lo w \<le> n \<and> n < min (unat rr_seq) (win_cur w) then None else win_pending w n)"
    using rr_release_spec [OF s, of "win_lower w" rr_seq] pend by auto
  have vw: "win_lower v = win_lower w" "win_current v = win_current w" "win_size v = win_size w"
    by (subst v(3), simp)+
  have p: "win_pending v n = (if ?m \<le> n then win_pending w n else None)" for n
    using pend [of n] v(4) by (cases "win_pending w n") auto
  have "?m < win_cur w \<longrightarrow> win_pending v ?m \<noteq> None" using pend [of ?m] p by simp
  moreover have "\<forall>n. win_lo w \<le> n \<and> n < ?m \<longrightarrow> win_pending v n = None" using p by auto
  ultimately obtain u where u: "rr_advance v = Inr u" "u = v\<lparr>win_lower := win_lower u\<rparr>" "win_lo u = ?m"
    using rr_advance_spec [OF v(2), of ?m] lo unfolding vw by auto
  let ?w = "u\<lparr>win_upper := win_lower u + word_of_int (win_size u)\<rparr>"
  have uv: "win_entry u = win_entry v" "win_current u = win_current w" "win_size u = win_size w"
    by (subst u(2), simp add: vw)+
  have pu: "win_pending ?w = win_pending v"
    by (simp add: fun_eq_iff win_pending_def uv vw)
  have shape: "win_shape ?w" using v(2) by (simp add: win_shape_def uv vw)
  have "win_pending ?w n \<noteq> None \<longleftrightarrow> ?m \<le> n \<and> n < win_cur w" for n
    using pend [of n] p [of n] pu by auto
  then have "win_inv ?w"
    using shape u(3) lo cur by (simp add: win_inv_def uv)
  moreover have "window_rr w rr_seq = Inr ?w" using v(1) u(1) by (simp add: window_rr_def)
  moreover have "?w = w\<lparr>win_entry := win_entry ?w, win_lower := win_lower ?w, win_upper := win_upper ?w\<rparr>"
    using v(3) u(2) by (cases w, cases v, cases u) simp
  ultimately show ?thesis using u(3) p pu by auto
qed

lemma post_window_init:
  assumes "0 < sz" and "sz < 2 ^ 31"
  shows "post (window_init w sz start_seq) s
    (\<lambda>w' s'. win_inv w' \<and> win_alloc w' \<and> win_size w' = sz \<and> win_lower w' = start_seq \<and> win_current w' = start_seq \<and>
      (\<forall>n. win_pending w' n = None) \<and> s' = s\<lparr>allocs := tl (allocs s), live := Suc (live s)\<rparr>)
    (\<lambda>s'. allocs s \<noteq> [] \<and> s' = s\<lparr>allocs := tl (allocs s)\<rparr>)"
proof -
  have m: "n mod nat sz < nat sz" for n :: nat using assms by simp
  show ?thesis
    using assms
    by (auto simp: post_def window_init_def iobind_def sys_calloc_def win_inv_def win_shape_def
        win_pending_def wslot_ok_def zero_WindowEntry_def m)
qed

section \<open>The interface to the client\<close>

text \<open>
  What the client relies on. \<open>adds\<close> holds a new packet under the next number, \<open>acks\<close> is
  an acknowledgement of everything below a number.
\<close>

locale send_window =
  fixes inv :: "'w \<Rightarrow> bool"
    and low :: "'w \<Rightarrow> nat"
    and cur :: "'w \<Rightarrow> nat"
    and held :: "'w \<Rightarrow> nat \<Rightarrow> bytes option"
    and adds :: "'w \<Rightarrow> bytes \<Rightarrow> 'w \<Rightarrow> bool"
    and acks :: "'w \<Rightarrow> nat \<Rightarrow> 'w \<Rightarrow> bool"
  assumes held_dom: "inv w \<Longrightarrow> held w n \<noteq> None \<longleftrightarrow> low w \<le> n \<and> n < cur w"
    and order: "inv w \<Longrightarrow> low w \<le> cur w"
    and adds: "inv w \<Longrightarrow> adds w p w' \<Longrightarrow>
      inv w' \<and> low w' = low w \<and> cur w' = Suc (cur w) \<and> held w' = (held w)(cur w \<mapsto> p)"
    and acks: "inv w \<Longrightarrow> acks w r w' \<Longrightarrow>
      inv w' \<and> cur w' = cur w \<and> low w' = max (low w) (min r (cur w)) \<and>
      (\<forall>n. held w' n = (if low w' \<le> n then held w n else None))"
begin

text \<open>Every packet held is the one sent under its number.\<close>

definition holds_stream :: "'w \<Rightarrow> (nat \<Rightarrow> bytes) \<Rightarrow> bool" where
  "holds_stream w f \<longleftrightarrow> (\<forall>n p. held w n = Some p \<longrightarrow> p = f n)"

lemma adds_stream:
  assumes "inv w" and "holds_stream w f" and "adds w (f (cur w)) w'"
  shows "holds_stream w' f"
  using adds [OF assms(1,3)] assms(2) by (simp add: holds_stream_def)

lemma acks_stream:
  assumes "inv w" and "holds_stream w f" and "acks w r w'"
  shows "holds_stream w' f"
  using acks [OF assms(1,3)] assms(2) by (auto simp: holds_stream_def split: if_splits)

text \<open>A stale acknowledgement changes nothing that is held, and no acknowledgement releases a
  packet at or above its number.\<close>

lemma stale_ack:
  assumes "inv w" and "acks w r w'" and "r \<le> low w"
  shows "low w' = low w" and "held w' = held w"
proof -
  note a = acks [OF assms(1,2)]
  show l: "low w' = low w" using a assms(3) by simp
  show "held w' = held w"
  proof
    fix n
    show "held w' n = held w n" using a held_dom [OF assms(1), of n] l by auto
  qed
qed

lemma unacked_kept:
  assumes "inv w" and "acks w r w'" and "r \<le> n"
  shows "held w' n = held w n"
  using acks [OF assms(1,2)] held_dom [OF assms(1), of n] assms(3) by auto

text \<open>Acknowledgements commute: two in either order leave what the larger leaves alone.\<close>

lemma acks_low:
  assumes "inv w" and "acks w r w'" and "acks w' s w''"
  shows "low w'' = max (low w) (min (max r s) (cur w))"
  using acks [OF assms(1,2)] acks [OF _ assms(3)] order [OF assms(1)] by auto

end

definition window_adds :: "Window \<Rightarrow> bytes \<Rightarrow> Window \<Rightarrow> bool" where
  "window_adds w p w' \<longleftrightarrow> window_open w \<and> (\<exists>packet len. 0 \<le> len \<and> len \<le> int SREJ_MAX_PACKET \<and>
    len \<le> int (length packet) \<and> p = take (nat len) packet \<and>
    window_add w (win_current w) packet len = Inr w')"

definition window_acks :: "Window \<Rightarrow> nat \<Rightarrow> Window \<Rightarrow> bool" where
  "window_acks w r w' \<longleftrightarrow> (\<exists>rr_seq. r = unat rr_seq \<and> window_rr w rr_seq = Inr w')"

interpretation sliding: send_window win_inv win_lo win_cur win_pending window_adds window_acks
proof unfold_locales
  fix w n
  assume inv: "win_inv w"
  show "win_pending w n \<noteq> None \<longleftrightarrow> win_lo w \<le> n \<and> n < win_cur w"
    using inv by (simp add: win_inv_def)
  show "win_lo w \<le> win_cur w" using inv by (simp add: win_inv_def)
next
  fix w p w'
  assume inv: "win_inv w" and "window_adds w p w'"
  then obtain packet len where l: "window_open w" "0 \<le> len" "len \<le> int SREJ_MAX_PACKET"
    "len \<le> int (length packet)" "p = take (nat len) packet" "window_add w (win_current w) packet len = Inr w'"
    by (auto simp: window_adds_def)
  from window_add_spec [OF inv l(1-4)] l(5,6) have w': "win_inv w'"
    "w' = w\<lparr>win_entry := win_entry w', win_current := win_current w + 1\<rparr>"
    "win_cur w' = Suc (win_cur w)" "win_pending w' = (win_pending w)(win_cur w \<mapsto> p)"
    by auto
  moreover from w'(2) have "win_lower w' = win_lower w" by (cases w, cases w') simp
  ultimately show "win_inv w' \<and> win_lo w' = win_lo w \<and> win_cur w' = Suc (win_cur w) \<and>
      win_pending w' = (win_pending w)(win_cur w \<mapsto> p)" by simp
next
  fix w r w'
  assume inv: "win_inv w" and "window_acks w r w'"
  then obtain rr_seq where r: "r = unat rr_seq" "window_rr w rr_seq = Inr w'" by (auto simp: window_acks_def)
  from window_rr_spec [OF inv, of rr_seq] r have w': "win_inv w'"
    "w' = w\<lparr>win_entry := win_entry w', win_lower := win_lower w', win_upper := win_upper w'\<rparr>"
    "win_lo w' = max (win_lo w) (min r (win_cur w))"
    "\<forall>n. win_pending w' n = (if win_lo w' \<le> n then win_pending w n else None)"
    by auto
  moreover from w'(2) have "win_current w' = win_current w" by (cases w, cases w') simp
  ultimately show "win_inv w' \<and> win_cur w' = win_cur w \<and> win_lo w' = max (win_lo w) (min r (win_cur w)) \<and>
      (\<forall>n. win_pending w' n = (if win_lo w' \<le> n then win_pending w n else None))" by simp
qed

section \<open>Properties\<close>

text \<open>C16: an acknowledgement \<open>RR n\<close> moves the lower edge to \<open>n\<close>, never back and never past
  what was sent, releases exactly the packets below the new edge and keeps all others; both
  loops of \<open>window_rr\<close> terminate inside the array.\<close>

theorem window_rr_releases:
  assumes "win_inv w"
  shows "\<exists>w'. window_rr w rr_seq = Inr w' \<and> win_inv w' \<and>
    unat (win_lower w') = max (unat (win_lower w)) (min (unat rr_seq) (unat (win_current w))) \<and>
    win_current w' = win_current w \<and>
    (\<forall>n. win_pending w' n = (if unat (win_lower w') \<le> n then win_pending w n else None))"
proof -
  from window_rr_spec [OF assms, of rr_seq] obtain w' where w': "window_rr w rr_seq = Inr w'" "win_inv w'"
    "w' = w\<lparr>win_entry := win_entry w', win_lower := win_lower w', win_upper := win_upper w'\<rparr>"
    "win_lo w' = max (win_lo w) (min (unat rr_seq) (win_cur w))"
    "\<forall>n. win_pending w' n = (if win_lo w' \<le> n then win_pending w n else None)" by blast
  from w'(3) have "win_current w' = win_current w" by (cases w, cases w') simp
  with w' show ?thesis by blast
qed

definition demo_window :: Window where
  "demo_window = \<lparr>win_entry = [zero_WindowEntry\<lparr>we_seq := 4, we_packet_len := 2, we_used := 1,
      we_packet := 7 # 8 # replicate 1405 0\<rparr>, zero_WindowEntry\<lparr>we_seq := 5, we_packet_len := 1, we_used := 1,
      we_packet := 9 # replicate 1406 0\<rparr>, zero_WindowEntry, zero_WindowEntry\<lparr>we_seq := 3, we_packet_len := 1,
      we_used := 1, we_packet := 6 # replicate 1406 0\<rparr>],
    win_alloc = True, win_size = 4, win_lower = 3, win_current = 6, win_upper = 7\<rparr>"

lemma mod4_cases: "n mod 4 = 0 \<or> n mod 4 = 1 \<or> n mod 4 = 2 \<or> n mod 4 = 3" for n :: nat
  by linarith

lemma demo_window_pending:
  "win_pending demo_window n = (if n = 3 then Some [6] else if n = 4 then Some [7, 8]
    else if n = 5 then Some [9] else None)"
proof -
  have e: "win_entry demo_window ! (n mod 4) = (if n mod 4 = 0 then win_entry demo_window ! 0 else
      if n mod 4 = 1 then win_entry demo_window ! 1 else
      if n mod 4 = 2 then win_entry demo_window ! 2 else win_entry demo_window ! 3)"
    using mod4_cases [of n] by auto
  have s: "nat (win_size demo_window) = 4" by (simp add: demo_window_def)
  have d: "we_used (win_entry demo_window ! 0) = 1" "we_seq (win_entry demo_window ! 0) = 4"
    "take (nat (we_packet_len (win_entry demo_window ! 0))) (we_packet (win_entry demo_window ! 0)) = [7, 8]"
    "we_used (win_entry demo_window ! 1) = 1" "we_seq (win_entry demo_window ! 1) = 5"
    "take (nat (we_packet_len (win_entry demo_window ! 1))) (we_packet (win_entry demo_window ! 1)) = [9]"
    "we_used (win_entry demo_window ! 2) = 0"
    "we_used (win_entry demo_window ! 3) = 1" "we_seq (win_entry demo_window ! 3) = 3"
    "take (nat (we_packet_len (win_entry demo_window ! 3))) (we_packet (win_entry demo_window ! 3)) = [6]"
    by (simp_all add: demo_window_def zero_WindowEntry_def)
  show ?thesis unfolding win_pending_def Let_def s e using mod4_cases [of n] by (auto simp: d simp del: One_nat_def)
qed

lemma demo_window_inv: "win_inv demo_window"
proof -
  have four: "i = 0 \<or> i = 1 \<or> i = 2 \<or> i = 3" if "i < 4" for i :: nat using that by linarith
  have "win_shape demo_window"
    by (auto simp: win_shape_def wslot_ok_def demo_window_def zero_WindowEntry_def dest!: four)
  moreover have "win_lower demo_window = 3" "win_current demo_window = 6" "win_size demo_window = 4"
    "win_upper demo_window = 7" by (simp_all add: demo_window_def)
  ultimately show ?thesis by (auto simp: win_inv_def demo_window_pending split: if_splits)
qed

theorem window_rr_releases_witness:
  "\<exists>w'. window_rr demo_window 5 = Inr w' \<and> win_pending w' 4 = None \<and> win_pending w' 5 = Some [9]"
proof -
  have "win_lower demo_window = 3" "win_current demo_window = 6" by (simp_all add: demo_window_def)
  with window_rr_releases [OF demo_window_inv, of 5] show ?thesis
    by (auto simp: demo_window_pending)
qed

text \<open>C17: in an open window, adding the packet with the next number is defined, keeps the
  invariant (at most \<open>size\<close> packets between the edges, each in its own slot), advances the
  next number by one without wrapping, stores the packet under its number and disturbs no
  unacknowledged one.\<close>

theorem window_add_refines_map:
  assumes "win_inv w" and "window_open w"
    and "0 \<le> packet_len" "packet_len \<le> int SREJ_MAX_PACKET" "packet_len \<le> int (length packet)"
  shows "\<exists>w'. window_add w (win_current w) packet packet_len = Inr w' \<and> win_inv w' \<and>
    unat (win_current w') = Suc (unat (win_current w)) \<and>
    win_pending w' = (win_pending w)(unat (win_current w) \<mapsto> take (nat packet_len) packet)"
  using window_add_spec [OF assms] by blast

theorem window_add_refines_map_witness:
  "\<exists>w'. window_add demo_window 6 [1, 2] 2 = Inr w' \<and> win_pending w' 6 = Some [1, 2] \<and>
    win_pending w' 3 = Some [6]"
proof -
  have "window_open demo_window" "win_current demo_window = 6"
    by (simp_all add: demo_window_def window_open_def)
  with window_add_refines_map [OF demo_window_inv, of 2 "[1, 2]"] show ?thesis
    by (auto simp: demo_window_pending)
qed

text \<open>\<open>window_lowest\<close> returns the oldest unacknowledged packet, and NULL exactly when
  everything sent has been acknowledged.\<close>

theorem window_lowest_oldest:
  assumes "win_inv w"
  shows "if window_empty w then window_lowest w = Inr None
    else \<exists>e. window_lowest w = Inr (Some e) \<and>
      win_pending w (unat (win_lower w)) = Some (take (nat (we_packet_len e)) (we_packet e))"
proof (cases "window_empty w")
  case True
  then show ?thesis
    by (simp add: window_empty_def window_lowest_def lowest_loop.simps [of w "win_current w"])
next
  case False
  then show ?thesis
    using window_lowest_spec [OF assms] by (auto simp: window_empty_def entry_packet_def)
qed

theorem window_lowest_oldest_witness:
  "\<exists>e. window_lowest demo_window = Inr (Some e) \<and> [6] = take (nat (we_packet_len e)) (we_packet e)"
proof -
  have "\<not> window_empty demo_window" "win_lower demo_window = 3"
    by (simp_all add: demo_window_def window_empty_def)
  with window_lowest_oldest [OF demo_window_inv] show ?thesis by (simp add: demo_window_pending)
qed

text \<open>C27: sequence numbers do not wrap around in this program. Once the upper edge would pass
  \<open>2 ^ 32\<close> the window is closed, and no acknowledgement opens it again.\<close>

theorem window_closed_at_wrap:
  assumes "win_inv w" and "unat (win_lower w) + nat (win_size w) \<ge> 2 ^ 32"
  shows "\<not> window_open w \<and> (\<exists>w'. window_rr w rr_seq = Inr w' \<and> win_inv w' \<and> \<not> window_open w' \<and>
    unat (win_lower w') + nat (win_size w') \<ge> 2 ^ 32)"
proof -
  obtain w' where w': "window_rr w rr_seq = Inr w'" "win_inv w'" "win_lo w \<le> win_lo w'"
    "w' = w\<lparr>win_entry := win_entry w', win_lower := win_lower w', win_upper := win_upper w'\<rparr>"
    using window_rr_spec [OF assms(1), of rr_seq] by auto
  from w'(4) have "win_size w' = win_size w" by (cases w, cases w') simp
  with w' show ?thesis
    using assms window_open_iff [OF assms(1)] window_open_iff [OF w'(2)] by auto
qed

theorem window_closed_at_wrap_witness:
  "\<not> window_open (demo_window\<lparr>win_entry := replicate 4 zero_WindowEntry, win_lower := 0xFFFFFFFE,
      win_current := 0xFFFFFFFE, win_upper := 2\<rparr>)"
proof -
  let ?w = "demo_window\<lparr>win_entry := replicate 4 zero_WindowEntry, win_lower := 0xFFFFFFFE,
      win_current := 0xFFFFFFFE, win_upper := 2\<rparr>"
  have "n mod 4 < (4 :: nat)" for n by simp
  then have "win_inv ?w"
    by (simp add: win_inv_def win_shape_def wslot_ok_def win_pending_def demo_window_def zero_WindowEntry_def)
  from window_closed_at_wrap [OF this, of 0] show ?thesis by (simp add: demo_window_def)
qed

text \<open>Acknowledgements commute: after any two of them, in either order, the lower edge is
  where the larger one alone would have put it (the client's interface on this window).\<close>

theorem window_rr_order_irrelevant:
  assumes "win_inv w" and "window_rr w r = Inr w1" and "window_rr w1 s = Inr w2"
  shows "unat (win_lower w2) = max (unat (win_lower w)) (min (max (unat r) (unat s)) (unat (win_current w)))"
  by (rule sliding.acks_low [OF assms(1)]) (use assms(2,3) in \<open>auto simp: window_acks_def\<close>)

theorem window_rr_order_irrelevant_witness:
  "\<exists>w1 w2. window_rr demo_window 5 = Inr w1 \<and> window_rr w1 4 = Inr w2 \<and> unat (win_lower w2) = 5"
proof -
  obtain w1 where w1: "window_rr demo_window 5 = Inr w1" "win_inv w1"
    using window_rr_spec [OF demo_window_inv, of 5] by blast
  obtain w2 where w2: "window_rr w1 4 = Inr w2" using window_rr_spec [OF w1(2), of 4] by blast
  from window_rr_order_irrelevant [OF demo_window_inv w1(1) w2] w1 w2 show ?thesis
    by (auto simp: demo_window_def)
qed

end
