(* ===== verification/Rcopy.thy ===== *)
theory Rcopy
  imports Complex_Main Networks Window CText
begin

text \<open>
  The client (\<open>udpCode_spring26_v3/rcopy.h\<close>, \<open>rcopy.c\<close>): the command line, the state
  machine START_STATE, FILENAME, SEND_DATA, WAIT_ON_ACK, SEND_EOF, DONE and the handling of
  control packets. A state function takes and returns the client's \<open>RcopyInfo\<close>. A received
  packet is the list of the bytes received, as in the server. Command line arguments are C
  strings without their NUL.
\<close>

section \<open>Data\<close>

datatype STATE = START_STATE | FILENAME | SEND_DATA | WAIT_ON_ACK | SEND_EOF | DONE

record RcopyInfo =
  ri_socket_num :: int
  ri_input_file :: int
  ri_window_size :: int
  ri_buffer_size :: int
  ri_file_done :: int
  ri_had_error :: int
  ri_retry_count :: int
  ri_control_seq :: u32
  ri_server :: addr
  ri_window :: Window

abbreviation (input) MAX_TRIES :: int where "MAX_TRIES \<equiv> 10"
abbreviation (input) FIRST_SEQ :: u32 where "FIRST_SEQ \<equiv> 1"
abbreviation (input) POLL_NOW :: int where "POLL_NOW \<equiv> 0"
abbreviation (input) POLL_ONE_SEC :: int where "POLL_ONE_SEC \<equiv> 1000"

definition zero_RcopyInfo :: RcopyInfo where
  "zero_RcopyInfo = \<lparr>ri_socket_num = 0, ri_input_file = 0, ri_window_size = 0, ri_buffer_size = 0,
    ri_file_done = 0, ri_had_error = 0, ri_retry_count = 0, ri_control_seq = 0, ri_server = (0, 0),
    ri_window = zero_Window\<rparr>"

section \<open>The command line\<close>

text \<open>\<open>error_rate\<close> is the value of \<open>atof (argv[5])\<close>.\<close>

definition check_number_args :: "bytes list \<Rightarrow> rat \<Rightarrow> unit res" where
  "check_number_args argv error_rate =
    rbind (arr_get argv 3) (\<lambda>a3.
    rbind (arr_get argv 4) (\<lambda>a4.
      let window_size = atoi a3; buffer_size = atoi a4 in
      if window_size \<le> 0 \<or> window_size \<ge> 1073741824 then Inl (Exit (- 1))
      else if buffer_size \<le> 0 \<or> buffer_size > int SREJ_MAX_DATA then Inl (Exit (- 1))
      else if error_rate < 0 \<or> error_rate > 1 then Inl (Exit (- 1))
      else Inr ()))"

definition check_args :: "bytes list \<Rightarrow> rat \<Rightarrow> unit res" where
  "check_args argv error_rate =
    (if length argv \<noteq> 8 then Inl (Exit (- 1))
     else rbind (arr_get argv 1) (\<lambda>a1.
       rbind (arr_get argv 2) (\<lambda>a2.
         if length a1 > SREJ_MAX_NAME \<or> length a2 > SREJ_MAX_NAME then Inl (Exit (- 1))
         else check_number_args argv error_rate)))"

section \<open>Control packets\<close>

definition resend_packet :: "RcopyInfo \<Rightarrow> WindowEntry \<Rightarrow> unit sys" where
  "resend_packet info entry = safeSendto (we_packet entry) (we_packet_len entry) (ri_server info)"

definition handle_rr :: "RcopyInfo \<Rightarrow> bytes \<Rightarrow> int \<Rightarrow> RcopyInfo res" where
  "handle_rr info packet packet_len =
    (if packet_len < int SREJ_HEADER_LEN + 4 then Inr info
     else rbind (read_u32 packet SREJ_HEADER_LEN) (\<lambda>rr_seq.
       rbind (window_rr (ri_window info) rr_seq) (\<lambda>win. Inr (info\<lparr>ri_window := win\<rparr>))))"

definition handle_reject :: "RcopyInfo \<Rightarrow> bytes \<Rightarrow> int \<Rightarrow> unit sys" where
  "handle_reject info packet packet_len =
    (if packet_len < int SREJ_HEADER_LEN + 4 then ret ()
     else iobind (lift_res (read_u32 packet SREJ_HEADER_LEN)) (\<lambda>missing_seq.
       iobind (lift_res (window_find (ri_window info) missing_seq)) (\<lambda>entry.
         case entry of Some e \<Rightarrow> resend_packet info e | None \<Rightarrow> ret ())))"

text \<open>One turn of the loop of \<open>process_controls\<close>: receive, check, handle; was it a control packet?\<close>

definition controls_turn :: "RcopyInfo \<Rightarrow> (RcopyInfo \<times> bool) sys" where
  "controls_turn info =
    iobind (safeRecvfrom (int SREJ_MAX_PACKET)) (\<lambda>(server, packet).
      let info = info\<lparr>ri_server := server\<rparr>; packet_len = int (length packet) in
      iobind (lift_res (check_packet packet packet_len)) (\<lambda>ok.
        if \<not> ok then ret (info, False)
        else iobind (lift_res (get_flag packet)) (\<lambda>flag.
          if flag = FLAG_RR then
            iobind (lift_res (handle_rr info packet packet_len)) (\<lambda>info. ret (info, True))
          else if flag = FLAG_SREJ then
            iobind (handle_reject info packet packet_len) (\<lambda>_. ret (info, True))
          else ret (info, False))))"

text \<open>The bound on the loop: every turn takes an arrival off the socket.\<close>

lemma sys_recvfrom_net:
  "sys_recvfrom len w = (Inr r, w') \<Longrightarrow> length (net w') < length (net w)"
  by (auto simp: sys_recvfrom_def dest!: next_arrival_suffix split: option.splits arrival.splits)

lemma safeRecvfrom_net:
  "safeRecvfrom len w = (Inr r, w') \<Longrightarrow> length (net w') < length (net w)"
  by (auto simp: safeRecvfrom_def iobind_def dest!: sys_recvfrom_net
      split: prod.splits sum.splits option.splits)

lemma safeSendto_keeps:
  "safeSendto buf len dst w = (r, w') \<Longrightarrow> net w' = net w \<and> in_rest w' = in_rest w"
  by (auto simp: safeSendto_def sys_sendto_def iobind_def split: if_splits prod.splits sum.splits)

lemma pollCall_keeps:
  "pollCall t w = (r, w') \<Longrightarrow> length (net w') \<le> length (net w) \<and> in_rest w' = in_rest w"
  by (auto dest!: pollCall_frame)

lemma handle_reject_keeps:
  "handle_reject info p n w = (r, w') \<Longrightarrow> net w' = net w \<and> in_rest w' = in_rest w"
  by (auto simp: handle_reject_def resend_packet_def iobind_def dest: safeSendto_keeps
      split: if_splits prod.splits sum.splits option.splits)

lemma iobind_Inr_cases:
  assumes "iobind m f w = (Inr y, v)"
  obtains x u where "m w = (Inr x, u)" and "f x u = (Inr y, v)"
  using assms by (auto simp: iobind_def split: prod.splits sum.splits)

lemma controls_turn_net:
  assumes "controls_turn info w = (Inr x, w')"
  shows "length (net w') < length (net w)"
proof -
  from assms obtain r u where "safeRecvfrom (int SREJ_MAX_PACKET) w = (Inr r, u)" and "net w' = net u"
    unfolding controls_turn_def
    by (elim iobind_Inr_cases)
      (auto simp: Let_def elim!: iobind_Inr_cases dest!: handle_reject_keeps split: prod.splits if_splits)
  with safeRecvfrom_net show ?thesis by metis
qed

function controls_loop :: "RcopyInfo \<Rightarrow> int \<Rightarrow> int \<Rightarrow> (RcopyInfo \<times> int) sys" where
  "controls_loop info ready_socket count w =
    (if ready_socket \<ge> 0 then
       iobind (controls_turn info) (\<lambda>turn. iobind (pollCall POLL_NOW) (\<lambda>ready_socket.
         controls_loop (fst turn) ready_socket (if snd turn then count + 1 else count))) w
     else (Inr (info, count), w))"
  by pat_completeness auto
termination
  by (relation "measure (\<lambda>(info, ready, count, w). length (net w))")
    (auto dest!: controls_turn_net pollCall_keeps)

declare controls_loop.simps [simp del]

definition process_controls :: "RcopyInfo \<Rightarrow> int \<Rightarrow> (RcopyInfo \<times> int) sys" where
  "process_controls info wait_time =
    iobind (pollCall wait_time) (\<lambda>ready_socket. controls_loop info ready_socket 0)"

section \<open>Sending the file\<close>

text \<open>The bound on the loop of \<open>send_data_state\<close>: every turn that goes on has read a byte.\<close>

lemma safeRecvfrom_in_rest: "safeRecvfrom len w = (r, w') \<Longrightarrow> in_rest w' = in_rest w"
  by (auto simp: safeRecvfrom_def sys_recvfrom_def iobind_def
      split: prod.splits sum.splits option.splits arrival.splits)

lemma controls_turn_in_rest:
  assumes "controls_turn info w = (Inr x, w')"
  shows "in_rest w' = in_rest w"
  using assms unfolding controls_turn_def
  by (elim iobind_Inr_cases)
    (auto simp: Let_def elim!: iobind_Inr_cases dest!: handle_reject_keeps safeRecvfrom_in_rest
      split: prod.splits if_splits)

lemma controls_loop_in_rest:
  "controls_loop info ready count w = (Inr x, w') \<Longrightarrow> in_rest w' = in_rest w"
proof (induction info ready count w rule: controls_loop.induct)
  case (1 info ready count w)
  show ?case
  proof (cases "ready \<ge> 0")
    case True
    with "1.prems" obtain turn u ready' v where t: "controls_turn info w = (Inr turn, u)"
      "pollCall POLL_NOW u = (Inr ready', v)"
      "controls_loop (fst turn) ready' (if snd turn then count + 1 else count) v = (Inr x, w')"
      unfolding controls_loop.simps [of info ready count w] by (auto elim!: iobind_Inr_cases)
    from "1.IH" [OF True t] controls_turn_in_rest [OF t(1)] pollCall_keeps [OF t(2)] show ?thesis by simp
  next
    case False
    with "1.prems" show ?thesis by (simp add: controls_loop.simps [of info ready count w])
  qed
qed

lemma process_controls_in_rest:
  "process_controls info t w = (Inr x, w') \<Longrightarrow> in_rest w' = in_rest w"
  unfolding process_controls_def
  by (elim iobind_Inr_cases) (simp add: controls_loop_in_rest pollCall_keeps)

text \<open>
  Reading into the 1400-byte array and building the packet; \<open>None\<close> as the state means that the
  loop ended, \<open>Some\<close> that the function returned inside it.
\<close>

definition send_chunk :: "RcopyInfo \<Rightarrow> bytes \<Rightarrow> int \<Rightarrow> RcopyInfo sys" where
  "send_chunk info bs data_len =
    iobind (lift_res (mem_write (uninit SREJ_MAX_DATA) 0 bs)) (\<lambda>data.
      let send_seq = win_current (ri_window info) in
      iobind (lift_res (make_packet (uninit SREJ_MAX_PACKET) send_seq FLAG_DATA data data_len)) (\<lambda>(packet, packet_len).
      iobind (safeSendto packet packet_len (ri_server info)) (\<lambda>_.
      iobind (lift_res (window_add (ri_window info) send_seq packet packet_len)) (\<lambda>win.
      iobind (process_controls (info\<lparr>ri_window := win, ri_retry_count := 0\<rparr>) POLL_NOW) (\<lambda>r.
      ret (fst r))))))"

lemma send_chunk_in_rest:
  assumes "send_chunk info bs n w = (Inr x, w')"
  shows "in_rest w' = in_rest w"
  using assms unfolding send_chunk_def Let_def
  by (elim iobind_Inr_cases)
    (auto elim!: iobind_Inr_cases dest!: process_controls_in_rest safeSendto_keeps split: prod.splits)

lemma sys_read_in_rest:
  assumes "sys_read n w = (Inr r, w')" and "snd r > 0"
  shows "length (in_rest w') < length (in_rest w)"
proof -
  have k: "snd r = read_amount w n" "in_rest w' = drop (nat (read_amount w n)) (in_rest w)"
    using assms(1) by (auto simp: sys_read_def Let_def)
  have "read_amount w n \<le> int (length (in_rest w))"
    by (auto simp: read_amount_def Let_def split: list.split read_answer.split)
  with k assms(2) show ?thesis by auto
qed

function send_data_loop :: "RcopyInfo \<Rightarrow> (STATE option \<times> RcopyInfo) sys" where
  "send_data_loop info w =
    (if window_open (ri_window info) \<and> ri_file_done info = 0 then
       iobind (sys_read (ri_buffer_size info)) (\<lambda>r w.
         if snd r < 0 then (Inr (Some DONE, info\<lparr>ri_had_error := 1\<rparr>), w)
         else if snd r = 0 then (Inr (None, info\<lparr>ri_file_done := 1\<rparr>), w)
         else iobind (send_chunk info (fst r) (snd r)) (\<lambda>info. send_data_loop info) w) w
     else (Inr (None, info), w))"
  by pat_completeness auto
termination
  by (relation "measure (\<lambda>(info, w). length (in_rest w))")
    (auto dest!: sys_read_in_rest send_chunk_in_rest)

declare send_data_loop.simps [simp del]

definition send_data_state :: "RcopyInfo \<Rightarrow> (STATE \<times> RcopyInfo) sys" where
  "send_data_state info =
    iobind (send_data_loop info) (\<lambda>(early, info).
      case early of
        Some st \<Rightarrow> ret (st, info)
      | None \<Rightarrow>
          if ri_file_done info = 1 \<and> window_empty (ri_window info) then ret (SEND_EOF, info)
          else ret (WAIT_ON_ACK, info))"

definition wait_on_ack_state :: "RcopyInfo \<Rightarrow> (STATE \<times> RcopyInfo) sys" where
  "wait_on_ack_state info =
    iobind (process_controls info POLL_ONE_SEC) (\<lambda>(info, got_control).
      if got_control > 0 then ret (SEND_DATA, info\<lparr>ri_retry_count := 0\<rparr>)
      else iobind (lift_res (window_lowest (ri_window info))) (\<lambda>entry.
        case entry of
          None \<Rightarrow> ret (SEND_DATA, info)
        | Some e \<Rightarrow>
            let info = info\<lparr>ri_retry_count := ri_retry_count info + 1\<rparr> in
            if ri_retry_count info \<ge> MAX_TRIES then ret (DONE, info\<lparr>ri_had_error := 1\<rparr>)
            else iobind (resend_packet info e) (\<lambda>_. ret (WAIT_ON_ACK, info))))"

section \<open>Setup and teardown\<close>

definition send_final_done :: "RcopyInfo \<Rightarrow> unit sys" where
  "send_final_done info =
    iobind (lift_res (make_packet (uninit SREJ_MAX_PACKET) (win_current (ri_window info) + 1) FLAG_DONE [] 0))
      (\<lambda>(packet, packet_len). iobind (safeSendto packet packet_len (ri_server info)) (\<lambda>_. ret ()))"

text \<open>The loop of \<open>send_eof_state\<close> from \<open>tries\<close> on.\<close>

function send_eof_loop :: "RcopyInfo \<Rightarrow> bytes \<Rightarrow> int \<Rightarrow> int \<Rightarrow> (STATE \<times> RcopyInfo) sys" where
  "send_eof_loop info packet packet_len tries =
    (if tries < MAX_TRIES then
       iobind (safeSendto packet packet_len (ri_server info)) (\<lambda>_.
       iobind (pollCall POLL_ONE_SEC) (\<lambda>ready.
         if ready < 0 then send_eof_loop info packet packet_len (tries + 1)
         else iobind (safeRecvfrom (int SREJ_MAX_PACKET)) (\<lambda>(server, in_packet).
           let info = info\<lparr>ri_server := server\<rparr> in
           iobind (lift_res (check_packet in_packet (int (length in_packet)))) (\<lambda>ok.
           iobind (if ok then lift_res (get_flag in_packet) else ret 0) (\<lambda>flag.
             if ok \<and> flag = FLAG_EOF_ACK then iobind (send_final_done info) (\<lambda>_. ret (DONE, info))
             else send_eof_loop info packet packet_len (tries + 1))))))
     else ret (DONE, info\<lparr>ri_had_error := 1\<rparr>))"
  by pat_completeness auto
termination
  by (relation "measure (\<lambda>(info, packet, packet_len, tries). nat (10 - tries))") auto

declare send_eof_loop.simps [simp del]

definition send_eof_state :: "RcopyInfo \<Rightarrow> (STATE \<times> RcopyInfo) sys" where
  "send_eof_state info =
    iobind (lift_res (make_packet (uninit SREJ_MAX_PACKET) (win_current (ri_window info)) FLAG_EOF [] 0))
      (\<lambda>(packet, packet_len). send_eof_loop info packet packet_len 0)"

text \<open>The loop of \<open>send_filename_packet\<close>: 1 for an accepted name, 0 otherwise.\<close>

function filename_loop :: "RcopyInfo \<Rightarrow> bytes \<Rightarrow> int \<Rightarrow> int \<Rightarrow> (bool \<times> RcopyInfo) sys" where
  "filename_loop info packet packet_len tries =
    (if tries < MAX_TRIES then
       iobind (safeSendto packet packet_len (ri_server info)) (\<lambda>_.
       iobind (pollCall POLL_ONE_SEC) (\<lambda>ready.
         if ready < 0 then filename_loop info packet packet_len (tries + 1)
         else iobind (safeRecvfrom (int SREJ_MAX_PACKET)) (\<lambda>(server, in_packet).
           let info = info\<lparr>ri_server := server\<rparr>; in_len = int (length in_packet) in
           iobind (lift_res (check_packet in_packet in_len)) (\<lambda>ok.
           iobind (if ok then lift_res (get_flag in_packet) else ret 0) (\<lambda>flag.
             if ok \<and> flag = FLAG_FILENAME_RESP then
               if in_len < int SREJ_HEADER_LEN + 1 then ret (False, info)
               else iobind (lift_res (arr_get in_packet (int SREJ_HEADER_LEN))) (\<lambda>value.
                 if value \<noteq> 0 then ret (False, info)
                 else ret (True, info\<lparr>ri_control_seq := ri_control_seq info + 1\<rparr>))
             else filename_loop info packet packet_len (tries + 1))))))
     else ret (False, info))"
  by pat_completeness auto
termination
  by (relation "measure (\<lambda>(info, packet, packet_len, tries). nat (10 - tries))") auto

declare filename_loop.simps [simp del]

definition send_filename_packet :: "bytes \<Rightarrow> RcopyInfo \<Rightarrow> (bool \<times> RcopyInfo) sys" where
  "send_filename_packet out_name info =
    (let name_len = int (length out_name) + 1 in
     iobind (lift_res (write_u32 (uninit (SREJ_MAX_NAME + 9)) 0 (word_of_int (ri_window_size info)))) (\<lambda>payload.
     iobind (lift_res (write_u32 payload 4 (word_of_int (ri_buffer_size info)))) (\<lambda>payload.
     iobind (lift_res (mem_write payload 8 (out_name @ [0]))) (\<lambda>payload.
     iobind (lift_res (make_packet (uninit SREJ_MAX_PACKET) (ri_control_seq info) FLAG_FILENAME payload (name_len + 8)))
       (\<lambda>(packet, packet_len). filename_loop info packet packet_len 0)))))"

definition open_input_file :: "bytes \<Rightarrow> int sys" where
  "open_input_file file_name =
    iobind (sys_open_read file_name) (\<lambda>fd. if fd < 0 then halts (Exit (- 1)) else ret fd)"

section \<open>The state machine\<close>

definition start_state :: "(nat \<Rightarrow> pollfd) \<Rightarrow> bytes list \<Rightarrow> RcopyInfo \<Rightarrow> (STATE \<times> RcopyInfo) sys" where
  "start_state junk argv info =
    iobind (lift_res (arr_get argv 7)) (\<lambda>a7.
    iobind (lift_res (arr_get argv 3)) (\<lambda>a3.
    iobind (lift_res (arr_get argv 4)) (\<lambda>a4.
    iobind (lift_res (arr_get argv 1)) (\<lambda>a1.
      let port_number = atoi a7 in
      iobind (open_input_file a1) (\<lambda>input_file.
      iobind (setupUdpClientToServer port_number) (\<lambda>(socket_num, server).
        let info = info\<lparr>ri_window_size := atoi a3, ri_buffer_size := atoi a4, ri_input_file := input_file,
          ri_socket_num := socket_num, ri_server := (fst server, htons (word_of_int port_number)),
          ri_control_seq := FIRST_SEQ\<rparr> in
        iobind setupPollSet (\<lambda>_.
        iobind (addToPollSet junk socket_num) (\<lambda>_.
        ret (FILENAME, info)))))))))"

definition filename_state :: "bytes list \<Rightarrow> RcopyInfo \<Rightarrow> (STATE \<times> RcopyInfo) sys" where
  "filename_state argv info =
    iobind (lift_res (arr_get argv 2)) (\<lambda>a2.
    iobind (send_filename_packet a2 info) (\<lambda>(accepted, info).
      if accepted then
        iobind (window_init (ri_window info) (ri_window_size info) (ri_control_seq info)) (\<lambda>win.
        ret (SEND_DATA, info\<lparr>ri_window := win\<rparr>))
      else ret (DONE, info\<lparr>ri_had_error := 1\<rparr>)))"

definition rcopy_step :: "(nat \<Rightarrow> pollfd) \<Rightarrow> bytes list \<Rightarrow> STATE \<Rightarrow> RcopyInfo \<Rightarrow> (STATE \<times> RcopyInfo) sys" where
  "rcopy_step junk argv state info =
    (case state of
       START_STATE \<Rightarrow> start_state junk argv info
     | FILENAME \<Rightarrow> filename_state argv info
     | SEND_DATA \<Rightarrow> send_data_state info
     | WAIT_ON_ACK \<Rightarrow> wait_on_ack_state info
     | SEND_EOF \<Rightarrow> send_eof_state info
     | DONE \<Rightarrow> ret (DONE, info))"

text \<open>The loop \<open>while (state != DONE)\<close>, for at most \<open>n\<close> turns: \<open>None\<close> is a run cut short.\<close>

fun rcopy_loop :: "(nat \<Rightarrow> pollfd) \<Rightarrow> bytes list \<Rightarrow> nat \<Rightarrow> STATE \<Rightarrow> RcopyInfo \<Rightarrow> RcopyInfo option sys" where
  "rcopy_loop junk argv n state info =
    (if state = DONE then ret (Some info)
     else case n of
       0 \<Rightarrow> ret None
     | Suc m \<Rightarrow> iobind (rcopy_step junk argv state info) (\<lambda>(state, info). rcopy_loop junk argv m state info))"

declare rcopy_loop.simps [simp del]

definition close_positive :: "int \<Rightarrow> unit sys" where
  "close_positive fd = (if fd > 0 then sys_close fd else ret ())"

text \<open>The exit status of the process: 0, or -1 after an error.\<close>

definition process_file :: "(nat \<Rightarrow> pollfd) \<Rightarrow> nat \<Rightarrow> bytes list \<Rightarrow> int option sys" where
  "process_file junk n argv =
    iobind (rcopy_loop junk argv n START_STATE zero_RcopyInfo) (\<lambda>r.
      case r of
        None \<Rightarrow> ret None
      | Some info \<Rightarrow>
          iobind (close_positive (ri_input_file info)) (\<lambda>_.
          iobind (close_positive (ri_socket_num info)) (\<lambda>_.
          iobind (window_free (ri_window info)) (\<lambda>_.
          ret (Some (if ri_had_error info = 1 then - 1 else 0))))))"

text \<open>\<open>main\<close>: \<open>error_rate\<close> is the value of \<open>atof (argv[5])\<close>.\<close>

definition rcopy_main :: "(nat \<Rightarrow> pollfd) \<Rightarrow> nat \<Rightarrow> bytes list \<Rightarrow> rat \<Rightarrow> int option sys" where
  "rcopy_main junk n argv error_rate =
    iobind (lift_res (check_args argv error_rate)) (\<lambda>_. process_file junk n argv)"

end
