(* ===== verification/Rcopy_Correct.thy ===== *)
theory Rcopy_Correct
  imports Rcopy Stream
begin

text \<open>
  Correctness of the client. The invariant holds on any network: no undefined operation, every
  packet sent is a data packet of the file's chunks under its own number or one of the three
  control packets, and the window holds exactly the unacknowledged data packets. A client that
  ends without an error has sent the whole file and has seen an acknowledgement of its end.
\<close>

section \<open>What the client has sent\<close>

definition cli_other :: "bytes \<Rightarrow> bool" where
  "cli_other m \<longleftrightarrow> (\<exists>s f d. m = packet_bytes s f d \<and> length d \<le> 109 \<and>
    (f = FLAG_FILENAME \<or> f = FLAG_EOF \<or> f = FLAG_DONE))"

definition cli_msg :: "bytes list \<Rightarrow> bytes \<Rightarrow> bool" where
  "cli_msg cs m \<longleftrightarrow> (\<exists>k < length cs. m = data_packet cs k) \<or> cli_other m"

definition cli_log :: "bytes \<Rightarrow> bytes list \<Rightarrow> world \<Rightarrow> bool" where
  "cli_log F cs w \<longleftrightarrow> chunks_ok cs \<and> (\<exists>u. F = concat cs @ u) \<and> (\<forall>x \<in> set (sent w). cli_msg cs (snd x))"

definition cli_end :: "bytes \<Rightarrow> world \<Rightarrow> bool" where
  "cli_end F w \<longleftrightarrow> (\<exists>cs. cli_log F cs w)"

lemma cli_otherI:
  "length d \<le> 109 \<Longrightarrow> f = FLAG_FILENAME \<or> f = FLAG_EOF \<or> f = FLAG_DONE \<Longrightarrow> cli_other (packet_bytes s f d)"
  unfolding cli_other_def by blast

lemma cli_log_cong: "cli_log F cs w \<Longrightarrow> sent v = sent w \<Longrightarrow> cli_log F cs v"
  by (simp add: cli_log_def)

lemma cli_end_cong: "cli_end F w \<Longrightarrow> sent v = sent w \<Longrightarrow> cli_end F v"
  by (simp add: cli_end_def cli_log_def)

lemma cli_endI: "cli_log F cs w \<Longrightarrow> cli_end F w"
  unfolding cli_end_def by blast

lemma cli_log_send:
  "cli_log F cs w \<Longrightarrow> cli_msg cs m \<Longrightarrow> sent v = sent w @ [(c, m)] \<Longrightarrow> cli_log F cs v"
  by (auto simp: cli_log_def)

lemma cli_msg_append: "cli_msg cs m \<Longrightarrow> cli_msg (cs @ [c]) m"
  by (auto simp: cli_msg_def data_packet_append) (metis data_packet_append less_SucI)

section \<open>The window and the stream\<close>

text \<open>An RR of at least \<open>v\<close> is among the arrivals.\<close>

definition rr_seen :: "net_event list \<Rightarrow> nat \<Rightarrow> bool" where
  "rr_seen N v \<longleftrightarrow> (\<exists>a m r. Arrives (Datagram a m) \<in> set N \<and>
    check_packet (take SREJ_MAX_PACKET m) (int (length (take SREJ_MAX_PACKET m))) = Inr True \<and>
    get_flag (take SREJ_MAX_PACKET m) = Inr FLAG_RR \<and>
    read_u32 (take SREJ_MAX_PACKET m) SREJ_HEADER_LEN = Inr r \<and> v \<le> unat r)"

definition cli_win :: "net_event list \<Rightarrow> bytes list \<Rightarrow> Window \<Rightarrow> bool" where
  "cli_win N cs win \<longleftrightarrow> win_inv win \<and> win_cur win = 2 + length cs \<and> 2 \<le> win_lo win \<and>
    sliding.holds_stream win (\<lambda>n. data_packet cs (n - 2)) \<and>
    (win_lo win = 2 \<or> rr_seen N (win_lo win))"

definition cli_ok :: "bytes \<Rightarrow> net_event list \<Rightarrow> bytes list \<Rightarrow> RcopyInfo \<Rightarrow> world \<Rightarrow> bool" where
  "cli_ok F N cs info w \<longleftrightarrow> socket_polled w \<and> cli_win N cs (ri_window info) \<and> cli_log F cs w \<and>
    set (net w) \<subseteq> set N \<and> 0 < ri_buffer_size info \<and> ri_buffer_size info \<le> int SREJ_MAX_DATA \<and>
    (win_alloc (ri_window info) \<longrightarrow> 0 < live w)"

lemma cli_win_pending:
  assumes "cli_win N cs win" and "win_pending win n = Some p"
  shows "2 \<le> n" "n < 2 + length cs" "p = data_packet cs (n - 2)"
proof -
  have i: "win_inv win" "win_cur win = 2 + length cs" "2 \<le> win_lo win" using assms(1) by (simp_all add: cli_win_def)
  from sliding.held_dom [OF i(1), of n] assms(2) i show "2 \<le> n" "n < 2 + length cs" by auto
  show "p = data_packet cs (n - 2)"
    using assms by (simp add: cli_win_def sliding.holds_stream_def)
qed

text \<open>What handling control packets leaves alone.\<close>

definition ctl_frame :: "RcopyInfo \<Rightarrow> world \<Rightarrow> RcopyInfo \<Rightarrow> world \<Rightarrow> bool" where
  "ctl_frame info w info' w' \<longleftrightarrow>
    info' = info\<lparr>ri_server := ri_server info', ri_window := ri_window info'\<rparr> \<and>
    win_size (ri_window info') = win_size (ri_window info) \<and>
    win_alloc (ri_window info') = win_alloc (ri_window info) \<and>
    live w' = live w \<and> in_rest w' = in_rest w \<and> length (net w') \<le> length (net w)"

lemma ctl_frame_refl [simp]: "ctl_frame info w info w"
  by (simp add: ctl_frame_def)

lemma ctl_frame_sel:
  assumes "ctl_frame info w j v"
  shows "ri_buffer_size j = ri_buffer_size info" "ri_file_done j = ri_file_done info"
    "ri_had_error j = ri_had_error info" "ri_retry_count j = ri_retry_count info"
    "ri_window_size j = ri_window_size info"
    "win_size (ri_window j) = win_size (ri_window info)"
    "win_alloc (ri_window j) = win_alloc (ri_window info)"
    "live v = live w" "in_rest v = in_rest w" "length (net v) \<le> length (net w)"
proof -
  from assms have "j = info\<lparr>ri_server := ri_server j, ri_window := ri_window j\<rparr>"
    by (simp add: ctl_frame_def)
  then show "ri_buffer_size j = ri_buffer_size info" "ri_file_done j = ri_file_done info"
    "ri_had_error j = ri_had_error info" "ri_retry_count j = ri_retry_count info"
    "ri_window_size j = ri_window_size info"
    by (cases j, cases info, simp)+
qed (use assms in \<open>simp_all add: ctl_frame_def\<close>)

lemma ctl_frame_trans:
  assumes "ctl_frame i1 w1 i2 w2" and "ctl_frame i2 w2 i3 w3"
  shows "ctl_frame i1 w1 i3 w3"
proof -
  from assms(1) have "i2 = i1\<lparr>ri_server := ri_server i2, ri_window := ri_window i2\<rparr>"
    by (simp add: ctl_frame_def)
  moreover from assms(2) have "i3 = i2\<lparr>ri_server := ri_server i3, ri_window := ri_window i3\<rparr>"
    by (simp add: ctl_frame_def)
  ultimately have "i3 = i1\<lparr>ri_server := ri_server i3, ri_window := ri_window i3\<rparr>"
    by (cases i1, cases i2, cases i3) simp
  with assms show ?thesis unfolding ctl_frame_def by simp
qed

section \<open>Handling control packets\<close>

lemma post_resend_packet:
  assumes "entry_packet e p" and "cli_msg cs p" and "p \<noteq> []" and "cli_log F cs w"
  shows "post (resend_packet info e) w
    (\<lambda>_ v. cli_log F cs v \<and> v = w\<lparr>sends := tl (sends w), sent := sent w @ [(ri_server info, p)]\<rparr>)
    (cli_end F)"
  unfolding resend_packet_def
proof (rule post_safeSendto)
  let ?p = "take (nat (we_packet_len e)) (we_packet e)"
  have p: "?p = p" "we_packet_len e \<le> int (length (we_packet e))" "0 \<le> we_packet_len e"
    using assms(1) by (simp_all add: entry_packet_def)
  then show "we_packet_len e \<le> int (length (we_packet e))" by simp
  show "0 < we_packet_len e" using p assms(3) by (cases "we_packet_len e = 0") auto
  show "cli_log F cs (w\<lparr>sends := tl (sends w), sent := sent w @ [(ri_server info, ?p)]\<rparr>) \<and>
    w\<lparr>sends := tl (sends w), sent := sent w @ [(ri_server info, ?p)]\<rparr> =
      w\<lparr>sends := tl (sends w), sent := sent w @ [(ri_server info, p)]\<rparr>"
    unfolding p(1) using cli_log_send [OF assms(4,2)] by simp
  show "cli_end F (w\<lparr>sends := tl (sends w)\<rparr>)"
    by (rule cli_end_cong [OF cli_endI [OF assms(4)]]) simp
qed

lemma data_packet_sendable:
  assumes "cli_log F cs w" and "k < length cs"
  shows "cli_msg cs (data_packet cs k)" "data_packet cs k \<noteq> []"
proof -
  from assms have "7 \<le> length (data_packet cs k)" using length_data_packet by (simp add: cli_log_def)
  then show "data_packet cs k \<noteq> []" by auto
  show "cli_msg cs (data_packet cs k)" using assms(2) by (auto simp: cli_msg_def)
qed

lemma read_u32_11: "11 \<le> length p \<Longrightarrow> \<exists>v. read_u32 p 7 = Inr v"
  by (simp add: read_u32_def)

lemma handle_rr_ok:
  assumes win: "cli_win N cs (ri_window info)"
    and p: "\<And>r. read_u32 p 7 = Inr r \<Longrightarrow> rr_seen N (unat r)"
  shows "\<exists>win'. handle_rr info p (int (length p)) = Inr (info\<lparr>ri_window := win'\<rparr>) \<and> cli_win N cs win' \<and>
    win_size win' = win_size (ri_window info) \<and> win_alloc win' = win_alloc (ri_window info)"
proof (cases "length p < 11")
  case True
  then have "handle_rr info p (int (length p)) = Inr (info\<lparr>ri_window := ri_window info\<rparr>)"
    by (simp add: handle_rr_def)
  with win show ?thesis by blast
next
  case False
  then obtain r where r: "read_u32 p 7 = Inr r" using read_u32_11 by force
  have inv: "win_inv (ri_window info)" using win by (simp add: cli_win_def)
  from window_rr_spec [OF inv, of r] obtain win' where w: "window_rr (ri_window info) r = Inr win'" "win_inv win'"
    "win' = (ri_window info)\<lparr>win_entry := win_entry win', win_lower := win_lower win', win_upper := win_upper win'\<rparr>"
    "win_lo win' = max (win_lo (ri_window info)) (min (unat r) (win_cur (ri_window info)))" by blast
  from w(3) have k: "win_size win' = win_size (ri_window info)" "win_alloc win' = win_alloc (ri_window info)"
    "win_current win' = win_current (ri_window info)"
    by (cases win', cases "ri_window info", simp)+
  have acks: "window_acks (ri_window info) (unat r) win'" unfolding window_acks_def using w(1) by blast
  have "win_lo win' = win_lo (ri_window info) \<or> win_lo win' \<le> unat r" using w(4) by linarith
  moreover have "rr_seen N (win_lo win')" if "win_lo win' \<le> unat r"
    using p [OF r] that unfolding rr_seen_def by (meson le_trans)
  ultimately have "cli_win N cs win'"
    using win w(2,4) k(3) sliding.acks_stream [OF inv _ acks, of "\<lambda>n. data_packet cs (n - 2)"]
    by (auto simp: cli_win_def)
  moreover have "handle_rr info p (int (length p)) = Inr (info\<lparr>ri_window := win'\<rparr>)"
    using False r w(1) by (simp add: handle_rr_def)
  ultimately show ?thesis using k by blast
qed

lemma post_handle_reject:
  assumes win: "cli_win N cs (ri_window info)" and log: "cli_log F cs w"
  shows "post (handle_reject info p (int (length p))) w
    (\<lambda>_ v. cli_log F cs v \<and> v = w\<lparr>sends := sends v, sent := sent v\<rparr>) (cli_end F)"
proof (cases "length p < 11")
  case True
  then show ?thesis using log by (simp add: handle_reject_def)
next
  case False
  then obtain r where r: "read_u32 p 7 = Inr r" using read_u32_11 by force
  have shape: "win_shape (ri_window info)" using win by (simp add: cli_win_def win_inv_def)
  have h: "handle_reject info p (int (length p)) = iobind (lift_res (window_find (ri_window info) r))
      (\<lambda>entry. case entry of Some e \<Rightarrow> resend_packet info e | None \<Rightarrow> ret ())"
    using False r by (simp add: handle_reject_def iobind_eqs)
  from shape show ?thesis
  proof (rule window_find_cases [of "ri_window info" r])
    assume "window_find (ri_window info) r = Inr None"
    with log show ?thesis by (simp add: h iobind_eqs)
  next
    fix e m
    assume f: "window_find (ri_window info) r = Inr (Some e)" "win_pending (ri_window info) (unat r) = Some m"
      "entry_packet e m"
    note m = cli_win_pending [OF win f(2)]
    have "unat r - 2 < length cs" using m(1,2) by linarith
    note s = data_packet_sendable [OF log this]
    have "post (resend_packet info e) w (\<lambda>_ v. cli_log F cs v \<and> v = w\<lparr>sends := sends v, sent := sent v\<rparr>) (cli_end F)"
      by (rule post_mono [OF post_resend_packet [OF f(3) _ _ log]]) (use s m(3) in auto)
    then show ?thesis by (simp add: h f(1) iobind_eqs)
  qed
qed

lemma cli_ok_cong:
  assumes "cli_ok F N cs info w" and "ri_window j = ri_window info" "ri_buffer_size j = ri_buffer_size info"
    and "sent v = sent w" "set (net v) \<subseteq> set (net w)" "live v = live w" "socket_polled v"
  shows "cli_ok F N cs j v"
  using assms cli_log_cong [of F cs w v] by (auto simp: cli_ok_def)

lemma cli_ok_end: "cli_ok F N cs info w \<Longrightarrow> cli_end F w"
  unfolding cli_ok_def using cli_endI by blast

text \<open>One control packet, when an arrival is there.\<close>

lemma post_controls_turn:
  assumes ok: "cli_ok F N cs info w" and n: "net w = Arrives a # es"
  shows "post (controls_turn info) w
    (\<lambda>r v. cli_ok F N cs (fst r) v \<and> ctl_frame info w (fst r) v \<and> length (net v) < length (net w) \<and>
      (\<not> snd r \<longrightarrow> ri_window (fst r) = ri_window info))
    (cli_end F)"
  unfolding controls_turn_def post_iobind [of "safeRecvfrom _"]
proof (rule post_safeRecvfrom_arrival [OF n])
  show "cli_end F (w\<lparr>net := es\<rparr>)" by (rule cli_end_cong [OF cli_ok_end [OF ok]]) simp
  fix src m
  assume a: "a = Datagram src m"
  let ?p = "take (nat (int SREJ_MAX_PACKET)) m" and ?v = "w\<lparr>net := es\<rparr>" and ?i = "info\<lparr>ri_server := src\<rparr>"
  let ?Q = "\<lambda>r v. cli_ok F N cs (fst r) v \<and> ctl_frame info w (fst r) v \<and> length (net v) < length (net w) \<and>
      (\<not> snd r \<longrightarrow> ri_window (fst r) = ri_window info)"
  have okv: "cli_ok F N cs ?i ?v"
    by (rule cli_ok_cong [OF ok]) (use ok n in \<open>auto simp: cli_ok_def\<close>)
  have fr: "ctl_frame info w ?i ?v" using n by (simp add: ctl_frame_def)
  have skip: "post (ret (?i, b)) ?v ?Q (cli_end F)" for b using okv fr n by simp
  have "length ?p \<le> SREJ_MAX_PACKET" by simp
  then have "int (length ?p) \<le> 65536" by linarith
  then obtain b where b: "check_packet ?p (int (length ?p)) = Inr b"
    using check_packet_defined [OF order_refl] by blast
  show "post (case (src, ?p) of (server, packet) \<Rightarrow>
      let info = info\<lparr>ri_server := server\<rparr>; packet_len = int (length packet) in
      iobind (lift_res (check_packet packet packet_len)) (\<lambda>ok.
        if \<not> ok then ret (info, False)
        else iobind (lift_res (get_flag packet)) (\<lambda>flag.
          if flag = FLAG_RR then
            iobind (lift_res (handle_rr info packet packet_len)) (\<lambda>info. ret (info, True))
          else if flag = FLAG_SREJ then
            iobind (handle_reject info packet packet_len) (\<lambda>_. ret (info, True))
          else ret (info, False)))) ?v ?Q (cli_end F)"
  proof (cases b)
    case False
    with skip [of False] show ?thesis by (simp only: prod.case Let_def b iobind_eqs simp_thms if_True)
  next
    case True
    with b have chk: "check_packet ?p (int (length ?p)) = Inr True" by simp
    obtain f where f: "get_flag ?p = Inr f" using check_packet_True(4) [OF chk] by blast
    have win: "cli_win N cs (ri_window ?i)" and log: "cli_log F cs ?v" using okv by (simp_all add: cli_ok_def)
    have rr: "post (iobind (lift_res (handle_rr ?i ?p (int (length ?p)))) (\<lambda>info. ret (info, True))) ?v ?Q (cli_end F)"
      if "f = FLAG_RR"
    proof -
      have "rr_seen N (unat r)" if r: "read_u32 ?p 7 = Inr r" for r
      proof -
        have m: "Arrives (Datagram src m) \<in> set N" using ok n a by (auto simp: cli_ok_def)
        have p: "?p = take SREJ_MAX_PACKET m" by simp
        show ?thesis unfolding rr_seen_def
          using m chk [unfolded p] f [unfolded p] r [unfolded p] \<open>f = FLAG_RR\<close> by blast
      qed
      from handle_rr_ok [OF win this] obtain win' where
        w': "handle_rr ?i ?p (int (length ?p)) = Inr (?i\<lparr>ri_window := win'\<rparr>)" "cli_win N cs win'"
          "win_size win' = win_size (ri_window ?i)" "win_alloc win' = win_alloc (ri_window ?i)" by blast
      have "cli_ok F N cs (?i\<lparr>ri_window := win'\<rparr>) ?v" using okv w'(2,4) by (simp add: cli_ok_def)
      moreover have "ctl_frame info w (?i\<lparr>ri_window := win'\<rparr>) ?v" using w'(3,4) n by (simp add: ctl_frame_def)
      ultimately show ?thesis using n unfolding w'(1) iobind_eqs by simp
    qed
    have sr: "post (iobind (handle_reject ?i ?p (int (length ?p))) (\<lambda>_. ret (?i, True))) ?v ?Q (cli_end F)"
    proof (rule post_seq [OF post_handle_reject [OF win log]])
      fix x u
      assume u: "cli_log F cs u \<and> u = ?v\<lparr>sends := sends u, sent := sent u\<rparr>"
      then obtain s t where "u = ?v\<lparr>sends := s, sent := t\<rparr>" by blast
      then have k: "net u = es" "live u = live w" "in_rest u = in_rest w" "socket_polled u = socket_polled w"
        by simp_all
      have "cli_ok F N cs ?i u" using okv u k by (simp add: cli_ok_def)
      moreover have "ctl_frame info w ?i u" using k n by (simp add: ctl_frame_def)
      ultimately show "post (ret (?i, True)) u ?Q (cli_end F)" using k(1) n by simp
    qed
    from rr sr skip [of False] show ?thesis
      by (simp only: prod.case Let_def chk f iobind_eqs simp_thms if_False split: if_split) blast
  qed
qed

text \<open>Polling without waiting tells whether an arrival is there.\<close>

lemma post_poll_controls:
  assumes ok: "cli_ok F N cs info w" and t: "0 \<le> t"
  shows "post (pollCall t) w
    (\<lambda>k v. cli_ok F N cs info v \<and> ctl_frame info w info v \<and> (0 \<le> k \<longrightarrow> (\<exists>a es. net v = Arrives a # es)))
    (cli_end F)"
proof (rule post_pollCall)
  show "socket_polled w" using ok by (simp add: cli_ok_def)
  show "0 \<le> t" by (rule t)
next
  fix es v
  assume n: "net w = Quiet # es \<or> net w = [] \<and> es = []" and p: "socket_polled v"
    and v: "v = w\<lparr>net := es, pollFileDescriptors := pollFileDescriptors v\<rparr>"
  obtain fs where v': "v = w\<lparr>net := es, pollFileDescriptors := fs\<rparr>" using v by blast
  have "cli_ok F N cs info v" by (rule cli_ok_cong [OF ok]) (use n p v' in auto)
  moreover have "ctl_frame info w info v" using n v' by (auto simp: ctl_frame_def)
  ultimately show "cli_ok F N cs info v \<and> ctl_frame info w info v \<and> (0 \<le> (- 1 :: int) \<longrightarrow> (\<exists>a es. net v = Arrives a # es))"
    by simp
next
  fix a es and k :: int and v
  assume n: "net w = Arrives a # es" and p: "socket_polled v"
    and v: "v = w\<lparr>pollFileDescriptors := pollFileDescriptors v\<rparr>"
  obtain fs where v': "v = w\<lparr>pollFileDescriptors := fs\<rparr>" using v by blast
  have "cli_ok F N cs info v" by (rule cli_ok_cong [OF ok]) (use p v' in auto)
  then show "cli_ok F N cs info v \<and> ctl_frame info w info v \<and> (0 \<le> k \<longrightarrow> (\<exists>a es. net v = Arrives a # es))"
    using n v' by (simp add: ctl_frame_def)
next
  show "cli_end F (w\<lparr>net := es\<rparr>)" for es by (rule cli_end_cong [OF cli_ok_end [OF ok]]) simp
qed

text \<open>Handling all ready control packets: the count is zero when the window is as it was, and a
  positive count has used up arrivals.\<close>

abbreviation controls_post ::
  "bytes \<Rightarrow> net_event list \<Rightarrow> bytes list \<Rightarrow> RcopyInfo \<Rightarrow> world \<Rightarrow> int \<Rightarrow> RcopyInfo \<times> int \<Rightarrow> world \<Rightarrow> bool" where
  "controls_post F N cs info w c r v \<equiv> cli_ok F N cs (fst r) v \<and> ctl_frame info w (fst r) v \<and> c \<le> snd r \<and>
    (if snd r = c then ri_window (fst r) = ri_window info else length (net v) < length (net w))"

lemma post_controls_loop:
  assumes "cli_ok F N cs info w" and "0 \<le> ready \<longrightarrow> (\<exists>a es. net w = Arrives a # es)"
  shows "post (controls_loop info ready c) w (controls_post F N cs info w c) (cli_end F)"
  using assms
proof (induction "length (net w)" arbitrary: info ready c w rule: less_induct)
  case less
  show ?case
  proof (cases "0 \<le> ready")
    case False
    then have "controls_loop info ready c w = (Inr (info, c), w)"
      by (simp add: controls_loop.simps [of info ready c w])
    with less.prems(1) show ?thesis by (simp add: post_from_eq)
  next
    case True
    with less.prems(2) obtain a es where n: "net w = Arrives a # es" by blast
    have "post (iobind (controls_turn info) (\<lambda>turn. iobind (pollCall POLL_NOW) (\<lambda>ready_socket.
        controls_loop (fst turn) ready_socket (if snd turn then c + 1 else c)))) w
      (controls_post F N cs info w c) (cli_end F)"
    proof (rule post_seq [OF post_controls_turn [OF less.prems(1) n]])
      fix r v
      assume r: "cli_ok F N cs (fst r) v \<and> ctl_frame info w (fst r) v \<and> length (net v) < length (net w) \<and>
        (\<not> snd r \<longrightarrow> ri_window (fst r) = ri_window info)"
      let ?c = "if snd r then c + 1 else c"
      show "post (iobind (pollCall POLL_NOW) (\<lambda>ready_socket. controls_loop (fst r) ready_socket ?c)) v
        (controls_post F N cs info w c) (cli_end F)"
      proof (rule post_seq [OF post_poll_controls [OF conjunct1 [OF r] order_refl]])
        fix k :: int and u
        assume u: "cli_ok F N cs (fst r) u \<and> ctl_frame (fst r) v (fst r) u \<and> (0 \<le> k \<longrightarrow> (\<exists>a es. net u = Arrives a # es))"
        then have l: "length (net u) \<le> length (net v)" by (simp add: ctl_frame_def)
        have "post (controls_loop (fst r) k ?c) u (controls_post F N cs (fst r) u ?c) (cli_end F)"
          by (rule less.hyps) (use r u l in auto)
        then show "post (controls_loop (fst r) k ?c) u (controls_post F N cs info w c) (cli_end F)"
        proof (rule post_mono)
          fix x t
          assume x: "controls_post F N cs (fst r) u ?c x t"
          have "ctl_frame info w (fst r) u" using r u ctl_frame_trans by blast
          with x have "ctl_frame info w (fst x) t" using ctl_frame_trans by blast
          moreover from x have "length (net t) \<le> length (net u)" by (simp add: ctl_frame_def)
          ultimately show "controls_post F N cs info w c x t"
            using x r l by (auto split: if_splits)
        qed
      qed
    qed
    with True show ?thesis by (simp only: post_def controls_loop.simps [of info ready c w] if_True)
  qed
qed

lemma post_process_controls:
  assumes "cli_ok F N cs info w" and "0 \<le> t"
  shows "post (process_controls info t) w (controls_post F N cs info w 0) (cli_end F)"
  unfolding process_controls_def
proof (rule post_seq [OF post_poll_controls [OF assms]])
  fix k :: int and v
  assume v: "cli_ok F N cs info v \<and> ctl_frame info w info v \<and> (0 \<le> k \<longrightarrow> (\<exists>a es. net v = Arrives a # es))"
  then have l: "length (net v) \<le> length (net w)" by (simp add: ctl_frame_def)
  have "post (controls_loop info k 0) v (controls_post F N cs info v 0) (cli_end F)"
    by (rule post_controls_loop) (use v in auto)
  then show "post (controls_loop info k 0) v (controls_post F N cs info w 0) (cli_end F)"
    by (rule post_mono) (use v l in \<open>auto intro: ctl_frame_trans split: if_splits\<close>)
qed

section \<open>Sending data\<close>

lemma word_of_nat_unat_u32: "unat (v :: u32) = n \<Longrightarrow> word_of_nat n = v"
  by auto

lemma holds_stream_append:
  assumes "cli_win N cs win" and "window_open win" and "window_adds win (data_packet (cs @ [bs]) (length cs)) win'"
  shows "cli_win N (cs @ [bs]) win'"
proof -
  have i: "win_inv win" "win_cur win = 2 + length cs" "2 \<le> win_lo win"
    "win_lo win = 2 \<or> rr_seen N (win_lo win)" using assms(1) by (simp_all add: cli_win_def)
  note a = sliding.adds [OF i(1) assms(3)]
  have "sliding.holds_stream win' (\<lambda>n. data_packet (cs @ [bs]) (n - 2))"
  proof (rule sliding.adds_stream [OF i(1)])
    show "sliding.holds_stream win (\<lambda>n. data_packet (cs @ [bs]) (n - 2))"
      unfolding sliding.holds_stream_def
    proof (intro allI impI)
      fix n p
      assume p: "win_pending win n = Some p"
      note q = cli_win_pending [OF assms(1) p]
      then have "n - 2 < length cs" by linarith
      with q(3) show "p = data_packet (cs @ [bs]) (n - 2)" by (simp add: data_packet_append)
    qed
    show "window_adds win (data_packet (cs @ [bs]) (win_cur win - 2)) win'" using assms(3) i(2) by simp
  qed
  with a i show ?thesis by (simp add: cli_win_def)
qed

lemma post_send_chunk:
  assumes ok: "cli_ok F N cs info w" and opn: "window_open (ri_window info)"
    and bs: "bs \<noteq> []" "length bs \<le> SREJ_MAX_DATA" and F: "F = concat cs @ bs @ in_rest w"
  shows "post (send_chunk info bs (int (length bs))) w
    (\<lambda>info' v. cli_ok F N (cs @ [bs]) info' v \<and> F = concat (cs @ [bs]) @ in_rest v \<and>
      ctl_frame (info\<lparr>ri_retry_count := 0\<rparr>) w info' v)
    (cli_end F)"
proof -
  let ?win = "ri_window info"
  let ?m = "packet_bytes (win_current ?win) FLAG_DATA bs"
  let ?data = "bs @ drop (length bs) (uninit SREJ_MAX_DATA)"
  let ?arr = "?m @ drop (7 + length bs) (uninit SREJ_MAX_PACKET)"
  have win: "cli_win N cs ?win" and log: "cli_log F cs w" using ok by (simp_all add: cli_ok_def)
  have inv: "win_inv ?win" and cur: "win_cur ?win = 2 + length cs" using win by (simp_all add: cli_win_def)
  have wr: "mem_write (uninit SREJ_MAX_DATA) 0 bs = Inr ?data" using bs(2) by simp
  have fits: "fits bs" "7 + length bs \<le> SREJ_MAX_PACKET" using bs(2) by simp_all
  have lm: "length ?m = 7 + length bs" using fits(1) by simp
  have n: "nat (7 + int (length bs)) = 7 + length bs" by linarith
  have mk: "make_packet (uninit SREJ_MAX_PACKET) (win_current ?win) FLAG_DATA ?data (int (length bs)) =
      Inr (?arr, 7 + int (length bs))"
    using make_packet_eq [of "int (length bs)" ?data "uninit SREJ_MAX_PACKET" "win_current ?win" FLAG_DATA] bs(2) n
    by simp
  have mp: "?m = data_packet (cs @ [bs]) (length cs)"
    unfolding data_packet_def using word_of_nat_unat_u32 [OF cur] by (simp add: nth_append)
  have tk: "take (7 + length bs) ?arr = ?m" unfolding lm [symmetric] by simp
  have add: "\<exists>win'. window_add ?win (win_current ?win) ?arr (7 + int (length bs)) = Inr win' \<and>
      win_inv win' \<and> win' = ?win\<lparr>win_entry := win_entry win', win_current := win_current ?win + 1\<rparr> \<and>
      win_cur win' = Suc (win_cur ?win)"
    using window_add_spec [OF inv opn, of "7 + int (length bs)" ?arr] bs(2) lm by auto
  then obtain win' where w': "window_add ?win (win_current ?win) ?arr (7 + int (length bs)) = Inr win'"
    "win_inv win'" "win' = ?win\<lparr>win_entry := win_entry win', win_current := win_current ?win + 1\<rparr>"
    "win_cur win' = Suc (win_cur ?win)" by blast
  have k: "win_size win' = win_size ?win" "win_alloc win' = win_alloc ?win"
    using w'(3) by (cases win', cases ?win, simp)+
  have "window_adds ?win ?m win'"
    unfolding window_adds_def using opn w'(1) bs(2) lm tk n
    by (intro conjI exI [of _ ?arr] exI [of _ "7 + int (length bs)"]) simp_all
  then have win': "cli_win N (cs @ [bs]) win'" unfolding mp by (rule holds_stream_append [OF win opn])
  have "chunks_ok (cs @ [bs])"
    using log bs(2) unat_less_2_32 [of "win_current win'"] w'(4) cur by (auto simp: cli_log_def chunks_ok_def)
  moreover have "cli_msg (cs @ [bs]) ?m" unfolding cli_msg_def mp by (intro disjI1 exI [of _ "length cs"]) simp
  ultimately have log': "cli_log F (cs @ [bs]) (w\<lparr>sends := s, sent := sent w @ [(c, ?m)]\<rparr>)" for s c
    using log F cli_msg_append by (auto simp: cli_log_def)
  let ?v = "w\<lparr>sends := tl (sends w), sent := sent w @ [(ri_server info, take (nat (7 + int (length bs))) ?arr)]\<rparr>"
  let ?i = "info\<lparr>ri_window := win', ri_retry_count := 0\<rparr>"
  have okv: "cli_ok F N (cs @ [bs]) ?i ?v"
    using ok win' log' k(2) unfolding n tk by (simp add: cli_ok_def)
  have fr: "ctl_frame (info\<lparr>ri_retry_count := 0\<rparr>) w ?i ?v" using k by (simp add: ctl_frame_def)
  have "post (iobind (safeSendto ?arr (7 + int (length bs)) (ri_server info)) (\<lambda>_.
      iobind (lift_res (Inr win')) (\<lambda>win.
      iobind (process_controls (info\<lparr>ri_window := win, ri_retry_count := 0\<rparr>) POLL_NOW) (\<lambda>r. ret (fst r))))) w
    (\<lambda>info' v. cli_ok F N (cs @ [bs]) info' v \<and> F = concat (cs @ [bs]) @ in_rest v \<and>
      ctl_frame (info\<lparr>ri_retry_count := 0\<rparr>) w info' v) (cli_end F)"
    unfolding iobind_eqs post_iobind [of "safeSendto _ _ _"]
  proof (rule post_safeSendto)
    show "post (iobind (process_controls ?i POLL_NOW) (\<lambda>r. ret (fst r))) ?v
      (\<lambda>info' v. cli_ok F N (cs @ [bs]) info' v \<and> F = concat (cs @ [bs]) @ in_rest v \<and>
        ctl_frame (info\<lparr>ri_retry_count := 0\<rparr>) w info' v) (cli_end F)"
    proof (rule post_seq [OF post_process_controls [OF okv order_refl]])
      fix r u
      assume r: "controls_post F N (cs @ [bs]) ?i ?v 0 r u"
      have f: "ctl_frame (info\<lparr>ri_retry_count := 0\<rparr>) w (fst r) u"
        by (rule ctl_frame_trans [OF fr]) (use r in blast)
      have "in_rest u = in_rest w" by (rule ctl_frame_sel(9) [OF f])
      with r f F show "post (ret (fst r)) u
        (\<lambda>info' v. cli_ok F N (cs @ [bs]) info' v \<and> F = concat (cs @ [bs]) @ in_rest v \<and>
          ctl_frame (info\<lparr>ri_retry_count := 0\<rparr>) w info' v) (cli_end F)"
        by (simp del: fst_conv)
    qed
    show "cli_end F (w\<lparr>sends := tl (sends w)\<rparr>)" by (rule cli_end_cong [OF cli_endI [OF log]]) simp
  qed (use bs(2) lm in simp_all)
  then show ?thesis
    unfolding send_chunk_def wr iobind_eqs Let_def mk prod.case w'(1) .
qed

section \<open>The loop of the sender\<close>

lemma sys_read_cases:
  assumes "0 < n" and "n \<le> int SREJ_MAX_DATA"
  obtains k v where "sys_read n w = (Inr (take (nat k) (in_rest w), k), v)"
    and "v = w\<lparr>in_rest := drop (nat k) (in_rest w), reads := tl (reads w)\<rparr>"
    and "k = 0 \<longrightarrow> in_rest w = []" and "k \<le> int SREJ_MAX_DATA" and "k \<le> int (length (in_rest w))"
proof -
  let ?k = "read_amount w n"
  have "?k = 0 \<longrightarrow> in_rest w = []"
    using assms(1) by (auto simp: read_amount_def Let_def min_def max_def split: list.splits read_answer.splits if_splits)
  moreover have "?k \<le> int SREJ_MAX_DATA" "?k \<le> int (length (in_rest w))"
    using assms by (auto simp: read_amount_def Let_def split: list.split read_answer.split)
  ultimately show ?thesis using that [of ?k] by (auto simp: sys_read_def Let_def)
qed

definition sender_ok :: "bytes \<Rightarrow> net_event list \<Rightarrow> bytes list \<Rightarrow> RcopyInfo \<Rightarrow> world \<Rightarrow> bool" where
  "sender_ok F N cs info w \<longleftrightarrow> cli_ok F N cs info w \<and> F = concat cs @ in_rest w \<and> length cs \<le> length (concat cs) \<and>
    (ri_file_done info = 0 \<or> ri_file_done info = 1 \<and> in_rest w = []) \<and> ri_had_error info = 0 \<and>
    0 \<le> ri_retry_count info \<and> ri_retry_count info < 10"

text \<open>Arrivals and bytes of the file that are left: what every phase of the transfer uses up.\<close>

abbreviation todo :: "world \<Rightarrow> nat" where
  "todo w \<equiv> length (net w) + length (in_rest w)"

lemma sender_ok_frame:
  assumes s: "sender_ok F N cs info w" and ok: "cli_ok F N cs j v" and f: "ctl_frame info w j v"
  shows "sender_ok F N cs j v"
  using s ok ctl_frame_sel [OF f] by (simp add: sender_ok_def)

lemma post_send_data_loop:
  assumes "sender_ok F N cs info w"
  shows "post (send_data_loop info) w
    (\<lambda>r v. case fst r of
       Some st \<Rightarrow> st = DONE \<and> cli_end F v \<and> ri_had_error (snd r) = 1 \<and>
         (win_alloc (ri_window (snd r)) \<longrightarrow> 0 < live v)
     | None \<Rightarrow> (\<exists>cs'. sender_ok F N cs' (snd r) v) \<and> todo v \<le> todo w \<and>
         win_size (ri_window (snd r)) = win_size (ri_window info) \<and>
         (window_open (ri_window (snd r)) \<longrightarrow> ri_file_done (snd r) = 1))
    (cli_end F)"
  using assms
proof (induction "length (in_rest w)" arbitrary: cs info w rule: less_induct)
  case less
  let ?P = "\<lambda>w info r v. case fst r of
       Some st \<Rightarrow> st = DONE \<and> cli_end F v \<and> ri_had_error (snd r) = 1 \<and>
         (win_alloc (ri_window (snd r)) \<longrightarrow> 0 < live v)
     | None \<Rightarrow> (\<exists>cs'. sender_ok F N cs' (snd r) v) \<and> todo v \<le> todo w \<and>
         win_size (ri_window (snd r)) = win_size (ri_window info) \<and>
         (window_open (ri_window (snd r)) \<longrightarrow> ri_file_done (snd r) = 1)"
  have ok: "cli_ok F N cs info w" and F: "F = concat cs @ in_rest w" and len: "length cs \<le> length (concat cs)"
    using less.prems unfolding sender_ok_def by blast+
  show ?case
  proof (cases "window_open (ri_window info) \<and> ri_file_done info = 0")
    case False
    then have "send_data_loop info w = (Inr (None, info), w)"
      by (auto simp: send_data_loop.simps [of info w])
    moreover have "ri_file_done info = 0 \<or> ri_file_done info = 1" using less.prems by (auto simp: sender_ok_def)
    ultimately show ?thesis using False less.prems by (auto simp: post_from_eq)
  next
    case True
    have n: "0 < ri_buffer_size info" "ri_buffer_size info \<le> int SREJ_MAX_DATA"
      using ok by (simp_all add: cli_ok_def)
    obtain k v where rd: "sys_read (ri_buffer_size info) w = (Inr (take (nat k) (in_rest w), k), v)"
      and v: "v = w\<lparr>in_rest := drop (nat k) (in_rest w), reads := tl (reads w)\<rparr>"
      and k: "k = 0 \<longrightarrow> in_rest w = []" "k \<le> int SREJ_MAX_DATA" "k \<le> int (length (in_rest w))"
      by (rule sys_read_cases [OF n, of w])
    let ?bs = "take (nat k) (in_rest w)"
    have eq: "send_data_loop info w =
      (if k < 0 then (Inr (Some DONE, info\<lparr>ri_had_error := 1\<rparr>), v)
       else if k = 0 then (Inr (None, info\<lparr>ri_file_done := 1\<rparr>), v)
       else iobind (send_chunk info ?bs k) send_data_loop v)"
      using True rd by (simp add: send_data_loop.simps [of info w] iobind_def [of "sys_read _"])
    have okv: "cli_ok F N cs info v" by (rule cli_ok_cong [OF ok]) (use ok v in \<open>simp_all add: cli_ok_def\<close>)
    consider "k < 0" | "k = 0" | "0 < k" by linarith
    then show ?thesis
    proof cases
      case 1
      then have "send_data_loop info w = (Inr (Some DONE, info\<lparr>ri_had_error := 1\<rparr>), v)" using eq by simp
      then show ?thesis using cli_ok_end [OF okv] okv by (simp add: post_from_eq cli_ok_def)
    next
      case 2
      then have e: "send_data_loop info w = (Inr (None, info\<lparr>ri_file_done := 1\<rparr>), v)" using eq by simp
      have "cli_ok F N cs (info\<lparr>ri_file_done := 1\<rparr>) v"
        by (rule cli_ok_cong [OF okv]) (use okv in \<open>simp_all add: cli_ok_def\<close>)
      then have "sender_ok F N cs (info\<lparr>ri_file_done := 1\<rparr>) v"
        using less.prems mp [OF k(1) 2] v by (simp add: sender_ok_def)
      then show ?thesis using v e by (auto simp: post_def)
    next
      case 3
      have bs: "?bs \<noteq> []" "length ?bs \<le> SREJ_MAX_DATA" "int (length ?bs) = k" using 3 k by auto
      have Fv: "F = concat cs @ ?bs @ in_rest v" using F v by simp
      have opn: "window_open (ri_window info)" using True by simp
      have "post (iobind (send_chunk info ?bs (int (length ?bs))) send_data_loop) v (?P w info) (cli_end F)"
      proof (rule post_seq [OF post_send_chunk [OF okv opn bs(1,2) Fv]])
        fix j u
        assume j: "cli_ok F N (cs @ [?bs]) j u \<and> F = concat (cs @ [?bs]) @ in_rest u \<and>
          ctl_frame (info\<lparr>ri_retry_count := 0\<rparr>) v j u"
        note f = ctl_frame_sel [OF conjunct2 [OF conjunct2 [OF j]]]
        have ru: "in_rest u = drop (nat k) (in_rest w)" "length (net u) \<le> length (net w)" using f(9,10) v by simp_all
        have so: "sender_ok F N (cs @ [?bs]) j u"
          using j f len bs(1) True less.prems by (cases ?bs) (auto simp: sender_ok_def)
        have lt: "length (in_rest u) < length (in_rest w)" using ru(1) 3 k(3) by simp
        have "post (send_data_loop j) u (?P u j) (cli_end F)" by (rule less.hyps [OF lt so])
        then show "post (send_data_loop j) u (?P w info) (cli_end F)"
          by (rule post_mono) (use f(6) ru(2) lt in \<open>auto split: option.splits\<close>)
      qed
      then show ?thesis using eq 3 bs(3) by (simp add: post_def)
    qed
  qed
qed

section \<open>Request and answer\<close>

text \<open>
  The two loops that send a packet up to ten times and wait for an answer have the same
  effect on the process: more copies of the packet sent, arrivals used up.
\<close>

definition asked :: "world \<Rightarrow> world \<Rightarrow> bool" where
  "asked w v \<longleftrightarrow> in_rest v = in_rest w \<and> live v = live w \<and> set (net v) \<subseteq> set (net w) \<and>
    length (net v) \<le> length (net w)"

lemma asked_refl [simp]: "asked w w" by (simp add: asked_def)

lemma asked_trans: "asked u v \<Longrightarrow> asked v w \<Longrightarrow> asked u w"
  by (auto simp: asked_def)

lemma post_ask:
  assumes log: "cli_log F cs w" and sp: "socket_polled w" and t: "0 \<le> t"
    and p: "0 < n" "n \<le> int (length packet)" "cli_msg cs (take (nat n) packet)"
    and quiet: "\<And>v. cli_log F cs v \<Longrightarrow> socket_polled v \<Longrightarrow> asked w v \<Longrightarrow> post q v P (cli_end F)"
    and answer: "\<And>v src m. cli_log F cs v \<Longrightarrow> socket_polled v \<Longrightarrow> asked w v \<Longrightarrow>
      post (k (src, take SREJ_MAX_PACKET m)) v P (cli_end F)"
  shows "post (iobind (safeSendto packet n dst) (\<lambda>_. iobind (pollCall t) (\<lambda>ready.
    if ready < 0 then q else iobind (safeRecvfrom (int SREJ_MAX_PACKET)) k))) w P (cli_end F)"
  unfolding post_iobind [of "safeSendto _ _ _"]
proof (rule post_safeSendto [OF p(1,2)])
  let ?w = "w\<lparr>sends := tl (sends w), sent := sent w @ [(dst, take (nat n) packet)]\<rparr>"
  have log': "cli_log F cs ?w" by (rule cli_log_send [OF log p(3)]) simp
  show "cli_end F (w\<lparr>sends := tl (sends w)\<rparr>)" by (rule cli_end_cong [OF cli_endI [OF log]]) simp
  show "post (iobind (pollCall t) (\<lambda>ready. if ready < 0 then q else iobind (safeRecvfrom (int SREJ_MAX_PACKET)) k))
      ?w P (cli_end F)"
  proof (rule post_poll_recv)
    show "socket_polled ?w" using sp by simp
    show "0 \<le> t" by (rule t)
  next
    fix v
    assume v: "socket_polled v" "v = ?w\<lparr>net := tl (net ?w), pollFileDescriptors := pollFileDescriptors v\<rparr>"
    then obtain fs where v': "v = ?w\<lparr>net := tl (net w), pollFileDescriptors := fs\<rparr>" by auto
    show "post q v P (cli_end F)"
    proof (rule quiet [OF _ v(1)])
      show "cli_log F cs v" by (rule cli_log_cong [OF log']) (simp add: v')
      show "asked w v" by (cases "net w") (auto simp: asked_def v')
    qed
  next
    fix v es src m
    assume n: "net ?w = Arrives (Datagram src m) # es" and v: "socket_polled v"
      "v = ?w\<lparr>net := es, pollFileDescriptors := pollFileDescriptors v\<rparr>"
    then obtain fs where v': "v = ?w\<lparr>net := es, pollFileDescriptors := fs\<rparr>" by blast
    have "post (k (src, take SREJ_MAX_PACKET m)) v P (cli_end F)"
    proof (rule answer [OF _ v(1)])
      show "cli_log F cs v" by (rule cli_log_cong [OF log']) (simp add: v')
      show "asked w v" using n by (auto simp: asked_def v')
    qed
    then show "post (k (src, take (nat (int SREJ_MAX_PACKET)) m)) v P (cli_end F)" by simp
  next
    fix v
    assume "v = ?w\<lparr>net := net v, pollFileDescriptors := pollFileDescriptors v\<rparr>"
    then obtain a fs where v': "v = ?w\<lparr>net := a, pollFileDescriptors := fs\<rparr>" by blast
    show "cli_end F v" by (rule cli_end_cong [OF cli_endI [OF log']]) (simp add: v')
  qed
qed

lemma check_packet_received:
  obtains "check_packet (take SREJ_MAX_PACKET m) (int (length (take SREJ_MAX_PACKET m))) = Inr False"
  | f where "check_packet (take SREJ_MAX_PACKET m) (int (length (take SREJ_MAX_PACKET m))) = Inr True"
    and "get_flag (take SREJ_MAX_PACKET m) = Inr f" "7 \<le> length (take SREJ_MAX_PACKET m)"
proof -
  let ?p = "take SREJ_MAX_PACKET m"
  have "length ?p \<le> SREJ_MAX_PACKET" by simp
  then have "int (length ?p) \<le> 65536" by linarith
  then obtain b where b: "check_packet ?p (int (length ?p)) = Inr b"
    using check_packet_defined [OF order_refl] by blast
  show ?thesis
  proof (cases b)
    case True
    with b have chk: "check_packet ?p (int (length ?p)) = Inr True" by simp
    obtain f where "get_flag ?p = Inr f" using check_packet_True(4) [OF chk] by blast
    with that(2) [of f] chk check_packet_True(1) [OF chk] show ?thesis by simp
  qed (use that(1) b in simp)
qed

lemma post_send_final_done:
  assumes "cli_log F cs w"
  shows "post (send_final_done info) w (\<lambda>_ v. cli_log F cs v \<and> live v = live w) (cli_end F)"
  unfolding send_final_done_def
proof (rule post_make_send)
  let ?m = "packet_bytes (win_current (ri_window info) + 1) FLAG_DONE []"
  have "cli_msg cs ?m" by (simp add: cli_msg_def cli_otherI)
  then show "post (ret ()) (w\<lparr>sends := tl (sends w), sent := sent w @ [(ri_server info, ?m)]\<rparr>)
      (\<lambda>_ v. cli_log F cs v \<and> live v = live w) (cli_end F)"
    using cli_log_send [OF assms, of ?m] by simp
  show "cli_end F (w\<lparr>sends := tl (sends w)\<rparr>)" by (rule cli_end_cong [OF cli_endI [OF assms]]) simp
qed simp_all

lemma post_send_eof_loop:
  assumes "cli_log F cs w" and "socket_polled w"
    and p: "0 < n" "n \<le> int (length packet)" "cli_msg cs (take (nat n) packet)"
  shows "post (send_eof_loop info packet n tries) w
    (\<lambda>r v. fst r = DONE \<and> ri_window (snd r) = ri_window info \<and> cli_log F cs v \<and> live v = live w) (cli_end F)"
  using assms(1,2)
proof (induction "nat (10 - tries)" arbitrary: tries info w rule: less_induct)
  case less
  let ?Q = "\<lambda>info w r v. fst r = DONE \<and> ri_window (snd r) = ri_window info \<and> cli_log F cs v \<and> live v = live w"
  show ?case
  proof (cases "tries < 10")
    case False
    then have "send_eof_loop info packet n tries = ret (DONE, info\<lparr>ri_had_error := 1\<rparr>)"
      by (simp add: send_eof_loop.simps [of info packet n tries])
    with less.prems show ?thesis by simp
  next
    case True
    have again: "post (send_eof_loop j packet n (tries + 1)) v (?Q info w) (cli_end F)"
      if "cli_log F cs v" "socket_polled v" "asked w v" "ri_window j = ri_window info" for j v
    proof -
      have "post (send_eof_loop j packet n (tries + 1)) v (?Q j v) (cli_end F)"
        by (rule less.hyps) (use True that in simp_all)
      then show ?thesis by (rule post_mono) (use that in \<open>auto simp: asked_def\<close>)
    qed
    have unfold: "send_eof_loop info packet n tries =
      iobind (safeSendto packet n (ri_server info)) (\<lambda>_. iobind (pollCall POLL_ONE_SEC) (\<lambda>ready.
        if ready < 0 then send_eof_loop info packet n (tries + 1)
        else iobind (safeRecvfrom (int SREJ_MAX_PACKET)) (\<lambda>(server, in_packet).
           let info = info\<lparr>ri_server := server\<rparr> in
           iobind (lift_res (check_packet in_packet (int (length in_packet)))) (\<lambda>ok.
           iobind (if ok then lift_res (get_flag in_packet) else ret 0) (\<lambda>flag.
             if ok \<and> flag = FLAG_EOF_ACK then iobind (send_final_done info) (\<lambda>_. ret (DONE, info))
             else send_eof_loop info packet n (tries + 1))))))"
      unfolding send_eof_loop.simps [of info packet n tries] using True by (simp only: if_True)
    show ?thesis
      unfolding unfold
    proof (rule post_ask [OF less.prems zero_le_numeral p])
      show "post (send_eof_loop info packet n (tries + 1)) v (?Q info w) (cli_end F)"
        if "cli_log F cs v" "socket_polled v" "asked w v" for v
        by (rule again [OF that]) simp
    next
      fix v src m
      assume v: "cli_log F cs v" "socket_polled v" "asked w v"
      let ?i = "info\<lparr>ri_server := src\<rparr>"
      have fin: "post (iobind (send_final_done ?i) (\<lambda>_. ret (DONE, ?i))) v (?Q info w) (cli_end F)"
        by (rule post_seq [OF post_send_final_done [OF v(1)]]) (use v(3) in \<open>auto simp: asked_def\<close>)
      have again1: "post (send_eof_loop ?i packet n (tries + 1)) v (?Q info w) (cli_end F)"
        by (rule again [OF v]) simp
      show "post (case (src, take SREJ_MAX_PACKET m) of (server, in_packet) \<Rightarrow>
           let info = info\<lparr>ri_server := server\<rparr> in
           iobind (lift_res (check_packet in_packet (int (length in_packet)))) (\<lambda>ok.
           iobind (if ok then lift_res (get_flag in_packet) else ret 0) (\<lambda>flag.
             if ok \<and> flag = FLAG_EOF_ACK then iobind (send_final_done info) (\<lambda>_. ret (DONE, info))
             else send_eof_loop info packet n (tries + 1)))) v (?Q info w) (cli_end F)"
      proof (rule check_packet_received [of m])
        assume c: "check_packet (take SREJ_MAX_PACKET m) (int (length (take SREJ_MAX_PACKET m))) = Inr False"
        show ?thesis unfolding prod.case Let_def c iobind_eqs using again1 by (simp only: iobind_eqs if_False simp_thms)
      next
        fix f
        assume c: "check_packet (take SREJ_MAX_PACKET m) (int (length (take SREJ_MAX_PACKET m))) = Inr True"
          "get_flag (take SREJ_MAX_PACKET m) = Inr f"
        show ?thesis unfolding prod.case Let_def c iobind_eqs if_True
          using again1 fin by (simp only: simp_thms split: if_split)
      qed
    qed
  qed
qed

text \<open>The filename exchange: only the server's address and, when accepted, the control sequence
  number change.\<close>

definition named :: "RcopyInfo \<Rightarrow> bool \<times> RcopyInfo \<Rightarrow> bool" where
  "named info r \<longleftrightarrow> snd r = info\<lparr>ri_server := ri_server (snd r),
    ri_control_seq := (if fst r then ri_control_seq info + 1 else ri_control_seq info)\<rparr>"

lemma post_filename_loop:
  assumes "cli_log F cs w" and "socket_polled w"
    and p: "0 < n" "n \<le> int (length packet)" "cli_msg cs (take (nat n) packet)"
  shows "post (filename_loop info packet n tries) w
    (\<lambda>r v. named info r \<and> cli_log F cs v \<and> socket_polled v \<and> asked w v) (cli_end F)"
  using assms(1,2)
proof (induction "nat (10 - tries)" arbitrary: tries info w rule: less_induct)
  case less
  let ?Q = "\<lambda>info w r v. named info r \<and> cli_log F cs v \<and> socket_polled v \<and> asked w v"
  show ?case
  proof (cases "tries < 10")
    case False
    then have "filename_loop info packet n tries = ret (False, info)"
      by (simp add: filename_loop.simps [of info packet n tries])
    with less.prems show ?thesis by (simp add: named_def)
  next
    case True
    have again: "post (filename_loop j packet n (tries + 1)) v (?Q info w) (cli_end F)"
      if "cli_log F cs v" "socket_polled v" "asked w v" "j = info\<lparr>ri_server := a\<rparr>" for j v a
    proof -
      have "post (filename_loop j packet n (tries + 1)) v (?Q j v) (cli_end F)"
        by (rule less.hyps) (use True that in simp_all)
      then show ?thesis
        by (rule post_mono) (use that in \<open>auto simp: named_def intro: asked_trans\<close>)
    qed
    have unfold: "filename_loop info packet n tries =
      iobind (safeSendto packet n (ri_server info)) (\<lambda>_. iobind (pollCall POLL_ONE_SEC) (\<lambda>ready.
        if ready < 0 then filename_loop info packet n (tries + 1)
        else iobind (safeRecvfrom (int SREJ_MAX_PACKET)) (\<lambda>(server, in_packet).
           let info = info\<lparr>ri_server := server\<rparr>; in_len = int (length in_packet) in
           iobind (lift_res (check_packet in_packet in_len)) (\<lambda>ok.
           iobind (if ok then lift_res (get_flag in_packet) else ret 0) (\<lambda>flag.
             if ok \<and> flag = FLAG_FILENAME_RESP then
               if in_len < int SREJ_HEADER_LEN + 1 then ret (False, info)
               else iobind (lift_res (arr_get in_packet (int SREJ_HEADER_LEN))) (\<lambda>value.
                 if value \<noteq> 0 then ret (False, info)
                 else ret (True, info\<lparr>ri_control_seq := ri_control_seq info + 1\<rparr>))
             else filename_loop info packet n (tries + 1))))))"
      unfolding filename_loop.simps [of info packet n tries] using True by (simp only: if_True)
    show ?thesis
      unfolding unfold
    proof (rule post_ask [OF less.prems zero_le_numeral p])
      show "post (filename_loop info packet n (tries + 1)) v (?Q info w) (cli_end F)"
        if "cli_log F cs v" "socket_polled v" "asked w v" for v
        by (rule again [OF that, of info "ri_server info"]) simp
    next
      fix v src and m :: bytes
      assume v: "cli_log F cs v" "socket_polled v" "asked w v"
      let ?i = "info\<lparr>ri_server := src\<rparr>" and ?p = "take SREJ_MAX_PACKET m"
      have again1: "post (filename_loop ?i packet n (tries + 1)) v (?Q info w) (cli_end F)"
        by (rule again [OF v, of _ src]) simp
      have no: "post (ret (False, ?i)) v (?Q info w) (cli_end F)"
        and yes: "post (ret (True, ?i\<lparr>ri_control_seq := ri_control_seq ?i + 1\<rparr>)) v (?Q info w) (cli_end F)"
        using v by (simp_all add: named_def)
      show "post (case (src, ?p) of (server, in_packet) \<Rightarrow>
           let info = info\<lparr>ri_server := server\<rparr>; in_len = int (length in_packet) in
           iobind (lift_res (check_packet in_packet in_len)) (\<lambda>ok.
           iobind (if ok then lift_res (get_flag in_packet) else ret 0) (\<lambda>flag.
             if ok \<and> flag = FLAG_FILENAME_RESP then
               if in_len < int SREJ_HEADER_LEN + 1 then ret (False, info)
               else iobind (lift_res (arr_get in_packet (int SREJ_HEADER_LEN))) (\<lambda>value.
                 if value \<noteq> 0 then ret (False, info)
                 else ret (True, info\<lparr>ri_control_seq := ri_control_seq info + 1\<rparr>))
             else filename_loop info packet n (tries + 1)))) v (?Q info w) (cli_end F)"
      proof (rule check_packet_received [of m])
        assume c: "check_packet ?p (int (length ?p)) = Inr False"
        show ?thesis unfolding prod.case Let_def c iobind_eqs using again1 by (simp only: iobind_eqs if_False simp_thms)
      next
        fix f
        assume c: "check_packet ?p (int (length ?p)) = Inr True" "get_flag ?p = Inr f"
        have e: "post (if int (length ?p) < int SREJ_HEADER_LEN + 1 then ret (False, ?i)
               else iobind (lift_res (arr_get ?p (int SREJ_HEADER_LEN))) (\<lambda>value.
                 if value \<noteq> 0 then ret (False, ?i)
                 else ret (True, ?i\<lparr>ri_control_seq := ri_control_seq ?i + 1\<rparr>))) v (?Q info w) (cli_end F)"
        proof (cases "int (length ?p) < int SREJ_HEADER_LEN + 1")
          case True
          with no show ?thesis by (simp only: if_True)
        next
          case False
          then have g: "arr_get ?p (int SREJ_HEADER_LEN) = Inr (?p ! 7)" by (subst arr_get_Inr) simp_all
          show ?thesis unfolding g iobind_eqs using False no yes by (simp only: if_False split: if_split) blast
        qed
        show ?thesis unfolding prod.case Let_def c iobind_eqs if_True
          using again1 e by (simp only: simp_thms split: if_split)
      qed
    qed
  qed
qed

text \<open>The filename packet carries both sizes in network order and the name with its NUL.\<close>

definition name_payload :: "int \<Rightarrow> int \<Rightarrow> bytes \<Rightarrow> bytes" where
  "name_payload ws bs name = be_bytes32 (word_of_int ws) @ be_bytes32 (word_of_int bs) @ name @ [0]"

lemma length_name_payload [simp]: "length (name_payload ws bs name) = 9 + length name"
  by (simp add: name_payload_def)

lemma send_filename_packet_eq:
  assumes "length name \<le> SREJ_MAX_NAME"
  shows "\<exists>rest. send_filename_packet name info = filename_loop info
    (packet_bytes (ri_control_seq info) FLAG_FILENAME
      (name_payload (ri_window_size info) (ri_buffer_size info) name) @ rest)
    (int (16 + length name)) 0"
proof -
  let ?ws = "be_bytes32 (word_of_int (ri_window_size info))" and ?bs = "be_bytes32 (word_of_int (ri_buffer_size info))"
  let ?pl = "name_payload (ri_window_size info) (ri_buffer_size info) name"
  let ?u = "uninit (SREJ_MAX_NAME + 9)"
  have 1: "write_u32 ?u 0 (word_of_int (ri_window_size info)) = Inr (?ws @ drop 4 ?u)" by simp
  have 2: "write_u32 (?ws @ drop 4 ?u) 4 (word_of_int (ri_buffer_size info)) = Inr (?ws @ ?bs @ drop 8 ?u)"
    by (subst write_u32_Inr) simp_all
  have 3: "mem_write (?ws @ ?bs @ drop 8 ?u) 8 (name @ [0]) = Inr (?pl @ drop (9 + length name) ?u)"
    using assms by (subst mem_write_Inr) (simp_all add: name_payload_def add.commute)
  have n: "nat (int (length name) + 1 + 8) = 9 + length name" by linarith
  have tk: "take (9 + length name) (?pl @ drop (9 + length name) ?u) = ?pl" by simp
  have "\<exists>rest. make_packet (uninit SREJ_MAX_PACKET) (ri_control_seq info) FLAG_FILENAME (?pl @ drop (9 + length name) ?u)
      (int (length name) + 1 + 8) = Inr (packet_bytes (ri_control_seq info) FLAG_FILENAME ?pl @ rest, int (16 + length name))"
    using make_packet_eq [of "int (length name) + 1 + 8" "?pl @ drop (9 + length name) ?u" "uninit SREJ_MAX_PACKET"
        "ri_control_seq info" FLAG_FILENAME] assms unfolding n tk by simp
  then obtain rest where 4: "make_packet (uninit SREJ_MAX_PACKET) (ri_control_seq info) FLAG_FILENAME
      (?pl @ drop (9 + length name) ?u) (int (length name) + 1 + 8) =
      Inr (packet_bytes (ri_control_seq info) FLAG_FILENAME ?pl @ rest, int (16 + length name))" by blast
  have "send_filename_packet name info = filename_loop info
      (packet_bytes (ri_control_seq info) FLAG_FILENAME ?pl @ rest) (int (16 + length name)) 0"
    unfolding send_filename_packet_def Let_def 1 2 3 4 iobind_eqs prod.case ..
  then show ?thesis by blast
qed

lemma read_u32_packet_bytes: "read_u32 (packet_bytes s f (be_bytes32 v)) 7 = Inr v"
proof -
  have "fits (be_bytes32 v)" by simp
  then obtain c where "packet_bytes s f (be_bytes32 v) = be_bytes32 s @ le_bytes16 c @ f # be_bytes32 v"
    by (rule packet_bytes_form [of "be_bytes32 v" s f "[]"])
  then have p: "packet_bytes s f (be_bytes32 v) = (be_bytes32 s @ le_bytes16 c @ [f]) @ be_bytes32 v @ []" by simp
  have "length (be_bytes32 s @ le_bytes16 c @ [f]) = 7" by simp
  with read_u32_be [of "be_bytes32 s @ le_bytes16 c @ [f]" v "[]"] show ?thesis unfolding p by simp
qed

text \<open>What the child reads in a filename packet that was copied into its cleared array.\<close>

lemma name_packet_fields:
  assumes name: "length name \<le> SREJ_MAX_NAME" "0 \<notin> set name"
    and p: "p = packet_bytes s FLAG_FILENAME (name_payload ws b name)"
  shows "read_u32 (p @ replicate k 0) 7 = Inr (word_of_int ws)"
    and "read_u32 (p @ replicate k 0) (7 + 4) = Inr (word_of_int b)"
    and "c_string (p @ replicate k 0) (7 + 8) = Inr name"
proof -
  let ?d = "name_payload ws b name"
  have fits: "fits ?d" using name(1) by simp
  obtain c where c: "p = be_bytes32 s @ le_bytes16 c @ FLAG_FILENAME # ?d"
    using packet_bytes_form [OF fits, of s FLAG_FILENAME "[]"] p by metis
  let ?h = "be_bytes32 s @ le_bytes16 c @ [FLAG_FILENAME]"
  let ?W = "word_of_int ws :: u32" and ?B = "word_of_int b :: u32" and ?z = "replicate k (0 :: u8)"
  have f: "p @ ?z = ?h @ be_bytes32 ?W @ be_bytes32 ?B @ name @ 0 # ?z"
    by (subst c) (simp add: name_payload_def)
  have "length ?h = 7" by simp
  with read_u32_be [of ?h ?W] show "read_u32 (p @ ?z) 7 = Inr ?W" unfolding f by metis
  have "length (?h @ be_bytes32 ?W) = 7 + 4" by simp
  with read_u32_be [of "?h @ be_bytes32 ?W" ?B] show "read_u32 (p @ ?z) (7 + 4) = Inr ?B"
    unfolding f by (metis append.assoc)
  have "length (?h @ be_bytes32 ?W @ be_bytes32 ?B) = 15" by simp
  then have dr: "drop 15 (p @ ?z) = name @ 0 # ?z"
    unfolding f by (metis append.assoc append_eq_conv_conj)
  have "takeWhile (\<lambda>x. x \<noteq> 0) (name @ 0 # ?z) = name"
    using name(2) by (subst takeWhile_append2) auto
  moreover have "length (p @ ?z) = 15 + (length name + 1 + length ?z)" unfolding f by simp
  ultimately show "c_string (p @ ?z) (7 + 8) = Inr name"
    using dr by (simp add: c_string_def)
qed

lemma post_send_filename_packet:
  assumes "length name \<le> SREJ_MAX_NAME" and "cli_log F cs w" and "socket_polled w"
  shows "post (send_filename_packet name info) w
    (\<lambda>r v. named info r \<and> cli_log F cs v \<and> socket_polled v \<and> asked w v) (cli_end F)"
proof -
  let ?m = "packet_bytes (ri_control_seq info) FLAG_FILENAME
    (name_payload (ri_window_size info) (ri_buffer_size info) name)"
  obtain rest where e: "send_filename_packet name info = filename_loop info (?m @ rest) (int (16 + length name)) 0"
    using send_filename_packet_eq [OF assms(1)] by blast
  have l: "length ?m = 16 + length name" using assms(1) by simp
  have "cli_msg cs ?m" using assms(1) by (auto simp: cli_msg_def intro!: cli_otherI)
  moreover have "take (nat (int (16 + length name))) (?m @ rest) = ?m" unfolding nat_int l [symmetric] by simp
  ultimately show ?thesis
    unfolding e by (intro post_filename_loop assms(2,3)) (use l in simp_all)
qed

section \<open>The state machine\<close>

text \<open>
  \<open>W\<close> is the window size of the command line. The numbers never wrap when the file and the
  window together are below the range; only the bound on the number of turns needs that.
\<close>

definition nowrap :: "bytes \<Rightarrow> int \<Rightarrow> bool" where
  "nowrap F W \<longleftrightarrow> 2 + length F + nat W < 4294967296"

text \<open>The end of a client: without an error the whole file was sent and its end acknowledged.\<close>

definition acked_all :: "bytes \<Rightarrow> net_event list \<Rightarrow> bytes list \<Rightarrow> bool" where
  "acked_all F N cs \<longleftrightarrow> F = concat cs \<and> (cs = [] \<or> rr_seen N (2 + length cs))"

definition cli_done :: "bytes \<Rightarrow> net_event list \<Rightarrow> RcopyInfo \<Rightarrow> world \<Rightarrow> bool" where
  "cli_done F N info w \<longleftrightarrow> (win_alloc (ri_window info) \<longrightarrow> 0 < live w) \<and>
    (\<exists>cs. cli_log F cs w \<and> (ri_had_error info \<noteq> 1 \<longrightarrow> acked_all F N cs))"

definition pre_ok :: "bytes \<Rightarrow> net_event list \<Rightarrow> int \<Rightarrow> RcopyInfo \<Rightarrow> world \<Rightarrow> bool" where
  "pre_ok F N W info w \<longleftrightarrow> socket_polled w \<and> cli_log F [] w \<and> set (net w) \<subseteq> set N \<and> in_rest w = F \<and>
    0 < W \<and> W < 1073741824 \<and> ri_window_size info = W \<and>
    0 < ri_buffer_size info \<and> ri_buffer_size info \<le> int SREJ_MAX_DATA \<and>
    ri_control_seq info = 1 \<and> ri_file_done info = 0 \<and> ri_had_error info = 0 \<and> ri_retry_count info = 0 \<and>
    \<not> win_alloc (ri_window info)"

definition sending :: "bytes \<Rightarrow> net_event list \<Rightarrow> int \<Rightarrow> RcopyInfo \<Rightarrow> world \<Rightarrow> bool" where
  "sending F N W info w \<longleftrightarrow> win_size (ri_window info) = W \<and> (\<exists>cs. sender_ok F N cs info w)"

definition cli_rank :: "STATE \<Rightarrow> RcopyInfo \<Rightarrow> world \<Rightarrow> nat" where
  "cli_rank st info w = (case st of
     START_STATE \<Rightarrow> 13 * todo w + 14
   | FILENAME \<Rightarrow> 13 * todo w + 13
   | SEND_DATA \<Rightarrow> 13 * todo w + 12
   | WAIT_ON_ACK \<Rightarrow> 13 * todo w + nat (11 - ri_retry_count info)
   | SEND_EOF \<Rightarrow> 1
   | DONE \<Rightarrow> 0)"

definition cli_inv :: "bytes \<Rightarrow> net_event list \<Rightarrow> int \<Rightarrow> bytes list \<Rightarrow> STATE \<Rightarrow> RcopyInfo \<Rightarrow> world \<Rightarrow> bool" where
  "cli_inv F N W argv st info w \<longleftrightarrow>
    (case st of
       START_STATE \<Rightarrow> info = zero_RcopyInfo \<and> length argv = 8 \<and> length (argv ! 2) \<le> SREJ_MAX_NAME \<and>
         atoi (argv ! 3) = W \<and> 0 < W \<and> W < 1073741824 \<and>
         0 < atoi (argv ! 4) \<and> atoi (argv ! 4) \<le> int SREJ_MAX_DATA \<and>
         hung w = [] \<and> 0 \<le> maxFileDescriptor w \<and> maxFileDescriptor w \<le> 10 \<and>
         cli_log F [] w \<and> set (net w) \<subseteq> set N \<and> in_rest w = F
     | FILENAME \<Rightarrow> pre_ok F N W info w \<and> length argv = 8 \<and> length (argv ! 2) \<le> SREJ_MAX_NAME
     | SEND_DATA \<Rightarrow> sending F N W info w
     | WAIT_ON_ACK \<Rightarrow> sending F N W info w \<and> (nowrap F W \<longrightarrow> \<not> window_empty (ri_window info))
     | SEND_EOF \<Rightarrow> \<exists>cs. sender_ok F N cs info w \<and> acked_all F N cs
     | DONE \<Rightarrow> cli_done F N info w)"

abbreviation cli_next ::
  "bytes \<Rightarrow> net_event list \<Rightarrow> int \<Rightarrow> bytes list \<Rightarrow> STATE \<Rightarrow> RcopyInfo \<Rightarrow> world \<Rightarrow> STATE \<times> RcopyInfo \<Rightarrow> world \<Rightarrow> bool" where
  "cli_next F N W argv st info w r w' \<equiv> cli_inv F N W argv (fst r) (snd r) w' \<and>
    (nowrap F W \<longrightarrow> cli_rank (fst r) (snd r) w' < cli_rank st info w)"

lemma sender_ok_window:
  assumes "sender_ok F N cs info w"
  shows "win_inv (ri_window info)" "win_cur (ri_window info) = 2 + length cs" "length cs \<le> length F"
    "cli_win N cs (ri_window info)" "cli_log F cs w" "cli_ok F N cs info w" "socket_polled w"
proof -
  show ok: "cli_ok F N cs info w" using assms unfolding sender_ok_def by blast
  then show "win_inv (ri_window info)" "win_cur (ri_window info) = 2 + length cs"
    "cli_win N cs (ri_window info)" "cli_log F cs w" "socket_polled w" by (simp_all add: cli_ok_def cli_win_def)
  have F: "F = concat cs @ in_rest w" "length cs \<le> length (concat cs)" using assms unfolding sender_ok_def by blast+
  from arg_cong [OF F(1), of length] F(2) show "length cs \<le> length F" by simp
qed

text \<open>Away from the wrap-around an empty window is open.\<close>

lemma empty_window_open:
  assumes "sender_ok F N cs info w" and "win_size (ri_window info) = W" and "nowrap F W"
    and "window_empty (ri_window info)"
  shows "window_open (ri_window info)"
proof -
  note s = sender_ok_window [OF assms(1)]
  have "0 < win_size (ri_window info)" using s(1) by (simp add: win_inv_def win_shape_def)
  then show ?thesis
    using s(2,3) assms(2,3,4) by (simp add: window_open_iff [OF s(1)] window_empty_def nowrap_def)
qed

lemma post_send_data_state:
  assumes "sending F N W info w"
  shows "post (send_data_state info) w (cli_next F N W argv SEND_DATA info w) (cli_end F)"
proof -
  from assms obtain cs where s: "sender_ok F N cs info w" and W: "win_size (ri_window info) = W"
    by (auto simp: sending_def)
  show ?thesis
    unfolding send_data_state_def
  proof (rule post_seq [OF post_send_data_loop [OF s]])
    fix r v
    assume r: "case fst r of
       Some st \<Rightarrow> st = DONE \<and> cli_end F v \<and> ri_had_error (snd r) = 1 \<and>
         (win_alloc (ri_window (snd r)) \<longrightarrow> 0 < live v)
     | None \<Rightarrow> (\<exists>cs'. sender_ok F N cs' (snd r) v) \<and> todo v \<le> todo w \<and>
         win_size (ri_window (snd r)) = win_size (ri_window info) \<and>
         (window_open (ri_window (snd r)) \<longrightarrow> ri_file_done (snd r) = 1)"
    obtain early j where rj: "r = (early, j)" by (cases r)
    let ?Q = "cli_next F N W argv SEND_DATA info w"
    show "post (case r of (early, info) \<Rightarrow> (case early of Some st \<Rightarrow> ret (st, info)
        | None \<Rightarrow> if ri_file_done info = 1 \<and> window_empty (ri_window info) then ret (SEND_EOF, info)
          else ret (WAIT_ON_ACK, info))) v ?Q (cli_end F)"
    proof (cases early)
      case (Some st)
      with r rj show ?thesis by (auto simp: cli_inv_def cli_done_def cli_end_def cli_rank_def)
    next
      case None
      with r rj obtain cs' where j: "sender_ok F N cs' j v" "todo v \<le> todo w"
        "win_size (ri_window j) = W" "window_open (ri_window j) \<longrightarrow> ri_file_done j = 1" using W by auto
      have retry: "0 \<le> ri_retry_count j" using j(1) by (simp add: sender_ok_def)
      show ?thesis
      proof (cases "ri_file_done j = 1 \<and> window_empty (ri_window j)")
        case True
        note sw = sender_ok_window [OF j(1)]
        from j(1) True have Fv: "F = concat cs' @ in_rest v" "in_rest v = []" unfolding sender_ok_def by auto
        have lo: "win_lo (ri_window j) = 2 + length cs'" using True sw(2) by (simp add: window_empty_def)
        have "win_lo (ri_window j) = 2 \<or> rr_seen N (win_lo (ri_window j))" using sw(4) by (simp add: cli_win_def)
        with lo Fv have "acked_all F N cs'" by (auto simp: acked_all_def)
        with j(1) True None show ?thesis by (auto simp: rj cli_inv_def cli_rank_def)
      next
        case False
        have "nowrap F W \<Longrightarrow> \<not> window_empty (ri_window j)"
          using False j(4) empty_window_open [OF j(1,3)] by blast
        moreover have "cli_rank WAIT_ON_ACK j v < cli_rank SEND_DATA info w"
          using j(2) retry by (simp add: cli_rank_def)
        ultimately show ?thesis using j(1,3) False None by (auto simp: rj cli_inv_def sending_def)
      qed
    qed
  qed
qed

lemma post_wait_on_ack_state:
  assumes inv: "cli_inv F N W argv WAIT_ON_ACK info w"
  shows "post (wait_on_ack_state info) w (cli_next F N W argv WAIT_ON_ACK info w) (cli_end F)"
proof -
  from inv obtain cs where s: "sender_ok F N cs info w" and W: "win_size (ri_window info) = W"
    and ne: "nowrap F W \<Longrightarrow> \<not> window_empty (ri_window info)"
    by (auto simp: cli_inv_def sending_def)
  have retry: "0 \<le> ri_retry_count info" "ri_retry_count info < 10" using s by (simp_all add: sender_ok_def)
  let ?Q = "cli_next F N W argv WAIT_ON_ACK info w"
  show ?thesis
    unfolding wait_on_ack_state_def
  proof (rule post_seq [OF post_process_controls [OF sender_ok_window(6) [OF s] zero_le_numeral]])
    fix r v
    assume r: "controls_post F N cs info w 0 r v"
    obtain j c where rj: "r = (j, c)" by (cases r)
    have f: "ctl_frame info w j v" and ok: "cli_ok F N cs j v" using r rj by simp_all
    have sj: "sender_ok F N cs j v" by (rule sender_ok_frame [OF s ok f])
    note k = ctl_frame_sel [OF f]
    have "post (ret (SEND_DATA, j\<lparr>ri_retry_count := 0\<rparr>)) v ?Q (cli_end F)" if "0 < c"
    proof -
      have "sender_ok F N cs (j\<lparr>ri_retry_count := 0\<rparr>) v"
        using sj cli_ok_cong [OF ok, of "j\<lparr>ri_retry_count := 0\<rparr>" v] ok
        by (auto simp: sender_ok_def cli_ok_def)
      moreover have "cli_rank SEND_DATA (j\<lparr>ri_retry_count := 0\<rparr>) v < cli_rank WAIT_ON_ACK info w"
        using r rj that k(9) retry by (simp add: cli_rank_def)
      ultimately show ?thesis using W k(6) by (auto simp: cli_inv_def sending_def)
    qed
    moreover have "post (iobind (lift_res (window_lowest (ri_window j))) (\<lambda>entry.
        case entry of
          None \<Rightarrow> ret (SEND_DATA, j)
        | Some e \<Rightarrow>
            let info = j\<lparr>ri_retry_count := ri_retry_count j + 1\<rparr> in
            if ri_retry_count info \<ge> MAX_TRIES then ret (DONE, info\<lparr>ri_had_error := 1\<rparr>)
            else iobind (resend_packet info e) (\<lambda>_. ret (WAIT_ON_ACK, info)))) v ?Q (cli_end F)" if "\<not> 0 < c"
    proof -
      have same: "ri_window j = ri_window info" using r rj that by (auto split: if_splits)
      note sw = sender_ok_window [OF sj]
      from window_lowest_spec [OF sw(1)] show ?thesis
      proof (elim disjE conjE exE)
        assume e: "win_lower (ri_window j) = win_current (ri_window j)" "window_lowest (ri_window j) = Inr None"
        with ne same have "\<not> nowrap F W" by (auto simp: window_empty_def)
        with sj W same show ?thesis unfolding e(2) iobind_eqs by (auto simp: cli_inv_def sending_def)
      next
        fix e p
        assume e: "window_lowest (ri_window j) = Inr (Some e)" "win_pending (ri_window j) (win_lo (ri_window j)) = Some p"
          "entry_packet e p"
        let ?i = "j\<lparr>ri_retry_count := ri_retry_count j + 1\<rparr>"
        note q = cli_win_pending [OF sw(4) e(2)]
        then have "win_lo (ri_window j) - 2 < length cs" by linarith
        note d = data_packet_sendable [OF sw(5) this]
        have stop: "post (ret (DONE, ?i\<lparr>ri_had_error := 1\<rparr>)) v ?Q (cli_end F)"
          using sw(5,6) retry by (auto simp: cli_inv_def cli_done_def cli_rank_def cli_ok_def)
        have go: "post (iobind (resend_packet ?i e) (\<lambda>_. ret (WAIT_ON_ACK, ?i))) v ?Q (cli_end F)"
          if "\<not> ri_retry_count ?i \<ge> 10"
        proof (rule post_seq [OF post_resend_packet [OF e(3) _ _ sw(5)]])
          show "cli_msg cs p" "p \<noteq> []" using d q(3) by simp_all
          fix x u
          assume u: "cli_log F cs u \<and> u = v\<lparr>sends := tl (sends v), sent := sent v @ [(ri_server ?i, p)]\<rparr>"
          then have "sender_ok F N cs ?i u" using sj that by (auto simp: sender_ok_def cli_ok_def)
          moreover have "cli_rank WAIT_ON_ACK ?i u < cli_rank WAIT_ON_ACK info w"
            using u that k(4,9,10) retry by (simp add: cli_rank_def)
          moreover have "nowrap F W \<Longrightarrow> \<not> window_empty (ri_window ?i)" using ne same by simp
          ultimately show "post (ret (WAIT_ON_ACK, ?i)) u ?Q (cli_end F)"
            using W same by (auto simp: cli_inv_def sending_def)
        qed
        from stop go show ?thesis unfolding e(1) iobind_eqs option.case Let_def
          by (simp only: split: if_split) blast
      qed
    qed
    ultimately show "post (case r of (info, got_control) \<Rightarrow>
      if got_control > 0 then ret (SEND_DATA, info\<lparr>ri_retry_count := 0\<rparr>)
      else iobind (lift_res (window_lowest (ri_window info))) (\<lambda>entry.
        case entry of
          None \<Rightarrow> ret (SEND_DATA, info)
        | Some e \<Rightarrow>
            let info = info\<lparr>ri_retry_count := ri_retry_count info + 1\<rparr> in
            if ri_retry_count info \<ge> MAX_TRIES then ret (DONE, info\<lparr>ri_had_error := 1\<rparr>)
            else iobind (resend_packet info e) (\<lambda>_. ret (WAIT_ON_ACK, info)))) v ?Q (cli_end F)"
      unfolding rj prod.case by (simp only: split: if_split) blast
  qed
qed

lemma post_send_eof_state:
  assumes s: "sender_ok F N cs info w" and a: "acked_all F N cs"
  shows "post (send_eof_state info) w (cli_next F N W argv SEND_EOF info w) (cli_end F)"
proof -
  note sw = sender_ok_window [OF s]
  let ?m = "packet_bytes (win_current (ri_window info)) FLAG_EOF []"
  let ?arr = "?m @ drop 7 (uninit SREJ_MAX_PACKET)"
  have mk: "make_packet (uninit SREJ_MAX_PACKET) (win_current (ri_window info)) FLAG_EOF [] 0 = Inr (?arr, 7)"
    using make_packet_sent [of "[]" 0 "uninit SREJ_MAX_PACKET"] by simp
  have "take (nat 7) ?arr = ?m" by simp
  then have msg: "cli_msg cs (take (nat 7) ?arr)" by (simp add: cli_msg_def cli_otherI)
  have live: "win_alloc (ri_window info) \<longrightarrow> 0 < live w" using sw(6) by (simp add: cli_ok_def)
  have "post (send_eof_loop info ?arr 7 0) w
      (\<lambda>r v. fst r = DONE \<and> ri_window (snd r) = ri_window info \<and> cli_log F cs v \<and> live v = live w) (cli_end F)"
    by (rule post_send_eof_loop [OF sw(5,7) _ _ msg]) simp_all
  then show ?thesis
    unfolding send_eof_state_def mk iobind_eqs prod.case
    by (rule post_mono) (use a live in \<open>auto simp: cli_inv_def cli_done_def cli_rank_def\<close>)
qed

lemma post_open_input_file:
  "post (open_input_file name) w
    (\<lambda>fd v. 0 \<le> fd \<and> sent v = sent w \<and> net v = net w \<and> in_rest v = in_rest w \<and> hung v = hung w \<and>
      maxFileDescriptor v = maxFileDescriptor w)
    (\<lambda>v. sent v = sent w)"
  by (auto simp: post_def open_input_file_def sys_open_read_def iobind_def sys_new_fd_def split: list.split)

lemma post_filename_state:
  assumes inv: "cli_inv F N W argv FILENAME info w"
  shows "post (filename_state argv info) w (cli_next F N W argv FILENAME info w) (cli_end F)"
proof -
  from inv have p: "pre_ok F N W info w" and a: "length argv = 8" "length (argv ! 2) \<le> SREJ_MAX_NAME"
    by (simp_all add: cli_inv_def)
  from p have q: "socket_polled w" "cli_log F [] w" by (simp_all add: pre_ok_def)
  have a2: "arr_get argv 2 = Inr (argv ! 2)" using a(1) by simp
  let ?Q = "cli_next F N W argv FILENAME info w"
  show ?thesis
    unfolding filename_state_def a2 iobind_eqs
  proof (rule post_seq [OF post_send_filename_packet [OF a(2) q(2,1)]])
    fix r v
    assume r: "named info r \<and> cli_log F [] v \<and> socket_polled v \<and> asked w v"
    obtain b j where rj: "r = (b, j)" by (cases r)
    from r rj have j: "j = info\<lparr>ri_server := ri_server j,
        ri_control_seq := (if b then ri_control_seq info + 1 else ri_control_seq info)\<rparr>"
      by (simp add: named_def)
    then have jf: "ri_window j = ri_window info" "ri_window_size j = ri_window_size info"
      "ri_buffer_size j = ri_buffer_size info" "ri_file_done j = ri_file_done info"
      "ri_had_error j = ri_had_error info" "ri_retry_count j = ri_retry_count info"
      "ri_control_seq j = (if b then ri_control_seq info + 1 else ri_control_seq info)"
      by (cases j, cases info, simp)+
    have no: "post (ret (DONE, j\<lparr>ri_had_error := 1\<rparr>)) v ?Q (cli_end F)"
      using r p jf by (auto simp: cli_inv_def cli_done_def cli_rank_def pre_ok_def)
    have yes: "post (iobind (window_init (ri_window j) (ri_window_size j) (ri_control_seq j)) (\<lambda>win.
        ret (SEND_DATA, j\<lparr>ri_window := win\<rparr>))) v ?Q (cli_end F)" if b
    proof (rule post_seq [OF post_mono [OF post_window_init]])
      have W: "ri_window_size j = W" "0 < W" "W < 1073741824" using p jf(2) by (simp_all add: pre_ok_def)
      then show "0 < ri_window_size j" "ri_window_size j < 2 ^ 31" by simp_all
      show "cli_end F u" if "allocs v \<noteq> [] \<and> u = v\<lparr>allocs := tl (allocs v)\<rparr>" for u
        using r that by (auto intro: cli_end_cong [OF cli_endI])
      fix win u
      assume *: "win_inv win \<and> win_alloc win \<and> win_size win = ri_window_size j \<and>
        win_lower win = ri_control_seq j \<and> win_current win = ri_control_seq j \<and>
        (\<forall>n. win_pending win n = None) \<and> u = v\<lparr>allocs := tl (allocs v), live := Suc (live v)\<rparr>"
      have "ri_control_seq j = 2" using p jf(7) that by (simp add: pre_ok_def)
      then have "cli_win N [] win" using * by (simp add: cli_win_def sliding.holds_stream_def)
      moreover have "cli_log F [] u" using r * by (auto intro: cli_log_cong)
      ultimately have "cli_ok F N [] (j\<lparr>ri_window := win\<rparr>) u"
        using r p jf(3) * by (auto simp: cli_ok_def pre_ok_def asked_def)
      then have "sender_ok F N [] (j\<lparr>ri_window := win\<rparr>) u"
        using r p jf * by (auto simp: sender_ok_def pre_ok_def asked_def)
      then have "cli_inv F N W argv SEND_DATA (j\<lparr>ri_window := win\<rparr>) u"
        using * W(1) by (auto simp: cli_inv_def sending_def)
      moreover have "cli_rank SEND_DATA (j\<lparr>ri_window := win\<rparr>) u < cli_rank FILENAME info w"
        using r * by (auto simp: cli_rank_def asked_def)
      ultimately show "cli_inv F N W argv SEND_DATA (j\<lparr>ri_window := win\<rparr>) u \<and>
        cli_rank SEND_DATA (j\<lparr>ri_window := win\<rparr>) u < cli_rank FILENAME info w" by blast
    next
      fix win u
      assume "cli_inv F N W argv SEND_DATA (j\<lparr>ri_window := win\<rparr>) u \<and>
        cli_rank SEND_DATA (j\<lparr>ri_window := win\<rparr>) u < cli_rank FILENAME info w"
      then show "post (ret (SEND_DATA, j\<lparr>ri_window := win\<rparr>)) u ?Q (cli_end F)" by simp
    qed
    show "post (case r of (accepted, info) \<Rightarrow>
      if accepted then
        iobind (window_init (ri_window info) (ri_window_size info) (ri_control_seq info)) (\<lambda>win.
        ret (SEND_DATA, info\<lparr>ri_window := win\<rparr>))
      else ret (DONE, info\<lparr>ri_had_error := 1\<rparr>)) v ?Q (cli_end F)"
      unfolding rj prod.case using yes no by (simp only: split: if_split) blast
  qed
qed

lemma post_start_state:
  assumes inv: "cli_inv F N W argv START_STATE info w"
  shows "post (start_state junk argv info) w (cli_next F N W argv START_STATE info w) (cli_end F)"
proof -
  from inv have i: "info = zero_RcopyInfo" "length argv = 8" "length (argv ! 2) \<le> SREJ_MAX_NAME"
    "atoi (argv ! 3) = W" "0 < W" "W < 1073741824" "0 < atoi (argv ! 4)" "atoi (argv ! 4) \<le> int SREJ_MAX_DATA"
    "0 \<le> maxFileDescriptor w" "maxFileDescriptor w \<le> 10" "cli_log F [] w" "set (net w) \<subseteq> set N" "in_rest w = F"
    and h: "hung w = []"
    by (simp_all add: cli_inv_def)
  have g: "arr_get argv 7 = Inr (argv ! 7)" "arr_get argv 3 = Inr (argv ! 3)" "arr_get argv 4 = Inr (argv ! 4)"
    "arr_get argv 1 = Inr (argv ! 1)" using i(2) by simp_all
  let ?same = "\<lambda>v :: world. sent v = sent w \<and> net v = net w \<and> in_rest v = in_rest w \<and> hung v = []"
  have ce: "cli_end F v" if "sent v = sent w" for v by (rule cli_end_cong [OF cli_endI [OF i(11)] that])
  let ?Q = "cli_next F N W argv START_STATE info w"
  let ?info = "\<lambda>fd s server. info\<lparr>ri_window_size := atoi (argv ! 3), ri_buffer_size := atoi (argv ! 4),
    ri_input_file := fd, ri_socket_num := s, ri_server := (fst server, htons (word_of_int (atoi (argv ! 7)))),
    ri_control_seq := FIRST_SEQ\<rparr>"
  have poll: "post (iobind setupPollSet (\<lambda>_. iobind (addToPollSet junk s) (\<lambda>_. ret (FILENAME, ?info fd s server)))) v
      ?Q (cli_end F)"
    if v: "0 \<le> s" "udp_fd v = s" "?same v" "maxFileDescriptor v = maxFileDescriptor w" for fd s v and server :: addr
  proof (rule post_seq)
    show "post setupPollSet v (\<lambda>_ u. poll_set_ok u \<and> ?same u \<and> udp_fd u = s) (cli_end F)"
      by (rule post_mono [OF post_setupPollSet]) (use v i ce in \<open>auto simp: same_but_poll_setD\<close>)
    fix x u
    assume u: "poll_set_ok u \<and> ?same u \<and> udp_fd u = s"
    show "post (iobind (addToPollSet junk s) (\<lambda>_. ret (FILENAME, ?info fd s server))) u ?Q (cli_end F)"
    proof (rule post_seq)
      show "post (addToPollSet junk s) u (\<lambda>_ t. socket_polled t \<and> ?same t) (cli_end F)"
        by (rule post_mono [OF post_addToPollSet]) (use u v ce in \<open>auto simp: same_but_poll_setD\<close>)
      fix y t
      assume t: "socket_polled t \<and> ?same t"
      have "cli_log F [] t" by (rule cli_log_cong [OF i(11)]) (use t in simp)
      then have "pre_ok F N W (?info fd s server) t"
        using t i by (simp add: pre_ok_def zero_RcopyInfo_def zero_Window_def)
      then show "post (ret (FILENAME, ?info fd s server)) t ?Q (cli_end F)"
        using t i by (simp add: cli_inv_def cli_rank_def)
    qed
  qed
  show ?thesis
    unfolding start_state_def g iobind_eqs Let_def
  proof (rule post_seq [OF post_mono [OF post_open_input_file]])
    fix fd :: int and v :: world
    assume "0 \<le> fd \<and> sent v = sent w \<and> net v = net w \<and> in_rest v = in_rest w \<and> hung v = hung w \<and>
      maxFileDescriptor v = maxFileDescriptor w"
    then show "?same v \<and> maxFileDescriptor v = maxFileDescriptor w" using h by simp
  next
    show "cli_end F v" if "sent v = sent w" for v by (rule ce [OF that])
  next
    fix fd :: int and v :: world
    assume v: "?same v \<and> maxFileDescriptor v = maxFileDescriptor w"
    show "post (iobind (setupUdpClientToServer (atoi (argv ! 7))) (\<lambda>(socket_num, server).
        iobind setupPollSet (\<lambda>_. iobind (addToPollSet junk socket_num) (\<lambda>_.
        ret (FILENAME, ?info fd socket_num server))))) v ?Q (cli_end F)"
    proof (rule post_seq [OF post_mono [OF post_setupUdpClientToServer]])
      fix r :: "int \<times> addr" and u :: world
      assume u: "0 \<le> fst r \<and> u = v\<lparr>fds := fds u, udp_fd := fst r, hosts := hosts u\<rparr>"
      then obtain f h where "u = v\<lparr>fds := f, udp_fd := fst r, hosts := h\<rparr>" by blast
      then show "0 \<le> fst r \<and> udp_fd u = fst r \<and> ?same u \<and> maxFileDescriptor u = maxFileDescriptor w"
        using u v by simp
    next
      fix u :: world
      assume "u = v\<lparr>fds := fds u, udp_fd := udp_fd u, hosts := hosts u\<rparr>"
      then obtain f d h where "u = v\<lparr>fds := f, udp_fd := d, hosts := h\<rparr>" by blast
      then show "cli_end F u" using v by (intro ce) simp
    next
      fix r :: "int \<times> addr" and u :: world
      assume "0 \<le> fst r \<and> udp_fd u = fst r \<and> ?same u \<and> maxFileDescriptor u = maxFileDescriptor w"
      then show "post (case r of (socket_num, server) \<Rightarrow>
          iobind setupPollSet (\<lambda>_. iobind (addToPollSet junk socket_num) (\<lambda>_.
          ret (FILENAME, ?info fd socket_num server)))) u ?Q (cli_end F)"
        using poll [of "fst r" u "snd r" fd] by (simp only: case_prod_beta)
    qed
  qed
qed

lemma post_rcopy_step:
  assumes inv: "cli_inv F N W argv st info w" and "st \<noteq> DONE"
  shows "post (rcopy_step junk argv st info) w (cli_next F N W argv st info w) (cli_end F)"
proof (cases st)
  case START_STATE
  with inv post_start_state show ?thesis by (simp add: rcopy_step_def)
next
  case FILENAME
  with inv post_filename_state show ?thesis by (simp add: rcopy_step_def)
next
  case SEND_DATA
  with inv have "sending F N W info w" by (simp add: cli_inv_def)
  with SEND_DATA post_send_data_state show ?thesis by (simp add: rcopy_step_def)
next
  case WAIT_ON_ACK
  with inv post_wait_on_ack_state show ?thesis by (simp add: rcopy_step_def)
next
  case SEND_EOF
  with inv obtain cs where "sender_ok F N cs info w" "acked_all F N cs" by (auto simp: cli_inv_def)
  with SEND_EOF post_send_eof_state show ?thesis by (simp add: rcopy_step_def)
qed (use assms(2) in simp)

lemma cli_rank_pos: "cli_inv F N W argv st info w \<Longrightarrow> st \<noteq> DONE \<Longrightarrow> 0 < cli_rank st info w"
  by (cases st) (auto simp: cli_rank_def cli_inv_def sending_def sender_ok_def)

lemma cli_inv_end: "cli_inv F N W argv st info w \<Longrightarrow> cli_end F w"
  by (cases st) (auto simp: cli_inv_def pre_ok_def sending_def cli_done_def
      intro: cli_endI dest: sender_ok_window(5))

text \<open>
  A loop that is not cut short ends as \<open>cli_done\<close> says, and with as many turns as the rank it is
  not cut short.
\<close>

lemma post_rcopy_loop:
  assumes "cli_inv F N W argv st info w"
  shows "post (rcopy_loop junk argv n st info) w
    (\<lambda>r w'. (case r of None \<Rightarrow> cli_end F w' \<and> (cli_rank st info w > n \<or> \<not> nowrap F W)
      | Some info' \<Rightarrow> cli_done F N info' w'))
    (cli_end F)"
  using assms
proof (induction n arbitrary: st info w)
  case 0
  show ?case
  proof (cases "st = DONE")
    case True
    with 0 show ?thesis by (simp add: rcopy_loop.simps [of junk argv 0] post_def cli_inv_def)
  next
    case False
    with cli_rank_pos [OF 0 False] cli_inv_end [OF 0] show ?thesis by (simp add: rcopy_loop.simps [of junk argv 0] post_def)
  qed
next
  case (Suc n)
  show ?case
  proof (cases "st = DONE")
    case True
    with Suc.prems show ?thesis by (simp add: rcopy_loop.simps [of junk argv "Suc n"] post_def cli_inv_def)
  next
    case False
    let ?Q = "\<lambda>r w'. (case r of None \<Rightarrow> cli_end F w' \<and> (cli_rank st info w > Suc n \<or> \<not> nowrap F W)
      | Some info' \<Rightarrow> cli_done F N info' w')"
    have "post (iobind (rcopy_step junk argv st info) (\<lambda>(state, info). rcopy_loop junk argv n state info)) w ?Q (cli_end F)"
    proof (rule post_seq [OF post_rcopy_step [OF Suc.prems False]])
      fix r v
      assume r: "cli_next F N W argv st info w r v"
      from Suc.IH [OF conjunct1 [OF r]]
      have "post (rcopy_loop junk argv n (fst r) (snd r)) v ?Q (cli_end F)"
        by (rule post_mono) (use r in \<open>auto split: option.splits\<close>)
      then show "post (case r of (state, info) \<Rightarrow> rcopy_loop junk argv n state info) v ?Q (cli_end F)"
        by (simp only: case_prod_beta)
    qed
    with False show ?thesis by (simp only: rcopy_loop.simps [of junk argv "Suc n"] nat.case if_False)
  qed
qed

text \<open>What the command line check guarantees.\<close>

lemma check_args_ok:
  assumes "check_args argv error_rate = Inr ()"
  shows "length argv = 8" "length (argv ! 1) \<le> SREJ_MAX_NAME" "length (argv ! 2) \<le> SREJ_MAX_NAME"
    "0 < atoi (argv ! 3)" "atoi (argv ! 3) < 1073741824" "0 < atoi (argv ! 4)" "atoi (argv ! 4) \<le> int SREJ_MAX_DATA"
    "0 \<le> error_rate" "error_rate \<le> 1"
  using assms by (auto simp: check_args_def check_number_args_def Let_def split: if_splits)

lemma check_args_exits: "check_args argv error_rate = Inr () \<or> check_args argv error_rate = Inl (Exit (- 1))"
  by (auto simp: check_args_def check_number_args_def Let_def)

text \<open>A fresh process: nothing sent, no poll set yet, the file not read.\<close>

definition cli_fresh :: "bytes \<Rightarrow> world \<Rightarrow> bool" where
  "cli_fresh F w \<longleftrightarrow> sent w = [] \<and> in_rest w = F \<and> hung w = [] \<and> 0 \<le> maxFileDescriptor w \<and> maxFileDescriptor w \<le> 10"

definition cli_outcome :: "bytes \<Rightarrow> net_event list \<Rightarrow> int option \<Rightarrow> world \<Rightarrow> bool" where
  "cli_outcome F N r w \<longleftrightarrow> (\<exists>cs. cli_log F cs w \<and> (r = Some 0 \<longrightarrow> acked_all F N cs))"

lemma post_process_file:
  assumes w: "cli_fresh F w" and args: "check_args argv error_rate = Inr ()"
  shows "post (process_file junk n argv) w
    (\<lambda>r w'. case r of
       None \<Rightarrow> cli_end F w' \<and> (n < 13 * todo w + 14 \<or> \<not> nowrap F (atoi (argv ! 3)))
     | Some status \<Rightarrow> cli_outcome F (net w) r w') (cli_end F)"
proof -
  note a = check_args_ok [OF args]
  have "cli_inv F (net w) (atoi (argv ! 3)) argv START_STATE zero_RcopyInfo w"
    using w a by (simp add: cli_inv_def cli_fresh_def cli_log_def chunks_ok_def)
  note L = post_rcopy_loop [OF this, of junk n]
  let ?Q = "\<lambda>r w'. case r of None \<Rightarrow> cli_end F w' \<and> (n < 13 * todo w + 14 \<or> \<not> nowrap F (atoi (argv ! 3)))
     | Some status \<Rightarrow> cli_outcome F (net w) r w'"
  show ?thesis
    unfolding process_file_def
  proof (rule post_seq [OF L])
    fix r v
    assume r: "case r of None \<Rightarrow> cli_end F v \<and> (cli_rank START_STATE zero_RcopyInfo w > n \<or> \<not> nowrap F (atoi (argv ! 3)))
      | Some info' \<Rightarrow> cli_done F (net w) info' v"
    show "post (case r of
        None \<Rightarrow> ret None
      | Some info \<Rightarrow>
          iobind (close_positive (ri_input_file info)) (\<lambda>_.
          iobind (close_positive (ri_socket_num info)) (\<lambda>_.
          iobind (window_free (ri_window info)) (\<lambda>_.
          ret (Some (if ri_had_error info = 1 then - 1 else 0)))))) v ?Q (cli_end F)"
    proof (cases r)
      case None
      with r show ?thesis by (simp add: cli_rank_def)
    next
      case (Some info)
      with r obtain cs where d: "win_alloc (ri_window info) \<longrightarrow> 0 < live v" "cli_log F cs v"
        "ri_had_error info \<noteq> 1 \<longrightarrow> acked_all F (net w) cs" by (auto simp: cli_done_def)
      have "cli_outcome F (net w) (Some (if ri_had_error info = 1 then - 1 else 0)) u" if "sent u = sent v" for u
        using cli_log_cong [OF d(2) that] d(3) unfolding cli_outcome_def by auto
      with d(1) show ?thesis
        by (auto simp: Some post_def iobind_def close_positive_def sys_close_def window_free_def sys_free_def)
    qed
  qed
qed

end
