(* ===== verification/ErrEvents.thy ===== *)
theory ErrEvents
  imports Complex_Main System
begin

text \<open>
  The message events of the error library (\<open>libcpe464/MsgEvents\<close>), the pseudo-random numbers
  they draw, the debug printing (\<open>utils/dbg_print.c\<close>), and the state of the library all of
  it works on.

  \<open>drand48\<close> is the generator POSIX defines: 48 bits of state, \<open>X' = a X + c\<close>, the value
  \<open>X' / 2\<^sup>4\<^sup>8\<close>. The value is exact as a \<open>double\<close>; where the code multiplies it
  or cuts it to a \<open>float\<close> the rounding (to nearest, ties to even) is written out.
\<close>

section \<open>Numbers\<close>

definition drand_next :: "nat \<Rightarrow> nat" where
  "drand_next x = (25214903917 * x + 11) mod 2 ^ 48"

fun bitlen :: "nat \<Rightarrow> nat" where
  "bitlen n = (if n = 0 then 0 else Suc (bitlen (n div 2)))"

declare bitlen.simps [simp del]

text \<open>A natural number rounded to \<open>p\<close> significant bits, in units of \<open>2 ^ k\<close> at least.\<close>

definition round_to :: "nat \<Rightarrow> nat \<Rightarrow> nat \<Rightarrow> nat" where
  "round_to k p n =
    (let d = 2 ^ max (bitlen n - p) k; q = n div d; r = n mod d in
     if 2 * r > d \<or> (2 * r = d \<and> odd q) then (q + 1) * d else q * d)"

abbreviation round_float :: "nat \<Rightarrow> nat" where "round_float \<equiv> round_to 0 24"
abbreviation round_double :: "nat \<Rightarrow> nat" where "round_double \<equiv> round_to 0 53"

text \<open>\<open>(int) ((double) n * drand48 ())\<close> for the state \<open>x\<close> of the generator.\<close>

definition scaled :: "nat \<Rightarrow> nat \<Rightarrow> nat" where
  "scaled n x = round_double (n * x) div 2 ^ 48"

lemma bitlen_0 [simp]: "bitlen 0 = 0"
  by (simp add: bitlen.simps)

lemma bitlen_lower: "0 < n \<Longrightarrow> 2 ^ (bitlen n - 1) \<le> n"
proof (induction n rule: bitlen.induct)
  case (1 n)
  show ?case
  proof (cases "n div 2 = 0")
    case True
    with 1(2) show ?thesis by (simp add: bitlen.simps [of n])
  next
    case False
    then have "0 < bitlen (n div 2)" by (simp add: bitlen.simps [of "n div 2"])
    moreover have "2 ^ (bitlen (n div 2) - 1) \<le> n div 2" using 1 False by simp
    ultimately have "2 ^ bitlen (n div 2) \<le> 2 * (n div 2)"
      by (cases "bitlen (n div 2)") simp_all
    with 1(2) show ?thesis by (simp add: bitlen.simps [of n])
  qed
qed

lemma bitlen_upper: "n < 2 ^ bitlen n"
proof (induction n rule: bitlen.induct)
  case (1 n)
  then show ?case by (cases "n = 0") (simp_all add: bitlen.simps [of n])
qed

lemma bitlen_le: "n < 2 ^ k \<Longrightarrow> bitlen n \<le> k"
proof (rule ccontr)
  assume n: "n < 2 ^ k" and "\<not> bitlen n \<le> k"
  then have "k \<le> bitlen n - 1" "0 < n" by (cases "n = 0"; simp)+
  then have "(2 :: nat) ^ k \<le> n" using bitlen_lower [of n] by (meson order_trans power_increasing one_le_numeral)
  with n show False by simp
qed

lemma bitlen_mono: "m \<le> n \<Longrightarrow> bitlen m \<le> bitlen n"
proof (induction n arbitrary: m rule: bitlen.induct)
  case (1 n)
  then show ?case
    by (cases "m = 0"; cases "n = 0") (simp_all add: bitlen.simps [of m] bitlen.simps [of n] div_le_mono)
qed

text \<open>Rounding moves a number by half a unit at most.\<close>

lemma round_to_upper: "2 * round_to k p n \<le> 2 * n + 2 ^ max (bitlen n - p) k"
proof -
  define d :: nat where "d = 2 ^ max (bitlen n - p) k"
  define q r where "q = n div d" and "r = n mod d"
  have n: "n = q * d + r" unfolding q_def r_def by (rule div_mult_mod_eq [symmetric])
  have "round_to k p n = (if 2 * r > d \<or> (2 * r = d \<and> odd q) then q * d + d else q * d)"
    by (simp add: round_to_def Let_def d_def q_def r_def)
  with n show ?thesis unfolding d_def [symmetric] by auto
qed

lemma round_to_exact: "bitlen n \<le> p \<Longrightarrow> round_to 0 p n = n"
  by (simp add: round_to_def Let_def)

text \<open>The product with a number below one stays below the factor, whatever the rounding.\<close>

lemma scaled_less:
  assumes "0 < n" and "x < 2 ^ 48"
  shows "scaled n x < n"
proof -
  let ?b = "bitlen n"
  have n: "2 ^ (?b - 1) \<le> n" by (rule bitlen_lower [OF assms(1)])
  have "bitlen (n * x) \<le> ?b + 48"
  proof (rule bitlen_le)
    have "n * x < 2 ^ ?b * 2 ^ 48" using assms bitlen_upper by (intro mult_strict_mono) simp_all
    then show "n * x < 2 ^ (?b + 48)" by (simp add: power_add)
  qed
  then have "bitlen (n * x) - 53 \<le> ?b - 1" by simp
  then have "(2 :: nat) ^ max (bitlen (n * x) - 53) 0 \<le> 2 ^ (?b - 1)" by (intro power_increasing) simp_all
  with n have "(2 :: nat) ^ max (bitlen (n * x) - 53) 0 \<le> n" by linarith
  with round_to_upper [of 0 53 "n * x"] have "2 * round_double (n * x) \<le> 2 * (n * x) + n" by linarith
  moreover have "n * x + n \<le> n * 2 ^ 48"
  proof -
    have "Suc x \<le> 2 ^ 48" using assms(2) by simp
    then have "n * Suc x \<le> n * 2 ^ 48" by (rule mult_le_mono2)
    then show ?thesis by simp
  qed
  ultimately have "round_double (n * x) < n * 2 ^ 48" using assms(1) by linarith
  then show ?thesis unfolding scaled_def by (simp add: less_mult_imp_div_less)
qed


text \<open>The \<open>float\<close> nearest to the \<open>double\<close> \<open>r\<close>: a \<open>double\<close> is a multiple of \<open>2 to the power -1074\<close>,
  a \<open>float\<close> one of \<open>2 to the power -149\<close> with 24 significant bits.\<close>

definition float_of_double :: "rat \<Rightarrow> rat" where
  "float_of_double r =
    (let m = of_nat (round_to 925 24 (nat \<lfloor>\<bar>r\<bar> * 2 ^ 1074\<rfloor>)) / 2 ^ 1074 in if r < 0 then - m else m)"

section \<open>The state of the library\<close>

text \<open>
  The objects derived from \<open>IMsgEvent\<close>: \<open>errorDrop\<close> with \<open>m_DropAll\<close> and
  \<open>m_DropList\<close>, \<open>errorFlipBits\<close>, \<open>infoSeqNo\<close> with \<open>m_Count\<close> and \<open>m_History\<close>.
\<close>

datatype MsgEvent =
    ErrorDrop bool "u32 list"
  | ErrorFlipBits
  | InfoSeqNo "u32 \<Rightarrow> u32 option" "u32 list"

text \<open>The entries of \<open>m_EnvData\<close>.\<close>

datatype eEnvDataKey_t = EDK_AUTOGRADER | EDK_OVERRIDE_PORT | EDK_OVERRIDE_DEBUG
  | EDK_OVERRIDE_SEEDRAND | EDK_OVERRIDE_ERR_RATE | EDK_OVERRIDE_ERR_DROP | EDK_OVERRIDE_ERR_FLIP

datatype eEnvData_t = EDT_UNKNOWN | EDT_LONG | EDT_FLOAT | EDT_BOOL | EDT_CHARPTR | EDT_LIST_LONG

datatype env_value = VNone | VLong int | VFloat rat | VBool bool | VCharPtr bytes

record sEnvDataEntry_t =
  e_type :: eEnvData_t
  e_isSet :: bool
  e_data :: env_value
  e_lLong :: "int list"

text \<open>What the library prints: about a message, about ports, about calls of \<open>select\<close>.\<close>

datatype remark =
    SendNote u32 u32 int u8
  | RecvNote u32 int u8
  | TypeNote string "u32 option"
  | DroppedNote | FlippedNote | CorruptedNote | ErrorNote | RunFailedNote string
  | SeqNoReport nat nat
  | PortOverrideNote int | PortNote int
  | SelectNullNote | SelectValueNote int int | SelectAdviceNote | ChildNote | SelectTimeoutNote | SelectWaitNote int int

text \<open>
  One record for the two global objects \<open>g_PktMgr\<close> and \<open>g_SetsMgr\<close>, the static variables of
  \<open>network-hooks.c\<close> and \<open>dbg_print.c\<close>, and what lies below the library: the generator's
  state, the datagrams handed to the real \<open>send\<close> and \<open>sendto\<close> (\<open>None\<close> is a connected
  socket's peer), what these calls and the real receive calls will answer, the answers of
  \<open>malloc\<close>, and the ports bound.
\<close>

record errlib =
  m_ErrorRate :: rat
  m_MsgNo :: u32
  m_ErrorCase_Constant :: "MsgEvent list"
  m_ErrorCase_Chance :: "MsgEvent list"
  m_EnvData :: "eEnvDataKey_t \<Rightarrow> sEnvDataEntry_t"
  socketType :: int
  nextSeed :: int
  childProcess :: bool
  s_hasOverridden :: bool
  g_dbg_print_level :: int
  console :: "remark list"
  rand_state :: nat
  wire :: "(addr option \<times> bytes) list"
  tx :: "bool list"
  rx :: "bytes option list"
  mallocs :: "bool list"
  bound_ports :: "u16 list"

type_synonym 'a lib = "(errlib, 'a) io"

abbreviation (input) DBG_LEVEL_ERROR :: int where "DBG_LEVEL_ERROR \<equiv> - 1"
abbreviation (input) DBG_LEVEL_WARN :: int where "DBG_LEVEL_WARN \<equiv> 0"
abbreviation (input) DBG_LEVEL_INFO :: int where "DBG_LEVEL_INFO \<equiv> 1"
abbreviation (input) DBG_LEVEL_DEBUG :: int where "DBG_LEVEL_DEBUG \<equiv> 2"

definition dbg_print :: "int \<Rightarrow> remark \<Rightarrow> unit lib" where
  "dbg_print level n l =
    (if level \<noteq> DBG_LEVEL_ERROR \<and> g_dbg_print_level l < level then (Inr (), l)
     else (Inr (), l\<lparr>console := console l @ [n]\<rparr>))"

definition dbg_setlevel :: "int \<Rightarrow> unit lib" where
  "dbg_setlevel newLevel l = (Inr (), l\<lparr>g_dbg_print_level := newLevel\<rparr>)"

definition drand48 :: "nat lib" where
  "drand48 l = (let x = drand_next (rand_state l) in (Inr x, l\<lparr>rand_state := x\<rparr>))"

text \<open>\<open>srand48\<close>: the low 32 bits of the seed above the constant 0x330E.\<close>

definition srand48 :: "int \<Rightarrow> unit lib" where
  "srand48 seed l = (Inr (), l\<lparr>rand_state := nat (seed mod 2 ^ 32) * 2 ^ 16 + 0x330E\<rparr>)"

section \<open>The events\<close>

text \<open>
  \<open>run\<close> of an event gives the event as it is afterwards, the buffer, and the code's result:
  less than 0 an error, 0 no change, 1 a change, 2 drop. A NULL buffer is \<open>None\<close>; a buffer is
  the \<open>*pLen\<close> bytes of the message.
\<close>

definition errorDrop_run :: "bool \<Rightarrow> u32 list \<Rightarrow> bytes option \<Rightarrow> u32 \<Rightarrow> (MsgEvent \<times> bytes option \<times> int) lib" where
  "errorDrop_run dropAll dropList pBuf msgNo =
    (let ev = ErrorDrop dropAll dropList in
     case pBuf of
       None \<Rightarrow> iobind (dbg_print DBG_LEVEL_ERROR ErrorNote) (\<lambda>_. ret (ev, pBuf, - 1))
     | Some buf \<Rightarrow>
         if dropAll \<or> msgNo \<in> set dropList then
           iobind (lift_res (read_u32 buf 0)) (\<lambda>_.
           iobind (dbg_print DBG_LEVEL_INFO DroppedNote) (\<lambda>_. ret (ev, pBuf, 2)))
         else ret (ev, pBuf, 0))"

definition errorFlipBits_run :: "bytes option \<Rightarrow> (MsgEvent \<times> bytes option \<times> int) lib" where
  "errorFlipBits_run pBuf =
    (case pBuf of
       None \<Rightarrow> iobind (dbg_print DBG_LEVEL_ERROR ErrorNote) (\<lambda>_. ret (ErrorFlipBits, pBuf, - 1))
     | Some buf \<Rightarrow>
         iobind (lift_res (read_u32 buf 0)) (\<lambda>_.
         iobind (dbg_print DBG_LEVEL_INFO FlippedNote) (\<lambda>_.
         iobind drand48 (\<lambda>x.
           let byte_to_flip = int (scaled (length buf) x) in
           iobind (lift_res (arr_get buf byte_to_flip)) (\<lambda>b.
           iobind (lift_res (arr_put buf byte_to_flip (b XOR 0xFF))) (\<lambda>buf.
           ret (ErrorFlipBits, Some buf, 1)))))))"

definition infoSeqNo_run ::
  "(u32 \<Rightarrow> u32 option) \<Rightarrow> u32 list \<Rightarrow> bytes option \<Rightarrow> (MsgEvent \<times> bytes option \<times> int) lib" where
  "infoSeqNo_run count history pBuf =
    (case pBuf of
       None \<Rightarrow> iobind (dbg_print DBG_LEVEL_ERROR ErrorNote) (\<lambda>_. ret (InfoSeqNo count history, pBuf, - 1))
     | Some buf \<Rightarrow>
         iobind (lift_res (read_u32 buf 0)) (\<lambda>seqNo.
           let n = (case count seqNo of None \<Rightarrow> 0 | Some n \<Rightarrow> n) in
           ret (InfoSeqNo (count(seqNo \<mapsto> n + 1)) (history @ [seqNo]), pBuf, 0)))"

definition setDropAll :: "bool \<Rightarrow> MsgEvent \<Rightarrow> MsgEvent" where
  "setDropAll dropAll ev = (case ev of ErrorDrop _ xs \<Rightarrow> ErrorDrop dropAll xs | _ \<Rightarrow> ev)"

definition setDropSpecific :: "u32 list \<Rightarrow> MsgEvent \<Rightarrow> MsgEvent" where
  "setDropSpecific dropList ev = (case ev of ErrorDrop _ _ \<Rightarrow> ErrorDrop False dropList | _ \<Rightarrow> ev)"

text \<open>The constructors \<open>errorDrop ()\<close> and \<open>infoSeqNo ()\<close>.\<close>

definition new_errorDrop :: MsgEvent where
  "new_errorDrop = ErrorDrop True []"

definition new_infoSeqNo :: MsgEvent where
  "new_infoSeqNo = InfoSeqNo (\<lambda>_. None) []"

text \<open>The virtual call.\<close>

definition event_run :: "MsgEvent \<Rightarrow> bytes option \<Rightarrow> u32 \<Rightarrow> (MsgEvent \<times> bytes option \<times> int) lib" where
  "event_run ev pBuf msgNo =
    (case ev of
       ErrorDrop dropAll dropList \<Rightarrow> errorDrop_run dropAll dropList pBuf msgNo
     | ErrorFlipBits \<Rightarrow> errorFlipBits_run pBuf
     | InfoSeqNo count history \<Rightarrow> infoSeqNo_run count history pBuf)"

text \<open>
  \<open>report\<close> and \<open>getName\<close>. The report of \<open>infoSeqNo\<close> goes to the console whatever the debug
  level: the sizes of \<open>m_History\<close> and of \<open>m_Count\<close>. Its destructor makes it, those of the
  other two classes do nothing.
\<close>

definition infoSeqNo_report :: "(u32 \<Rightarrow> u32 option) \<Rightarrow> u32 list \<Rightarrow> int lib" where
  "infoSeqNo_report count history l =
    (Inr 0, l\<lparr>console := console l @ [SeqNoReport (length history) (card (dom count))]\<rparr>)"

definition event_report :: "MsgEvent \<Rightarrow> int lib" where
  "event_report ev =
    (case ev of
       ErrorDrop _ _ \<Rightarrow> ret 0
     | ErrorFlipBits \<Rightarrow> ret 0
     | InfoSeqNo count history \<Rightarrow> infoSeqNo_report count history)"

definition getName :: "MsgEvent \<Rightarrow> string" where
  "getName ev =
    (case ev of
       ErrorDrop _ _ \<Rightarrow> ''errorDrop''
     | ErrorFlipBits \<Rightarrow> ''errorFlipBits''
     | InfoSeqNo _ _ \<Rightarrow> ''infoSeqNo'')"

definition delete_infoSeqNo :: "MsgEvent \<Rightarrow> unit lib" where
  "delete_infoSeqNo ev = iobind (event_report ev) (\<lambda>_. ret ())"

definition delete_event :: "MsgEvent \<Rightarrow> unit lib" where
  "delete_event ev = (case ev of InfoSeqNo _ _ \<Rightarrow> delete_infoSeqNo ev | _ \<Rightarrow> ret ())"

end
