(* ===== verification/PacketMgr.thy ===== *)
theory PacketMgr
  imports ErrEvents
begin

text \<open>
  The packet manager of the error library (\<open>libcpe464/PacketManager.cpp\<close>): every datagram the
  program sends runs through the standard events and, with the error rate's chance, through one
  of the random events, which may drop it or invert one of its bytes.
\<close>

section \<open>Settings\<close>

definition setRandSeed :: "int \<Rightarrow> int lib" where
  "setRandSeed seed = iobind (srand48 seed) (\<lambda>_. ret 0)"

definition setErrorRate :: "rat \<Rightarrow> int lib" where
  "setErrorRate rate l = (Inr 0, l\<lparr>m_ErrorRate := rate\<rparr>)"

text \<open>The argument \<open>None\<close> is NULL.\<close>

definition addMsgEvent_Standard :: "MsgEvent option \<Rightarrow> int lib" where
  "addMsgEvent_Standard msgErr l =
    (case msgErr of
       None \<Rightarrow> (Inr (- 1), l)
     | Some ev \<Rightarrow> (Inr 0, l\<lparr>m_ErrorCase_Constant := m_ErrorCase_Constant l @ [ev]\<rparr>))"

definition addMsgEvent_Random :: "MsgEvent option \<Rightarrow> int lib" where
  "addMsgEvent_Random msgErr l =
    (case msgErr of
       None \<Rightarrow> (Inr (- 1), l)
     | Some ev \<Rightarrow> (Inr 0, l\<lparr>m_ErrorCase_Chance := m_ErrorCase_Chance l @ [ev]\<rparr>))"

text \<open>The list as a member of the object.\<close>

definition put_constant :: "MsgEvent list \<Rightarrow> unit lib" where
  "put_constant evs l = (Inr (), l\<lparr>m_ErrorCase_Constant := evs\<rparr>)"

definition put_chance :: "MsgEvent list \<Rightarrow> unit lib" where
  "put_chance evs l = (Inr (), l\<lparr>m_ErrorCase_Chance := evs\<rparr>)"

text \<open>The events are deleted from the back; the result is their number and the empty list.\<close>

fun clear_loop :: "MsgEvent list \<Rightarrow> int \<Rightarrow> (int \<times> MsgEvent list) lib" where
  "clear_loop [] count = ret (count, [])"
| "clear_loop (ev # evs) count =
    iobind (delete_event (last (ev # evs))) (\<lambda>_. clear_loop (butlast (ev # evs)) (count + 1))"

definition clearMsgEvents :: "MsgEvent list \<Rightarrow> (int \<times> MsgEvent list) lib" where
  "clearMsgEvents ErrVec = clear_loop ErrVec 0"

text \<open>The destructor, which runs when the process exits.\<close>

definition delete_PacketManager :: "unit lib" where
  "delete_PacketManager = (\<lambda>l.
    iobind (clearMsgEvents (m_ErrorCase_Constant l)) (\<lambda>r.
    iobind (put_constant (snd r)) (\<lambda>_ l.
    iobind (clearMsgEvents (m_ErrorCase_Chance l)) (\<lambda>r. put_chance (snd r)) l)) l)"

section \<open>Running the events\<close>

fun run_loop :: "MsgEvent list \<Rightarrow> bytes option \<Rightarrow> u32 \<Rightarrow> bool \<Rightarrow> (MsgEvent list \<times> bytes option \<times> int) lib" where
  "run_loop [] pBuf msgNo hasChanged = ret ([], pBuf, if hasChanged then 1 else 0)"
| "run_loop (ev # evs) pBuf msgNo hasChanged =
    iobind (event_run ev pBuf msgNo) (\<lambda>(ev, pBuf, nResult).
      if nResult < 0 then
        iobind (dbg_print DBG_LEVEL_ERROR (RunFailedNote (getName ev))) (\<lambda>_. ret (ev # evs, pBuf, - 1))
      else if nResult = 2 then ret (ev # evs, pBuf, 2)
      else iobind (run_loop evs pBuf msgNo (hasChanged \<or> nResult = 1)) (\<lambda>(evs, pBuf, n).
        ret (ev # evs, pBuf, n)))"

definition runMsgEvents :: "MsgEvent list \<Rightarrow> bytes option \<Rightarrow> u32 \<Rightarrow> (MsgEvent list \<times> bytes option \<times> int) lib" where
  "runMsgEvents ErrVec pBuf msgNo =
    (if pBuf = None then iobind (dbg_print DBG_LEVEL_ERROR ErrorNote) (\<lambda>_. ret (ErrVec, pBuf, - 1))
     else run_loop ErrVec pBuf msgNo False)"

text \<open>Whether the number \<open>randNum\<close> drawn, as a \<open>float\<close>, asks for an error.\<close>

definition error_due :: "nat \<Rightarrow> errlib \<Rightarrow> bool" where
  "error_due x l \<longleftrightarrow> 0 < length (m_ErrorCase_Chance l) \<and>
    of_nat (round_float x) / 2 ^ 48 \<le> m_ErrorRate l"

text \<open>One of the random events, chosen by the next random number.\<close>

definition run_random :: "bytes option \<Rightarrow> u32 \<Rightarrow> (bytes option \<times> int) lib" where
  "run_random pBuf msgNo l =
    (let evs = m_ErrorCase_Chance l in
     iobind drand48 (\<lambda>y.
       let randCase = int (scaled (round_float (length evs)) y) in
       iobind (lift_res (arr_get evs randCase)) (\<lambda>ev.
       iobind (event_run ev pBuf msgNo) (\<lambda>(ev, pBuf, nResult).
       iobind (lift_res (arr_put evs randCase ev)) (\<lambda>evs.
       iobind (put_chance evs) (\<lambda>_. ret (pBuf, nResult)))))) l)"

text \<open>The second half of \<open>processEvents\<close>: perhaps a random event, then the result.\<close>

definition process_random :: "bytes option \<Rightarrow> u32 \<Rightarrow> bool \<Rightarrow> int \<Rightarrow> (bytes option \<times> int) lib" where
  "process_random pBuf msgNo hasDropped hasChanged =
    iobind drand48 (\<lambda>x l.
      if error_due x l then
        iobind (run_random pBuf msgNo) (\<lambda>(pBuf, nResult).
          if nResult < 0 then ret (pBuf, nResult)
          else if hasDropped \<or> nResult = 2 then ret (pBuf, 2)
          else ret (pBuf, if nResult \<noteq> 0 then 1 else 0)) l
      else (if hasDropped then ret (pBuf, 2) else ret (pBuf, hasChanged)) l)"

definition processEvents :: "bytes option \<Rightarrow> u32 \<Rightarrow> (bytes option \<times> int) lib" where
  "processEvents pBuf msgNo l =
    (if pBuf = None then iobind (dbg_print DBG_LEVEL_ERROR ErrorNote) (\<lambda>_. ret (pBuf, - 1)) l
     else iobind (runMsgEvents (m_ErrorCase_Constant l) pBuf msgNo) (\<lambda>(evs, pBuf, nResult).
       iobind (put_constant evs) (\<lambda>_.
         if nResult < 0 then ret (pBuf, nResult)
         else process_random pBuf msgNo (nResult = 2) (if nResult = 2 then 0 else nResult))) l)"

section \<open>What is printed of a message\<close>

definition printType :: "u8 \<Rightarrow> bytes \<Rightarrow> unit lib" where
  "printType flag buf =
    (let number = (\<lambda>label off. iobind (lift_res (read_u32 buf off)) (\<lambda>seqNumber.
           dbg_print DBG_LEVEL_INFO (TypeNote label (Some seqNumber))));
         plain = (\<lambda>label. dbg_print DBG_LEVEL_INFO (TypeNote label None)) in
     if flag = 1 then plain ''SETUP Init''
     else if flag = 2 then plain ''SETUP Response''
     else if flag = 3 then number ''Data #'' 0
     else if flag = 4 then number ''Resent Data #'' 0
     else if flag = 5 then number ''RR #'' 7
     else if flag = 6 then number ''SREJ #'' 7
     else if flag = 7 then number ''Timeout resent data #'' 0
     else if flag = 8 then plain ''FNAME request''
     else if flag = 9 then plain ''FNAME response''
     else if flag = 16 then number ''Data #'' 0
     else if flag = 17 then number ''Resent Data #'' 0
     else if flag = 18 then number ''Timeout resent data #'' 0
     else plain ''User defined'')"

section \<open>Sending\<close>

text \<open>The real \<open>send\<close> or \<open>sendto\<close>: the number of bytes sent, or -1.\<close>

definition real_send :: "addr option \<Rightarrow> bytes \<Rightarrow> int lib" where
  "real_send dst bs l =
    (if tx l \<noteq> [] \<and> \<not> hd (tx l) then (Inr (- 1), l\<lparr>tx := tl (tx l)\<rparr>)
     else (Inr (int (length bs)), l\<lparr>tx := tl (tx l), wire := wire l @ [(dst, bs)]\<rparr>))"

definition next_MsgNo :: "u32 lib" where
  "next_MsgNo l = (Inr (m_MsgNo l + 1), l\<lparr>m_MsgNo := m_MsgNo l + 1\<rparr>)"

text \<open>The part \<open>send_Err\<close> and \<open>sendto_Err\<close> have in common: number the message, print it,
  copy it and run the events on the copy.\<close>

definition prepare :: "bytes \<Rightarrow> int \<Rightarrow> (bytes option \<times> int) lib" where
  "prepare buf len =
    iobind next_MsgNo (\<lambda>msgNo.
    iobind (lift_res (read_u32 buf 0)) (\<lambda>seqNo.
    iobind (lift_res (arr_get buf 6)) (\<lambda>packetFlags.
    iobind (dbg_print DBG_LEVEL_INFO (SendNote msgNo seqNo len packetFlags)) (\<lambda>_.
    iobind (printType packetFlags buf) (\<lambda>_.
    iobind (lift_res (mem_read buf 0 len)) (\<lambda>bufTmp.
    processEvents (Some bufTmp) msgNo))))))"

definition transmit :: "addr option \<Rightarrow> bytes option \<Rightarrow> int \<Rightarrow> int lib" where
  "transmit dst pBuf len =
    (case pBuf of
       None \<Rightarrow> halts Trap
     | Some bs \<Rightarrow> iobind (real_send dst bs) (\<lambda>lenSent.
         ret (if lenSent = int (length bs) then len else lenSent)))"

definition send_Err :: "bytes option \<Rightarrow> int \<Rightarrow> int lib" where
  "send_Err buf len =
    (case buf of
       None \<Rightarrow> iobind (dbg_print DBG_LEVEL_ERROR ErrorNote) (\<lambda>_. halts (Exit 1))
     | Some b \<Rightarrow>
         if len = 0 then iobind (dbg_print DBG_LEVEL_ERROR ErrorNote) (\<lambda>_. halts (Exit 1))
         else iobind (prepare b len) (\<lambda>(pBuf, nResult).
           if nResult < 0 then ret nResult
           else if nResult = 0 \<or> nResult = 1 then transmit None pBuf len
           else ret len))"

definition sendto_Err :: "bytes option \<Rightarrow> int \<Rightarrow> addr option \<Rightarrow> int lib" where
  "sendto_Err buf len dst =
    (case (buf, dst) of
       (None, _) \<Rightarrow> iobind (dbg_print DBG_LEVEL_ERROR ErrorNote) (\<lambda>_. halts (Exit 1))
     | (Some b, to) \<Rightarrow>
         if len = 0 then iobind (dbg_print DBG_LEVEL_ERROR ErrorNote) (\<lambda>_. halts (Exit 1))
         else if to = None then iobind (dbg_print DBG_LEVEL_ERROR ErrorNote) (\<lambda>_. halts (Exit 1))
         else iobind (prepare b len) (\<lambda>(pBuf, nResult).
           if nResult < 0 then iobind (dbg_print DBG_LEVEL_ERROR ErrorNote) (\<lambda>_. ret nResult)
           else if nResult = 0 \<or> nResult = 1 then transmit to pBuf len
           else ret len))"

section \<open>Receiving\<close>

text \<open>The real \<open>recv\<close> or \<open>recvfrom\<close> on the caller's array: its contents afterwards and the
  return value.\<close>

definition real_recv :: "bytes \<Rightarrow> int \<Rightarrow> (bytes \<times> int) lib" where
  "real_recv buf len l =
    (case rx l of
       [] \<Rightarrow> (Inl Blocked, l)
     | None # rs \<Rightarrow> (Inr (buf, - 1), l\<lparr>rx := rs\<rparr>)
     | Some m # rs \<Rightarrow>
         (let bs = take (nat len) m in
          (case mem_write buf 0 bs of
             Inl h \<Rightarrow> (Inl h, l)
           | Inr buf \<Rightarrow> (Inr (buf, int (length bs)), l\<lparr>rx := rs\<rparr>))))"

text \<open>\<open>recv_Mod\<close> and \<open>recvfrom_Mod\<close> only print; the bodies are the same but for the call.\<close>

definition recvfrom_Mod :: "bytes \<Rightarrow> int \<Rightarrow> (bytes \<times> int) lib" where
  "recvfrom_Mod buf len =
    iobind (real_recv buf len) (\<lambda>(buf, r).
    iobind (lift_res (read_u32 buf 0)) (\<lambda>seqNo.
    iobind (lift_res (arr_get buf 6)) (\<lambda>packetFlags.
    iobind (dbg_print DBG_LEVEL_INFO (RecvNote seqNo r packetFlags)) (\<lambda>_.
    iobind (printType packetFlags buf) (\<lambda>_.
    iobind (lift_res (in_cksum buf r)) (\<lambda>c.
    iobind (if c \<noteq> 0 then dbg_print DBG_LEVEL_INFO CorruptedNote else ret ()) (\<lambda>_.
    ret (buf, r))))))))"

definition recv_Mod :: "bytes \<Rightarrow> int \<Rightarrow> (bytes \<times> int) lib" where
  "recv_Mod buf len = recvfrom_Mod buf len"

end
