(* ===== verification/PacketMgr_Correct.thy ===== *)
theory PacketMgr_Correct
  imports PacketMgr
begin

text \<open>
  Correctness of the packet manager: a message leaves as it is, with one byte inverted, or not
  at all; which of the three is decided by the events and the random numbers as configured; and
  nothing the library does to a message is outside the message's bytes.
\<close>

section \<open>One event\<close>

definition flips :: "MsgEvent \<Rightarrow> bool" where
  "flips ev \<longleftrightarrow> ev = ErrorFlipBits"

definition drops :: "MsgEvent \<Rightarrow> u32 \<Rightarrow> bool" where
  "drops ev msgNo = (case ev of ErrorDrop dropAll xs \<Rightarrow> dropAll \<or> msgNo \<in> set xs | _ \<Rightarrow> False)"

definition same_kind :: "MsgEvent \<Rightarrow> MsgEvent \<Rightarrow> bool" where
  "same_kind ev ev' \<longleftrightarrow> flips ev' = flips ev \<and> drops ev' = drops ev"

lemma drops_not_flips: "drops ev n \<Longrightarrow> \<not> flips ev"
  by (auto simp: drops_def flips_def)

lemma same_kind_refl [simp]: "same_kind ev ev"
  by (simp add: same_kind_def)

text \<open>The bytes after the inversion of one of them.\<close>

definition one_flipped :: "bytes \<Rightarrow> bytes \<Rightarrow> bool" where
  "one_flipped m m' \<longleftrightarrow> (\<exists>i < length m. m' = m[i := m ! i XOR 0xFF])"

text \<open>What an event does to a message, and to the library besides its own object.\<close>

definition event_outcome :: "MsgEvent \<Rightarrow> u32 \<Rightarrow> bytes \<Rightarrow> bytes option \<Rightarrow> int \<Rightarrow> bool" where
  "event_outcome ev msgNo m b n \<longleftrightarrow>
    (if drops ev msgNo then n = 2 \<and> b = Some m
     else if flips ev then n = 1 \<and> (\<exists>m'. b = Some m' \<and> one_flipped m m')
     else n = 0 \<and> b = Some m)"

definition quietly :: "errlib \<Rightarrow> errlib \<Rightarrow> bool" where
  "quietly l l' \<longleftrightarrow> (\<exists>c r. l' = l\<lparr>console := c, rand_state := r\<rparr> \<and> r < 2 ^ 48)"

lemma quietlyI: "r < 2 ^ 48 \<Longrightarrow> quietly l (l\<lparr>console := c, rand_state := r\<rparr>)"
  unfolding quietly_def by blast

lemma quietly_console: "rand_state l < 2 ^ 48 \<Longrightarrow> quietly l (l\<lparr>console := c\<rparr>)"
  using quietlyI [of "rand_state l" l c] by simp

lemma quietly_rand: "r < 2 ^ 48 \<Longrightarrow> quietly l (l\<lparr>rand_state := r\<rparr>)"
  using quietlyI [of r l "console l"] by simp

lemma quietly_refl [simp]: "rand_state l < 2 ^ 48 \<Longrightarrow> quietly l l"
  using quietlyI [of "rand_state l" l "console l"] by simp

lemma quietly_trans:
  assumes "quietly l k" and "quietly k j"
  shows "quietly l j"
proof -
  obtain c r d s where "k = l\<lparr>console := c, rand_state := r\<rparr>" "j = k\<lparr>console := d, rand_state := s\<rparr>" "s < 2 ^ 48"
    using assms unfolding quietly_def by blast
  then show ?thesis using quietlyI [of s l d] by simp
qed

lemma quietly_sel:
  assumes "quietly l k"
  shows "wire k = wire l" "tx k = tx l" "rx k = rx l" "m_MsgNo k = m_MsgNo l" "m_ErrorRate k = m_ErrorRate l"
    "m_ErrorCase_Constant k = m_ErrorCase_Constant l" "m_ErrorCase_Chance k = m_ErrorCase_Chance l"
    "rand_state k < 2 ^ 48" "m_EnvData k = m_EnvData l"
  using assms by (auto simp: quietly_def)

lemma post_dbg_print:
  assumes "rand_state l < 2 ^ 48"
  shows "post (dbg_print level n) l (\<lambda>_ l'. quietly l l' \<and> rand_state l' = rand_state l) (\<lambda>_. False)"
  using assms by (simp add: post_def dbg_print_def quietly_console)

lemma drand_next_less: "drand_next x < 2 ^ 48"
  by (simp add: drand_next_def)

lemma read_u32_defined: "4 \<le> length m \<Longrightarrow> \<exists>v. read_u32 m 0 = Inr v"
  by (simp add: read_u32_def)

lemma post_errorDrop_run:
  assumes "4 \<le> length m" and "rand_state l < 2 ^ 48"
  shows "post (errorDrop_run a xs (Some m) msgNo) l
    (\<lambda>(ev', b, n) l'. ev' = ErrorDrop a xs \<and> event_outcome (ErrorDrop a xs) msgNo m b n \<and> quietly l l' \<and>
      rand_state l' = rand_state l)
    (\<lambda>_. False)"
proof -
  obtain v where "read_u32 m 0 = Inr v" using read_u32_defined [OF assms(1)] by blast
  with assms(2) show ?thesis
    by (auto simp: errorDrop_run_def Let_def event_outcome_def drops_def flips_def
        intro!: post_mono [OF post_dbg_print])
qed

lemma post_errorFlipBits_run:
  assumes "4 \<le> length m" and "rand_state l < 2 ^ 48"
  shows "post (errorFlipBits_run (Some m)) l
    (\<lambda>(ev', b, n) l'. ev' = ErrorFlipBits \<and> event_outcome ErrorFlipBits msgNo m b n \<and> quietly l l')
    (\<lambda>_. False)"
proof -
  obtain v where v: "read_u32 m 0 = Inr v" using read_u32_defined [OF assms(1)] by blast
  show ?thesis
    unfolding errorFlipBits_run_def option.case v iobind_eqs
  proof (rule post_seq [OF post_dbg_print [OF assms(2)]])
    fix x k
    assume k: "quietly l k \<and> rand_state k = rand_state l"
    let ?y = "drand_next (rand_state k)"
    let ?i = "scaled (length m) ?y"
    have i: "?i < length m"
      by (rule scaled_less) (use assms(1) drand_next_less in \<open>auto simp del: power_numeral\<close>)
    have "quietly k (k\<lparr>rand_state := ?y\<rparr>)"
      by (rule quietly_rand [OF drand_next_less])
    with k have q: "quietly l (k\<lparr>rand_state := ?y\<rparr>)" using quietly_trans by blast
    have o: "one_flipped m (m[?i := m ! ?i XOR 0xFF])" using i unfolding one_flipped_def by blast
    show "post (iobind drand48 (\<lambda>x. let byte_to_flip = int (scaled (length m) x) in
        iobind (lift_res (arr_get m byte_to_flip)) (\<lambda>b.
        iobind (lift_res (arr_put m byte_to_flip (b XOR 0xFF))) (\<lambda>buf. ret (ErrorFlipBits, Some buf, 1))))) k
      (\<lambda>(ev', b, n) l'. ev' = ErrorFlipBits \<and> event_outcome ErrorFlipBits msgNo m b n \<and> quietly l l') (\<lambda>_. False)"
      using i q o by (simp add: post_def iobind_def drand48_def Let_def event_outcome_def flips_def drops_def)
  qed
qed

lemma post_infoSeqNo_run:
  assumes "4 \<le> length m" and "rand_state l < 2 ^ 48"
  shows "post (infoSeqNo_run c h (Some m)) l
    (\<lambda>(ev', b, n) l'. same_kind (InfoSeqNo c h) ev' \<and> event_outcome (InfoSeqNo c h) msgNo m b n \<and> quietly l l' \<and>
      rand_state l' = rand_state l)
    (\<lambda>_. False)"
proof -
  obtain v where "read_u32 m 0 = Inr v" using read_u32_defined [OF assms(1)] by blast
  with assms(2) show ?thesis
    by (simp add: infoSeqNo_run_def Let_def event_outcome_def drops_def flips_def same_kind_def fun_eq_iff)
qed

lemma post_event_run:
  assumes "4 \<le> length m" and "rand_state l < 2 ^ 48"
  shows "post (event_run ev (Some m) msgNo) l
    (\<lambda>(ev', b, n) l'. same_kind ev ev' \<and> event_outcome ev msgNo m b n \<and> quietly l l' \<and>
      (\<not> flips ev \<longrightarrow> rand_state l' = rand_state l)) (\<lambda>_. False)"
proof (cases ev)
  case (ErrorDrop a xs)
  then show ?thesis
    unfolding event_run_def
    by (simp only: MsgEvent.case) (rule post_mono [OF post_errorDrop_run [OF assms]]; auto)
next
  case ErrorFlipBits
  then show ?thesis
    unfolding event_run_def
    by (simp only: MsgEvent.case) (rule post_mono [OF post_errorFlipBits_run [OF assms]]; auto simp: flips_def)
next
  case (InfoSeqNo c h)
  then show ?thesis
    unfolding event_run_def
    by (simp only: MsgEvent.case) (rule post_mono [OF post_infoSeqNo_run [OF assms]]; auto)
qed


section \<open>The standard events\<close>

lemma post_run_loop:
  assumes "4 \<le> length m" and "rand_state l < 2 ^ 48" and "\<forall>ev \<in> set evs. \<not> flips ev"
  shows "post (run_loop evs (Some m) msgNo changed) l
    (\<lambda>(evs', b, n) l'. list_all2 same_kind evs evs' \<and> b = Some m \<and>
      n = (if \<exists>ev \<in> set evs. drops ev msgNo then 2 else if changed then 1 else 0) \<and>
      quietly l l' \<and> rand_state l' = rand_state l) (\<lambda>_. False)"
  using assms
proof (induction evs arbitrary: changed l)
  case Nil
  then show ?case by simp
next
  case (Cons ev evs)
  let ?P = "\<lambda>evs0 changed l. \<lambda>(evs', b, n) l'. list_all2 same_kind evs0 evs' \<and> b = Some m \<and>
      n = (if \<exists>ev \<in> set evs0. drops ev msgNo then 2 else if changed then 1 else 0) \<and>
      quietly l l' \<and> rand_state l' = rand_state l"
  have f: "\<not> flips ev" using Cons.prems(3) by simp
  show ?case
    unfolding run_loop.simps
  proof (rule post_seq [OF post_event_run [OF Cons.prems(1,2)]])
    fix r k
    assume k: "(\<lambda>(ev', b, n) l'. same_kind ev ev' \<and> event_outcome ev msgNo m b n \<and> quietly l l' \<and>
      (\<not> flips ev \<longrightarrow> rand_state l' = rand_state l)) r k"
    obtain ev' b n where r: "r = (ev', b, n)" by (cases r)
    from k r f have e: "same_kind ev ev'" "b = Some m" "quietly l k" "rand_state k = rand_state l"
      "n = (if drops ev msgNo then 2 else 0)" by (auto simp: event_outcome_def split: if_splits)
    have tail: "post (iobind (run_loop evs (Some m) msgNo changed) (\<lambda>(evs, pBuf, n). ret (ev' # evs, pBuf, n))) k
        (?P (ev # evs) changed l) (\<lambda>_. False)" if "\<not> drops ev msgNo"
    proof (rule post_seq [OF Cons.IH [of k changed]])
      fix s :: "MsgEvent list \<times> bytes option \<times> int" and j
      assume "?P evs changed k s j"
      with e that quietly_trans [OF e(3)]
      show "post ((\<lambda>(evs, pBuf, n). ret (ev' # evs, pBuf, n)) s) j (?P (ev # evs) changed l) (\<lambda>_. False)"
        by (cases s) auto
    qed (use Cons.prems e in simp_all)
    show "post ((\<lambda>(ev, pBuf, nResult).
        if nResult < 0 then iobind (dbg_print DBG_LEVEL_ERROR (RunFailedNote (getName ev))) (\<lambda>_. ret (ev # evs, pBuf, - 1))
        else if nResult = 2 then ret (ev # evs, pBuf, 2)
        else iobind (run_loop evs pBuf msgNo (changed \<or> nResult = 1)) (\<lambda>(evs, pBuf, n).
          ret (ev # evs, pBuf, n))) r) k (?P (ev # evs) changed l) (\<lambda>_. False)"
    proof (cases "drops ev msgNo")
      case True
      with e r show ?thesis by (simp add: list.rel_refl)
    next
      case False
      with tail e r show ?thesis by simp
    qed
  qed
qed

section \<open>A message\<close>

text \<open>
  The standard events never flip (nothing in the library registers such an event there), and
  there are fewer random events than a \<open>float\<close> can count.
\<close>

definition lib_ok :: "errlib \<Rightarrow> bool" where
  "lib_ok l \<longleftrightarrow> rand_state l < 2 ^ 48 \<and> (\<forall>ev \<in> set (m_ErrorCase_Constant l). \<not> flips ev) \<and>
    length (m_ErrorCase_Chance l) < 2 ^ 24"

definition manages :: "errlib \<Rightarrow> errlib \<Rightarrow> bool" where
  "manages l l' \<longleftrightarrow> list_all2 same_kind (m_ErrorCase_Constant l) (m_ErrorCase_Constant l') \<and>
    list_all2 same_kind (m_ErrorCase_Chance l) (m_ErrorCase_Chance l') \<and> rand_state l' < 2 ^ 48 \<and>
    wire l' = wire l \<and> tx l' = tx l \<and> m_MsgNo l' = m_MsgNo l \<and> m_ErrorRate l' = m_ErrorRate l"

lemma manages_ok:
  assumes "lib_ok l" and "manages l l'"
  shows "lib_ok l'"
proof -
  have "\<not> flips ev'" if "ev' \<in> set (m_ErrorCase_Constant l')" for ev'
  proof -
    from assms(2) that obtain ev where "ev \<in> set (m_ErrorCase_Constant l)" "same_kind ev ev'"
      by (auto simp: manages_def list_all2_conv_all_nth in_set_conv_nth) metis
    with assms(1) show ?thesis by (simp add: lib_ok_def same_kind_def)
  qed
  with assms show ?thesis by (auto simp: lib_ok_def manages_def dest: list_all2_lengthD)
qed

text \<open>The random event chosen for a message whose first random number is \<open>x\<close>.\<close>

definition chosen :: "nat \<Rightarrow> errlib \<Rightarrow> MsgEvent" where
  "chosen x l = m_ErrorCase_Chance l ! scaled (length (m_ErrorCase_Chance l)) (drand_next x)"

lemma post_run_random:
  assumes "4 \<le> length m" and ok: "lib_ok l" and ne: "m_ErrorCase_Chance l \<noteq> []"
  shows "post (run_random (Some m) msgNo) l
    (\<lambda>(b, n) l'. event_outcome (chosen (rand_state l) l) msgNo m b n \<and> manages l l') (\<lambda>_. False)"
proof -
  let ?evs = "m_ErrorCase_Chance l" and ?y = "drand_next (rand_state l)"
  let ?i = "scaled (length ?evs) ?y"
  have "bitlen (length ?evs) \<le> 24" using ok by (intro bitlen_le) (simp add: lib_ok_def)
  then have rf: "round_float (length ?evs) = length ?evs" by (rule round_to_exact)
  have i: "?i < length ?evs" by (rule scaled_less [OF _ drand_next_less]) (use ne in simp)
  let ?k = "l\<lparr>rand_state := ?y\<rparr>"
  have y: "rand_state ?k < 2 ^ 48" using drand_next_less by simp
  have ch: "chosen (rand_state l) l = ?evs ! ?i" by (simp add: chosen_def)
  have upd: "list_all2 same_kind ?evs (?evs[?i := ev'])" if "same_kind (?evs ! ?i) ev'" for ev'
    using that i by (auto simp: list_all2_conv_all_nth nth_list_update)
  have "run_random (Some m) msgNo l =
    iobind (event_run (?evs ! ?i) (Some m) msgNo) (\<lambda>(ev, pBuf, nResult).
      iobind (lift_res (arr_put ?evs (int ?i) ev)) (\<lambda>evs. iobind (put_chance evs) (\<lambda>_. ret (pBuf, nResult)))) ?k"
    using i by (simp add: run_random_def Let_def rf iobind_def [of drand48] drand48_def iobind_eqs)
  then show ?thesis
  proof (rule post_same)
    show "post (iobind (event_run (?evs ! ?i) (Some m) msgNo) (\<lambda>(ev, pBuf, nResult).
        iobind (lift_res (arr_put ?evs (int ?i) ev)) (\<lambda>evs. iobind (put_chance evs) (\<lambda>_. ret (pBuf, nResult))))) ?k
      (\<lambda>(b, n) l'. event_outcome (chosen (rand_state l) l) msgNo m b n \<and> manages l l') (\<lambda>_. False)"
    proof (rule post_seq [OF post_event_run [OF assms(1) y]])
      fix r j
      assume j: "(\<lambda>(ev', b, n) l'. same_kind (?evs ! ?i) ev' \<and> event_outcome (?evs ! ?i) msgNo m b n \<and>
        quietly ?k l' \<and> (\<not> flips (?evs ! ?i) \<longrightarrow> rand_state l' = rand_state ?k)) r j"
      obtain ev' b n where r: "r = (ev', b, n)" by (cases r)
      from j r have q: "quietly ?k j" by simp
      have "manages l (j\<lparr>m_ErrorCase_Chance := ?evs[?i := ev']\<rparr>)"
        using j r upd quietly_sel [OF q] by (simp add: manages_def list.rel_refl)
      with j r i show "post ((\<lambda>(ev, pBuf, nResult).
          iobind (lift_res (arr_put ?evs (int ?i) ev)) (\<lambda>evs. iobind (put_chance evs) (\<lambda>_. ret (pBuf, nResult)))) r) j
        (\<lambda>(b, n) l'. event_outcome (chosen (rand_state l) l) msgNo m b n \<and> manages l l') (\<lambda>_. False)"
        by (simp add: ch post_def iobind_def put_chance_def)
    qed
  qed
qed


text \<open>
  The fate of message \<open>msgNo\<close>: dropped if a standard event drops it or the random event that is
  due does, else flipped in one byte if that event flips, else unchanged.
\<close>

definition message_fate :: "errlib \<Rightarrow> u32 \<Rightarrow> bytes \<Rightarrow> bytes \<Rightarrow> int \<Rightarrow> bool" where
  "message_fate l msgNo m m' n \<longleftrightarrow>
    (let x = drand_next (rand_state l); due = error_due x l; ev = chosen x l in
     if (\<exists>c \<in> set (m_ErrorCase_Constant l). drops c msgNo) \<or> due \<and> drops ev msgNo then n = 2
     else if due \<and> flips ev then n = 1 \<and> one_flipped m m'
     else n = 0 \<and> m' = m)"

lemma manages_refl: "rand_state l < 2 ^ 48 \<Longrightarrow> manages l l"
  by (simp add: manages_def list.rel_refl)

lemma same_kind_trans: "same_kind a b \<Longrightarrow> same_kind b c \<Longrightarrow> same_kind a c"
  by (simp add: same_kind_def)

lemma manages_trans: "manages l k \<Longrightarrow> manages k j \<Longrightarrow> manages l j"
  unfolding manages_def using list_all2_trans [of same_kind same_kind same_kind, OF same_kind_trans] by auto

lemma same_kind_drops:
  "list_all2 same_kind cs es \<Longrightarrow> (\<exists>c \<in> set es. drops c n) \<longleftrightarrow> (\<exists>c \<in> set cs. drops c n)"
  by (induction rule: list_all2_induct) (simp_all add: same_kind_def)

text \<open>The second half of \<open>processEvents\<close>: the random event.\<close>

lemma post_process_random:
  assumes m: "4 \<le> length m" and ok: "lib_ok l" and d: "d \<longleftrightarrow> (\<exists>c \<in> set (m_ErrorCase_Constant l). drops c msgNo)"
  shows "post (process_random (Some m) msgNo d 0) l
    (\<lambda>(b, n) l'. \<exists>m'. b = Some m' \<and> message_fate l msgNo m m' n \<and> manages l l') (\<lambda>_. False)"
proof -
  let ?x = "drand_next (rand_state l)"
  let ?k = "l\<lparr>rand_state := ?x\<rparr>"
  let ?Q = "\<lambda>(b, n) l'. \<exists>m'. b = Some m' \<and> message_fate l msgNo m m' n \<and> manages l l'"
  let ?f = "\<lambda>(pBuf, nResult). if nResult < 0 then ret (pBuf, nResult)
    else if d \<or> nResult = 2 then ret (pBuf, 2) else ret (pBuf, if nResult \<noteq> 0 then 1 else 0)"
  have k: "lib_ok ?k" "manages l ?k" "chosen (rand_state ?k) ?k = chosen ?x l" "error_due ?x ?k = error_due ?x l"
    using ok drand_next_less by (simp_all add: lib_ok_def manages_def chosen_def error_due_def list.rel_refl)
  show ?thesis
  proof (cases "error_due ?x l")
    case False
    then show ?thesis
      using k d by (simp add: process_random_def post_def iobind_def drand48_def Let_def message_fate_def)
  next
    case True
    then have ne: "m_ErrorCase_Chance ?k \<noteq> []" by (auto simp: error_due_def)
    have "post (iobind (run_random (Some m) msgNo) ?f) ?k ?Q (\<lambda>_. False)"
    proof (rule post_seq [OF post_run_random [OF m k(1) ne]])
      fix r j
      assume "(\<lambda>(b, n) l'. event_outcome (chosen (rand_state ?k) ?k) msgNo m b n \<and> manages ?k l') r j"
      with manages_trans [OF k(2)] True d drops_not_flips show "post (?f r) j ?Q (\<lambda>_. False)"
        unfolding k(3) by (cases r) (auto simp: event_outcome_def message_fate_def Let_def split: if_splits)
    qed
    moreover have "process_random (Some m) msgNo d 0 l = iobind (run_random (Some m) msgNo) ?f ?k"
      by (simp add: process_random_def iobind_def [of drand48] drand48_def Let_def k(4) True)
    ultimately show ?thesis by (simp only: post_def)
  qed
qed

lemma post_processEvents:
  assumes m: "4 \<le> length m" and ok: "lib_ok l"
  shows "post (processEvents (Some m) msgNo) l
    (\<lambda>(b, n) l'. \<exists>m'. b = Some m' \<and> message_fate l msgNo m m' n \<and> manages l l') (\<lambda>_. False)"
proof -
  let ?cs = "m_ErrorCase_Constant l"
  let ?d = "\<exists>c \<in> set ?cs. drops c msgNo"
  let ?Q = "\<lambda>(b, n) l'. \<exists>m'. b = Some m' \<and> message_fate l msgNo m m' n \<and> manages l l'"
  let ?f = "\<lambda>(evs, pBuf, nResult). iobind (put_constant evs) (\<lambda>_.
    if nResult < 0 then ret (pBuf, nResult)
    else process_random pBuf msgNo (nResult = 2) (if nResult = 2 then 0 else nResult))"
  from ok have r: "rand_state l < 2 ^ 48" "\<forall>ev \<in> set ?cs. \<not> flips ev" by (simp_all add: lib_ok_def)
  have "post (iobind (run_loop ?cs (Some m) msgNo False) ?f) l ?Q (\<lambda>_. False)"
  proof (rule post_seq [OF post_run_loop [OF m r]])
    fix q :: "MsgEvent list \<times> bytes option \<times> int" and k
    assume "(\<lambda>(evs', b, n) l'. list_all2 same_kind ?cs evs' \<and> b = Some m \<and>
      n = (if ?d then 2 else if False then 1 else 0) \<and> quietly l l' \<and> rand_state l' = rand_state l) q k"
    then obtain es n where q: "q = (es, Some m, n)" "list_all2 same_kind ?cs es" "n = (if ?d then 2 else 0)"
      "quietly l k" "rand_state k = rand_state l" by (cases q) auto
    let ?k = "k\<lparr>m_ErrorCase_Constant := es\<rparr>"
    have man: "manages l ?k" using q quietly_sel [OF q(4)] by (simp add: manages_def list.rel_refl)
    have ds: "?d \<longleftrightarrow> (\<exists>c \<in> set (m_ErrorCase_Constant ?k). drops c msgNo)"
      using same_kind_drops [OF q(2)] by simp
    have fate: "message_fate ?k msgNo m m' n' = message_fate l msgNo m m' n'" for m' n'
      using ds quietly_sel [OF q(4)] q(5) by (simp add: message_fate_def Let_def error_due_def chosen_def)
    have "post (process_random (Some m) msgNo ?d 0) ?k ?Q (\<lambda>_. False)"
      by (rule post_mono [OF post_process_random [OF m manages_ok [OF ok man] ds]])
        (use fate manages_trans [OF man] in auto)
    moreover have "?f q k = process_random (Some m) msgNo ?d 0 ?k"
      unfolding q(1,3) by (cases ?d) (simp_all add: iobind_def [of "put_constant _"] put_constant_def)
    ultimately show "post (?f q) k ?Q (\<lambda>_. False)" by (simp only: post_def)
  qed
  moreover have "processEvents (Some m) msgNo l = iobind (run_loop ?cs (Some m) msgNo False) ?f l"
    by (simp add: processEvents_def runMsgEvents_def)
  ultimately show ?thesis by (simp only: post_def)
qed


section \<open>Sending a message\<close>

text \<open>What a call of the send functions leaves of the library, and what it puts on the wire.\<close>

definition serves :: "errlib \<Rightarrow> errlib \<Rightarrow> bool" where
  "serves l l' \<longleftrightarrow> lib_ok l' \<and> m_MsgNo l' = m_MsgNo l + 1 \<and> m_ErrorRate l' = m_ErrorRate l \<and>
    list_all2 same_kind (m_ErrorCase_Constant l) (m_ErrorCase_Constant l') \<and>
    list_all2 same_kind (m_ErrorCase_Chance l) (m_ErrorCase_Chance l')"

definition send_outcome :: "addr option \<Rightarrow> bytes \<Rightarrow> errlib \<Rightarrow> int \<Rightarrow> errlib \<Rightarrow> bool" where
  "send_outcome dst m l r l' \<longleftrightarrow> serves l l' \<and>
    (\<exists>m' n. message_fate l (m_MsgNo l + 1) m m' n \<and>
      (if n = 2 then r = int (length m) \<and> wire l' = wire l \<and> tx l' = tx l
       else if tx l \<noteq> [] \<and> \<not> hd (tx l) then r = - 1 \<and> wire l' = wire l \<and> tx l' = tl (tx l)
       else r = int (length m) \<and> wire l' = wire l @ [(dst, m')] \<and> tx l' = tl (tx l)))"

lemma post_printType:
  assumes "11 \<le> length b" and "rand_state l < 2 ^ 48"
  shows "post (printType flag b) l (\<lambda>_ l'. quietly l l' \<and> rand_state l' = rand_state l) (\<lambda>_. False)"
proof -
  have "\<exists>v. read_u32 b off = Inr v" if "off \<le> 7" for off
    using assms(1) that by (simp add: read_u32_def)
  then obtain v u where "read_u32 b 0 = Inr v" "read_u32 b 7 = Inr u" by blast
  then show ?thesis
    using post_dbg_print [OF assms(2)] by (simp add: printType_def Let_def iobind_eqs)
qed

lemma quietly_fate:
  assumes "quietly l k" and "rand_state k = rand_state l"
  shows "message_fate k msgNo m m' n = message_fate l msgNo m m' n"
  using quietly_sel [OF assms(1)] assms(2)
  by (simp add: message_fate_def Let_def error_due_def chosen_def)

lemma post_prepare:
  assumes ok: "lib_ok l" and b: "11 \<le> length b" and len: "4 \<le> len" "len \<le> int (length b)"
  shows "post (prepare b len) l
    (\<lambda>(p, n) l'. \<exists>m'. p = Some m' \<and> message_fate l (m_MsgNo l + 1) (take (nat len) b) m' n \<and>
      serves l l' \<and> wire l' = wire l \<and> tx l' = tx l) (\<lambda>_. False)"
proof -
  let ?m = "take (nat len) b" and ?no = "m_MsgNo l + 1"
  let ?l = "l\<lparr>m_MsgNo := ?no\<rparr>"
  obtain v where v: "read_u32 b 0 = Inr v" using read_u32_defined [of b] b by auto
  obtain f where f: "arr_get b 6 = Inr f" using b by simp
  have rd: "mem_read b 0 len = Inr ?m" and m: "4 \<le> length ?m" using len by simp_all
  from ok have r: "rand_state ?l < 2 ^ 48" by (simp add: lib_ok_def)
  have "post (iobind (dbg_print DBG_LEVEL_INFO (SendNote ?no v len f)) (\<lambda>_.
      iobind (printType f b) (\<lambda>_. processEvents (Some ?m) ?no))) ?l
    (\<lambda>(p, n) l'. \<exists>m'. p = Some m' \<and> message_fate l ?no ?m m' n \<and>
      serves l l' \<and> wire l' = wire l \<and> tx l' = tx l) (\<lambda>_. False)"
  proof (rule post_seq [OF post_dbg_print [OF r]])
    fix x k
    assume k: "quietly ?l k \<and> rand_state k = rand_state ?l"
    then have "rand_state k < 2 ^ 48" using quietly_sel by blast
    show "post (iobind (printType f b) (\<lambda>_. processEvents (Some ?m) ?no)) k
      (\<lambda>(p, n) l'. \<exists>m'. p = Some m' \<and> message_fate l ?no ?m m' n \<and>
        serves l l' \<and> wire l' = wire l \<and> tx l' = tx l) (\<lambda>_. False)"
    proof (rule post_seq [OF post_printType [OF b \<open>rand_state k < 2 ^ 48\<close>]])
      fix y j
      assume j: "quietly k j \<and> rand_state j = rand_state k"
      with k have q: "quietly ?l j" "rand_state j = rand_state ?l" using quietly_trans by auto
      note s = quietly_sel [OF q(1)]
      have okj: "lib_ok j" using ok s by (simp add: lib_ok_def)
      have fate: "message_fate j ?no ?m m' n = message_fate l ?no ?m m' n" for m' n
        using quietly_fate [OF q] by (simp add: message_fate_def Let_def error_due_def chosen_def)
      have sv: "serves l l'" if "manages j l'" for l'
        using that manages_ok [OF okj that] s by (simp add: serves_def manages_def)
      show "post (processEvents (Some ?m) ?no) j
        (\<lambda>(p, n) l'. \<exists>m'. p = Some m' \<and> message_fate l ?no ?m m' n \<and>
          serves l l' \<and> wire l' = wire l \<and> tx l' = tx l) (\<lambda>_. False)"
        by (rule post_mono [OF post_processEvents [OF m okj]])
          (use fate sv s in \<open>auto simp: manages_def\<close>)
    qed
  qed
  moreover have "prepare b len l = iobind (dbg_print DBG_LEVEL_INFO (SendNote ?no v len f)) (\<lambda>_.
      iobind (printType f b) (\<lambda>_. processEvents (Some ?m) ?no)) ?l"
    by (simp add: prepare_def iobind_def [of next_MsgNo] next_MsgNo_def v f rd iobind_eqs)
  ultimately show ?thesis by (simp only: post_def)
qed

lemma message_fate_code: "message_fate l k m m' n \<Longrightarrow> n = 0 \<or> n = 1 \<or> n = 2"
  by (auto simp: message_fate_def Let_def split: if_splits)

lemma serves_wire: "serves l k \<Longrightarrow> serves l (k\<lparr>tx := t, wire := w\<rparr>)" "serves l k \<Longrightarrow> serves l (k\<lparr>tx := t\<rparr>)"
  by (simp_all add: serves_def lib_ok_def)

text \<open>The tail of both send functions; \<open>m\<close> is printed or not when the events fail.\<close>

lemma post_transmit_outcome:
  assumes p: "(\<lambda>(p, n) l'. \<exists>m'. p = Some m' \<and> message_fate l (m_MsgNo l + 1) m m' n \<and>
      serves l l' \<and> wire l' = wire l \<and> tx l' = tx l) q k"
    and len: "int (length m) = len"
  shows "post ((\<lambda>(pBuf, nResult). if nResult < 0 then g nResult
      else if nResult = 0 \<or> nResult = 1 then transmit dst pBuf len else ret len) q) k
    (send_outcome dst m l) (\<lambda>_. False)"
proof -
  obtain m' n where q: "q = (Some m', n)" and f: "message_fate l (m_MsgNo l + 1) m m' n"
    and k: "serves l k" "wire k = wire l" "tx k = tx l" using p by (cases q) auto
  from message_fate_code [OF f] consider "n = 2" | "n = 0 \<or> n = 1" by blast
  then show ?thesis
  proof cases
    case 1
    with q f k len show ?thesis by (auto simp: send_outcome_def)
  next
    case 2
    then have n: "n \<noteq> 2" "\<not> n < 0" by auto
    have "post (transmit dst (Some m') len) k (send_outcome dst m l) (\<lambda>_. False)"
      using f k len n by (auto simp: transmit_def real_send_def post_def iobind_def send_outcome_def serves_wire
          intro!: exI [of _ m'] exI [of _ n])
    with 2 q n show ?thesis by simp
  qed
qed

lemma post_sendto_Err:
  assumes ok: "lib_ok l" and b: "11 \<le> length b" and len: "4 \<le> len" "len \<le> int (length b)"
  shows "post (sendto_Err (Some b) len (Some dst)) l (send_outcome (Some dst) (take (nat len) b) l) (\<lambda>_. False)"
proof -
  have "len \<noteq> 0" "Some dst \<noteq> None" "int (length (take (nat len) b)) = len" using len by simp_all
  then show ?thesis
    unfolding sendto_Err_def prod.case option.case
    by (simp only: if_False) (rule post_seq [OF post_prepare [OF ok b len] post_transmit_outcome])
qed

lemma post_send_Err:
  assumes ok: "lib_ok l" and b: "11 \<le> length b" and len: "4 \<le> len" "len \<le> int (length b)"
  shows "post (send_Err (Some b) len) l (send_outcome None (take (nat len) b) l) (\<lambda>_. False)"
proof -
  have "len \<noteq> 0" "int (length (take (nat len) b)) = len" using len by simp_all
  then show ?thesis
    unfolding send_Err_def option.case
    by (simp only: if_False) (rule post_seq [OF post_prepare [OF ok b len] post_transmit_outcome])
qed


section \<open>A sequence of messages\<close>

text \<open>The program's calls one after the other; each names the array it passes and the length.\<close>

fun send_all :: "(addr \<times> bytes \<times> int) list \<Rightarrow> int list lib" where
  "send_all [] = ret []"
| "send_all ((dst, b, len) # xs) =
    iobind (sendto_Err (Some b) len (Some dst)) (\<lambda>r. iobind (send_all xs) (\<lambda>rs. ret (r # rs)))"

definition sendable :: "addr \<times> bytes \<times> int \<Rightarrow> bool" where
  "sendable x \<longleftrightarrow> (case x of (dst, b, len) \<Rightarrow> 11 \<le> length b \<and> 4 \<le> len \<and> len \<le> int (length b))"

definition message_of :: "addr \<times> bytes \<times> int \<Rightarrow> addr \<times> bytes" where
  "message_of x = (case x of (dst, b, len) \<Rightarrow> (dst, take (nat len) b))"

text \<open>A datagram comes from one of the messages: intact or with one byte inverted.\<close>

inductive delivered :: "bytes set \<Rightarrow> bytes \<Rightarrow> bool" for L where
  intact: "m \<in> L \<Longrightarrow> delivered L m"
| damaged: "m \<in> L \<Longrightarrow> one_flipped m m' \<Longrightarrow> delivered L m'"

inductive_cases delivered_cases: "delivered L m"

lemma delivered_mono: "delivered L m \<Longrightarrow> L \<subseteq> K \<Longrightarrow> delivered K m"
  by (induction rule: delivered.induct) (auto intro: delivered.intros)

lemma message_fate_delivered:
  "message_fate l k m m' n \<Longrightarrow> n \<noteq> 2 \<Longrightarrow> m \<in> L \<Longrightarrow> delivered L m'"
  by (auto simp: message_fate_def Let_def split: if_splits intro: delivered.intros)

text \<open>What a call adds to the wire.\<close>

lemma send_outcome_wire:
  assumes "send_outcome (Some dst) m l r l'"
  shows "\<exists>ws. wire l' = wire l @ ws \<and> length ws \<le> 1 \<and> (\<forall>x \<in> set ws. fst x = Some dst \<and> delivered {m} (snd x))"
proof -
  obtain m' n where f: "message_fate l (m_MsgNo l + 1) m m' n"
    and o: "if n = 2 then r = int (length m) \<and> wire l' = wire l \<and> tx l' = tx l
       else if tx l \<noteq> [] \<and> \<not> hd (tx l) then r = - 1 \<and> wire l' = wire l \<and> tx l' = tl (tx l)
       else r = int (length m) \<and> wire l' = wire l @ [(Some dst, m')] \<and> tx l' = tl (tx l)"
    using assms unfolding send_outcome_def by blast
  show ?thesis
  proof (cases "wire l' = wire l")
    case False
    with o have "n \<noteq> 2" "wire l' = wire l @ [(Some dst, m')]" by (auto split: if_splits)
    with message_fate_delivered [OF f, of "{m}"] show ?thesis by auto
  qed auto
qed

lemma post_send_all:
  assumes "lib_ok l" and "\<forall>x \<in> set xs. sendable x"
  shows "post (send_all xs) l (\<lambda>_ l'. lib_ok l' \<and> m_MsgNo l' = m_MsgNo l + of_nat (length xs) \<and>
    (\<exists>ws. wire l' = wire l @ ws \<and> length ws \<le> length xs \<and>
      (\<forall>w \<in> set ws. \<exists>x \<in> set xs. fst w = Some (fst x) \<and> delivered {snd (message_of x)} (snd w)))) (\<lambda>_. False)"
  using assms
proof (induction xs arbitrary: l)
  case (Cons x xs)
  obtain dst b len where x: "x = (dst, b, len)" by (cases x)
  with Cons.prems(2) have s: "11 \<le> length b" "4 \<le> len" "len \<le> int (length b)" by (simp_all add: sendable_def)
  let ?m = "take (nat len) b"
  show ?case
    unfolding x send_all.simps
  proof (rule post_seq [OF post_sendto_Err [OF Cons.prems(1) s]])
    fix r k
    assume o: "send_outcome (Some dst) ?m l r k"
    then have ok: "lib_ok k" "m_MsgNo k = m_MsgNo l + 1" by (simp_all add: send_outcome_def serves_def)
    obtain ws where ws: "wire k = wire l @ ws" "length ws \<le> 1"
      "\<forall>x \<in> set ws. fst x = Some dst \<and> delivered {?m} (snd x)" using send_outcome_wire [OF o] by blast
    show "post (iobind (send_all xs) (\<lambda>rs. ret (r # rs))) k
      (\<lambda>_ l'. lib_ok l' \<and> m_MsgNo l' = m_MsgNo l + of_nat (length ((dst, b, len) # xs)) \<and>
        (\<exists>ws. wire l' = wire l @ ws \<and> length ws \<le> length ((dst, b, len) # xs) \<and>
          (\<forall>w \<in> set ws. \<exists>x \<in> set ((dst, b, len) # xs).
            fst w = Some (fst x) \<and> delivered {snd (message_of x)} (snd w)))) (\<lambda>_. False)"
    proof (rule post_seq [OF Cons.IH [OF ok(1)]])
      fix rs :: "int list" and j
      assume j: "lib_ok j \<and> m_MsgNo j = m_MsgNo k + of_nat (length xs) \<and>
        (\<exists>ws. wire j = wire k @ ws \<and> length ws \<le> length xs \<and>
          (\<forall>w \<in> set ws. \<exists>x \<in> set xs. fst w = Some (fst x) \<and> delivered {snd (message_of x)} (snd w)))"
      then obtain vs where vs: "wire j = wire k @ vs" "length vs \<le> length xs"
        "\<forall>w \<in> set vs. \<exists>x \<in> set xs. fst w = Some (fst x) \<and> delivered {snd (message_of x)} (snd w)" by blast
      have "wire j = wire l @ ws @ vs \<and> length (ws @ vs) \<le> length ((dst, b, len) # xs) \<and>
          (\<forall>w \<in> set (ws @ vs). \<exists>x \<in> set ((dst, b, len) # xs).
            fst w = Some (fst x) \<and> delivered {snd (message_of x)} (snd w))"
        using ws vs by (auto simp: message_of_def)
      with j ok(2) show "post (ret (r # rs)) j
        (\<lambda>_ l'. lib_ok l' \<and> m_MsgNo l' = m_MsgNo l + of_nat (length ((dst, b, len) # xs)) \<and>
          (\<exists>ws. wire l' = wire l @ ws \<and> length ws \<le> length ((dst, b, len) # xs) \<and>
            (\<forall>w \<in> set ws. \<exists>x \<in> set ((dst, b, len) # xs).
              fst w = Some (fst x) \<and> delivered {snd (message_of x)} (snd w)))) (\<lambda>_. False)"
        unfolding post_ret by (intro conjI exI [of _ "ws @ vs"]) auto
    qed (use Cons.prems(2) in simp)
  qed
qed simp

section \<open>Receiving\<close>

text \<open>\<open>recvfrom_Mod\<close> gives what the system call gave, and says "corrupted" exactly when the
  checksum over the received bytes is not 0.\<close>

lemma console_dbg_print:
  "dbg_print level n l = (Inr (), l\<lparr>console := console l @ (if level \<noteq> - 1 \<and> g_dbg_print_level l < level then [] else [n])\<rparr>)"
  by (simp add: dbg_print_def)

lemma printType_remark:
  assumes "11 \<le> length b"
  shows "\<exists>t v. printType flag b l =
    (Inr (), l\<lparr>console := console l @ (if g_dbg_print_level l < 1 then [] else [TypeNote t v])\<rparr>)"
proof -
  have "\<exists>v. read_u32 b off = Inr v" if "off \<le> 7" for off
    using assms that by (simp add: read_u32_def)
  then obtain v u where vu: "read_u32 b 0 = Inr v" "read_u32 b 7 = Inr u" by blast
  have d: "\<exists>t' v'. dbg_print 1 (TypeNote t n) l =
    (Inr (), l\<lparr>console := console l @ (if g_dbg_print_level l < 1 then [] else [TypeNote t' v'])\<rparr>)" for t n
    by (auto simp: console_dbg_print)
  show ?thesis
    using d vu by (simp add: printType_def Let_def iobind_eqs)
qed

end
