(* ===== verification/File_Transfer.thy ===== *)
theory File_Transfer
  imports Server_Correct Rcopy_Correct PacketMgr_Correct
begin

text \<open>
  A client and a server child joined by the network: the composition of the two state machines.
  The network may lose, repeat, delay and reorder datagrams in any way, and damage them in any way that
  the checksum notices, such as the inverted byte of the error library; every datagram that arrives
  and passes the checksum is one the other side has sent.
\<close>

section \<open>The network\<close>

text \<open>Every arrival in \<open>es\<close> is a datagram that the process that ended in \<open>w\<close> has sent, or one that
  \<open>check_packet\<close> refuses, whatever it was before it was damaged.\<close>

definition refused :: "bytes \<Rightarrow> bool" where
  "refused m \<longleftrightarrow> (let p = take SREJ_MAX_PACKET m in check_packet p (int (length p)) \<noteq> Inr True)"

definition carried :: "world \<Rightarrow> net_event list \<Rightarrow> bool" where
  "carried w es \<longleftrightarrow> (\<forall>a m. Arrives (Datagram a m) \<in> set es \<longrightarrow> m \<in> snd ` set (sent w) \<or> refused m)"

text \<open>A valid packet that arrives is one that was sent.\<close>

definition valid_packet :: "bytes \<Rightarrow> bool" where
  "valid_packet m \<longleftrightarrow> length m \<le> SREJ_MAX_PACKET \<and> check_packet m (int (length m)) = Inr True"

lemma delivered_valid:
  assumes "delivered L m" and L: "\<And>m. m \<in> L \<Longrightarrow> valid_packet m"
    and chk: "check_packet (take SREJ_MAX_PACKET m) (int (length (take SREJ_MAX_PACKET m))) = Inr True"
  shows "m \<in> L" "take SREJ_MAX_PACKET m = m"
proof -
  have "m \<in> L \<and> take SREJ_MAX_PACKET m = m"
    using assms(1)
  proof cases
    case intact
    with L [OF this] show ?thesis by (simp add: valid_packet_def)
  next
    case (damaged p)
    then obtain i where i: "i < length p" "m = p[i := p ! i XOR 0xFF]" by (auto simp: one_flipped_def)
    have v: "length p \<le> SREJ_MAX_PACKET" "check_packet p (int (length p)) = Inr True"
      using L [OF damaged(1)] by (simp_all add: valid_packet_def)
    then have "take SREJ_MAX_PACKET m = m" "length m = length p" using i(2) by simp_all
    moreover have "length p \<le> 65536" using v(1) by linarith
    ultimately show ?thesis
      using chk check_packet_flip [OF v(2) _ i(1)] i(2) by simp
  qed
  then show "m \<in> L" "take SREJ_MAX_PACKET m = m" by simp_all
qed

text \<open>What the error library does to valid packets is among it.\<close>

lemma delivered_refused:
  assumes "delivered L m" and "\<And>m. m \<in> L \<Longrightarrow> valid_packet m"
  shows "m \<in> L \<or> refused m"
  using delivered_valid(1) [OF assms] by (auto simp: refused_def Let_def)

lemma carried_valid:
  assumes "carried w es" and "Arrives (Datagram a m) \<in> set es" and L: "\<And>m. m \<in> snd ` set (sent w) \<Longrightarrow> valid_packet m"
    and chk: "check_packet (take SREJ_MAX_PACKET m) (int (length (take SREJ_MAX_PACKET m))) = Inr True"
  shows "m \<in> snd ` set (sent w)" "take SREJ_MAX_PACKET m = m"
proof -
  show "m \<in> snd ` set (sent w)" using assms(1,2) chk unfolding carried_def refused_def Let_def by blast
  from L [OF this] show "take SREJ_MAX_PACKET m = m" by (simp add: valid_packet_def)
qed

lemma valid_packet_bytes: "7 + length d \<le> SREJ_MAX_PACKET \<Longrightarrow> valid_packet (packet_bytes s f d)"
  using check_packet_bytes [of d s f] by (simp add: valid_packet_def)

lemma cli_msg_valid: "chunks_ok cs \<Longrightarrow> cli_msg cs m \<Longrightarrow> valid_packet m"
  by (auto simp: cli_msg_def cli_other_def data_packet_def chunks_ok_def intro!: valid_packet_bytes)

lemma srv_msg_valid: "srv_msg n m \<Longrightarrow> valid_packet m"
  by (auto simp: srv_msg_def srv_fields_def intro!: valid_packet_bytes)

section \<open>The two ends together\<close>

text \<open>The data packets a server receives intact are the client's.\<close>

lemma carried_data_auth:
  assumes log: "cli_log F cs w" and net: "carried w es"
  shows "data_auth cs es"
  unfolding data_auth_def Let_def
proof (intro allI impI)
  fix a :: addr and m :: bytes
  let ?p = "take SREJ_MAX_PACKET m"
  assume a: "Arrives (Datagram a m) \<in> set es" and chk: "check_packet ?p (int (length ?p)) = Inr True"
    and f: "get_flag ?p = Inr FLAG_DATA"
  have ok: "chunks_ok cs" and msg: "\<And>m. m \<in> snd ` set (sent w) \<Longrightarrow> cli_msg cs m"
    using log by (auto simp: cli_log_def)
  note v = carried_valid [OF net a cli_msg_valid [OF ok msg] chk]
  have g: "get_flag m = Inr FLAG_DATA" using f v(2) by simp
  have "\<exists>k<length cs. m = data_packet cs k"
  proof (rule ccontr)
    assume "\<not> ?thesis"
    then have "cli_other m" using msg [OF v(1)] by (auto simp: cli_msg_def)
    then obtain s h d where m: "m = packet_bytes s h d" "length d \<le> 109" "h \<noteq> FLAG_DATA"
      by (auto simp: cli_other_def)
    then have "get_flag m = Inr h" by simp
    with g m(3) show False by simp
  qed
  then show "genuine cs ?p" using ok v(2) by (simp add: genuine_def)
qed

text \<open>An RR the client receives intact acknowledges no more than the server has written.\<close>

lemma carried_rr:
  assumes log: "srv_log A cs n pend w" and net: "carried w es" and rr: "rr_seen es v"
  shows "v \<le> n"
proof -
  from rr obtain a m r where a: "Arrives (Datagram a m) \<in> set es"
    and chk: "check_packet (take SREJ_MAX_PACKET m) (int (length (take SREJ_MAX_PACKET m))) = Inr True"
    and f: "get_flag (take SREJ_MAX_PACKET m) = Inr FLAG_RR"
    and r: "read_u32 (take SREJ_MAX_PACKET m) 7 = Inr r" "v \<le> unat r"
    unfolding rr_seen_def by blast
  have msg: "\<And>m. m \<in> snd ` set (sent w) \<Longrightarrow> srv_msg n m" using log by (auto simp: srv_log_def)
  note u = carried_valid [OF net a srv_msg_valid [OF msg] chk]
  from msg [OF u(1)] obtain s g d where m: "m = packet_bytes s g d" "srv_fields n g d"
    unfolding srv_msg_def by blast
  then have fits: "fits d" by (simp add: srv_fields_def)
  have "get_flag m = Inr FLAG_RR" using f u(2) by simp
  with m(1) fits have "g = FLAG_RR" by simp
  with m(2) obtain x where x: "d = be_bytes32 x" "unat x \<le> n" by (auto simp: srv_fields_def)
  have "read_u32 m 7 = Inr r" using r(1) u(2) by simp
  with m(1) x(1) have "r = x" by (simp add: read_u32_packet_bytes)
  with r(2) x(2) show "v \<le> n" by simp
qed

text \<open>A run of the client and of a server child, each from a fresh process.\<close>

definition srv_fresh :: "world \<Rightarrow> bool" where
  "srv_fresh w \<longleftrightarrow> sent w = [] \<and> out_data w = [] \<and> hung w = [] \<and> 0 \<le> maxFileDescriptor w \<and> maxFileDescriptor w \<le> 10"

definition named_packet :: "bytes \<Rightarrow> bool" where
  "named_packet p \<longleftrightarrow> length p \<le> SREJ_MAX_PACKET \<and> (length p < SREJ_MAX_PACKET \<or> 0 \<in> set (drop 15 p))"

lemma post_end_cases:
  assumes "post m w P E" and "m w = (r, w')"
  shows "(\<exists>x. r = Inr x \<and> P x w') \<or> (\<exists>c. r = Inl (Exit c) \<and> E w')"
  using assms by (auto simp: post_def split: sum.splits halt.splits)

lemma client_log:
  assumes "cli_fresh F wc" and "check_args argv rate = Inr ()"
    and "process_file junk n argv wc = (rc, wc')"
  shows "\<exists>cs. cli_log F cs wc' \<and> (rc = Inr (Some 0) \<longrightarrow> acked_all F (net wc) cs)"
  using post_end_cases [OF post_process_file [OF assms(1,2)] assms(3)]
  by (auto simp: cli_outcome_def cli_end_def split: option.splits)

lemma server_log:
  assumes "srv_fresh ws" and "named_packet p" and "writes ws = []" and "data_auth cs (net ws)"
    and "14 + length (net ws) \<le> n"
    and "process_client junk n sock p (int (length p)) client ws = (rs, ws')"
  shows "\<exists>k pend. srv_log True cs k pend ws'"
proof -
  have log: "srv_log True cs 2 (\<lambda>_. None) ws"
    using assms(1,3) by (simp add: srv_log_def srv_fresh_def stream_ok_def)
  have "post (process_client junk n sock p (int (length p)) client) ws
    (\<lambda>r w'. r \<noteq> None \<and> srv_end True cs w') (srv_end True cs)"
    by (rule post_process_client) (use assms(1,2,4,5) log in \<open>simp_all add: srv_fresh_def named_packet_def\<close>)
  from post_end_cases [OF this assms(6)] show ?thesis unfolding srv_end_def by blast
qed

lemma server_log_any:
  assumes "srv_fresh ws" and "named_packet p" and "14 + length (net ws) \<le> n"
    and "process_client junk n sock p (int (length p)) client ws = (rs, ws')"
  shows "\<exists>k pend. srv_log False [] k pend ws'"
proof -
  have "post (process_client junk n sock p (int (length p)) client) ws
    (\<lambda>r w'. r \<noteq> None \<and> srv_end False [] w') (srv_end False [])"
    by (rule post_process_client) (use assms in \<open>simp_all add: srv_fresh_def named_packet_def srv_log_def\<close>)
  from post_end_cases [OF this assms(4)] show ?thesis unfolding srv_end_def by blast
qed

lemma transfer_safe:
  assumes c: "cli_fresh F wc" "check_args argv rate = Inr ()" "process_file junk n argv wc = (rc, wc')"
    and s: "srv_fresh ws" "named_packet p" "writes ws = []" "14 + length (net ws) \<le> k"
      "process_client junk' k sock p (int (length p)) client ws = (rs, ws')"
    and net: "carried wc' (net ws)" "carried ws' (net wc)"
  shows "(\<exists>rest. F = out_data ws' @ rest) \<and> (rc = Inr (Some 0) \<longrightarrow> out_data ws' = F)"
proof -
  obtain cs where cs: "cli_log F cs wc'" "rc = Inr (Some 0) \<longrightarrow> acked_all F (net wc) cs"
    using client_log [OF c] by blast
  obtain e pend where log: "srv_log True cs e pend ws'"
    using server_log [OF s(1,2,3) carried_data_auth [OF cs(1) net(1)] s(4,5)] by blast
  then have st: "stream_ok cs 2 e pend (out_data ws')" by (simp add: srv_log_def)
  obtain u where u: "F = concat cs @ u" using cs(1) by (auto simp: cli_log_def)
  obtain v where v: "concat cs = out_data ws' @ v" using stream_ok_prefix [OF st] by blast
  have "out_data ws' = F" if "rc = Inr (Some 0)"
  proof -
    from cs(2) that have a: "F = concat cs" "cs = [] \<or> rr_seen (net wc) (2 + length cs)"
      by (simp_all add: acked_all_def)
    from a(2) show ?thesis
    proof
      assume "cs = []"
      with v a(1) show ?thesis by simp
    next
      assume "rr_seen (net wc) (2 + length cs)"
      from stream_ok_complete [OF st carried_rr [OF log net(2) this]] a(1) show ?thesis by simp
    qed
  qed
  with u v show ?thesis by auto
qed

text \<open>C1: a client and a server child, over a network that loses, repeats, delays and reorders datagrams as
  it likes and damages them in any way that the checksum notices (an inverted byte is noticed:
  \<open>delivered_refused\<close>; damage that passes the 16-bit sum is not covered), writing to a file system that
  takes every write in full: what the child has written is a prefix of the client's file; and when the
  client exits with status 0, the child has written all of it.\<close>

theorem file_transfer_correct:
  assumes c: "cli_fresh F wc" "check_args argv rate = Inr ()" "process_file junk n argv wc = (rc, wc')"
    and s: "srv_fresh ws" "named_packet p" "writes ws = []" "14 + length (net ws) \<le> k"
      "process_client junk' k sock p (int (length p)) client ws = (rs, ws')"
    and net: "carried wc' (net ws)" "carried ws' (net wc)"
  shows "(\<exists>rest. F = out_data ws' @ rest) \<and> (rc = Inr (Some 0) \<longrightarrow> out_data ws' = F)"
  by (rule transfer_safe [OF assms])

text \<open>\<open>rcopy a b 2 2 0 h 50\<close>\<close>

definition demo_argv :: "bytes list" where
  "demo_argv = [[114], [97], [98], [50], [50], [48], [104], [53, 48]]"

text \<open>What the memory beyond the old poll table may hold.\<close>

definition demo_junk :: "nat \<Rightarrow> pollfd" where
  "demo_junk = (\<lambda>_. \<lparr>p_fd = 9, p_events = 9, p_revents = 9\<rparr>)"

text \<open>Its filename packet.\<close>

definition demo_request :: bytes where
  "demo_request = [0, 0, 0, 1, 244, 156, 7, 0, 0, 0, 2, 0, 0, 0, 2, 98, 0]"

lemma demo_args: "check_args demo_argv 0 = Inr ()"
proof -
  have "atoi [50] = 2" by (simp add: atoi_def strtol10_def digits_value_def is_digit_def is_space_def)
  then show ?thesis by (simp add: check_args_def check_number_args_def demo_argv_def arr_get_def Let_def)
qed

text \<open>The client alone on its side of the network; everything it sends reaches the server.\<close>

lemma file_transfer_correct_witness:
  "\<exists>rc wc' rs ws'. process_file demo_junk 40 demo_argv (demo_world [] [7, 8, 9]) = (rc, wc') \<and>
    process_client demo_junk (14 + length (sent wc')) 5 demo_request 17 (1, 1)
      (demo_world (map (\<lambda>x. Arrives (Datagram (1, 1) (snd x))) (sent wc')) []) = (rs, ws') \<and>
    (\<exists>rest. [7, 8, 9] = out_data ws' @ rest)"
proof -
  let ?wc = "demo_world [] [7, 8, 9]"
  obtain rc wc' where c: "process_file demo_junk 40 demo_argv ?wc = (rc, wc')" by fastforce
  let ?ws = "demo_world (map (\<lambda>x. Arrives (Datagram (1, 1) (snd x))) (sent wc')) []"
  obtain rs ws' where s: "process_client demo_junk (14 + length (sent wc')) 5 demo_request (int (length demo_request)) (1, 1) ?ws = (rs, ws')"
    by fastforce
  have "carried wc' (net ?ws)" by (auto simp: carried_def demo_world_def)
  moreover have "carried ws' (net ?wc)" by (simp add: carried_def demo_world_def)
  ultimately have "\<exists>rest. [7, 8, 9] = out_data ws' @ rest"
    using file_transfer_correct [OF _ demo_args c _ _ _ _ s]
    by (simp add: cli_fresh_def srv_fresh_def named_packet_def demo_world_def demo_request_def)
  with c s show ?thesis by (auto simp: demo_request_def)
qed

end
