(* ===== verification/Lossless.thy ===== *)
theory Lossless
  imports File_Transfer
begin

text \<open>
  A network without faults: every datagram arrives, in order, and the acknowledgement of a chunk
  before the next chunk is sent. The whole run of client and server child is determined: the client
  exits with status 0, the server has written the file, and each has received exactly what
  the other has sent.
\<close>

section \<open>Running on a known world\<close>

text \<open>
  What a run needs to know of a process: no system call will fail, the timeline \<open>N\<close>, the rest \<open>R\<close> of
  the input file, the datagrams \<open>S\<close> sent and the data \<open>D\<close> written so far.
\<close>

definition known :: "world \<Rightarrow> net_event list \<Rightarrow> bytes \<Rightarrow> (addr \<times> bytes) list \<Rightarrow> bytes \<Rightarrow> bool" where
  "known w N R S D \<longleftrightarrow> socket_polled w \<and> sends w = [] \<and> reads w = [] \<and> writes w = [] \<and> allocs w = [] \<and> 0 < live w \<and>
    net w = N \<and> in_rest w = R \<and> sent w = S \<and> out_data w = D"

lemma st_send:
  assumes "known w N R S D" and "0 < len" and "len \<le> int (length buf)"
    and "\<And>v. known v N R (S @ [(dst, take (nat len) buf)]) D \<Longrightarrow> P () v"
  shows "post (safeSendto buf len dst) w P E"
  using assms by (simp add: post_def safeSendto_def sys_sendto_def iobind_def known_def)

lemma st_recv:
  assumes "known w (Arrives (Datagram a m) # N) R S D" and "\<And>v. known v N R S D \<Longrightarrow> P (a, take (nat len) m) v"
  shows "post (safeRecvfrom len) w P E"
  using assms by (simp add: post_def safeRecvfrom_def sys_recvfrom_def iobind_def known_def)

lemma st_poll_arrival:
  assumes known: "known w (Arrives a # N) R S D" and P: "\<And>k v. 0 \<le> k \<Longrightarrow> known v (Arrives a # N) R S D \<Longrightarrow> P k v"
  shows "post (pollCall t) w P E"
proof -
  have w: "socket_polled w" "net w = Arrives a # N" using known by (simp_all add: known_def)
  obtain k where "pollCall t w = (Inr k, w\<lparr>pollFileDescriptors := polled w True\<rparr>)" "0 \<le> k"
    using pollCall_arrival [OF w] by blast
  with P [of k "w\<lparr>pollFileDescriptors := polled w True\<rparr>"] known show ?thesis by (simp add: post_def known_def)
qed

lemma st_poll_quiet:
  assumes known: "known w (Quiet # N) R S D" and t: "0 \<le> t" and P: "\<And>v. known v N R S D \<Longrightarrow> P (- 1) v"
  shows "post (pollCall t) w P E"
proof -
  have w: "socket_polled w" "net w = Quiet # N" using known by (simp_all add: known_def)
  have "socket_polled (w\<lparr>net := N, pollFileDescriptors := polled w False\<rparr>)"
    using w(1) by (simp add: socket_polled_defs polled_nth nat_less_iff)
  with pollCall_quiet(2) [OF w(1) t w(2)] P [of "w\<lparr>net := N, pollFileDescriptors := polled w False\<rparr>"] known
  show ?thesis by (simp add: post_def known_def)
qed

lemma st_read:
  assumes "known w N R S D" and "0 \<le> n" and "\<And>v. known v N (drop (nat n) R) S D \<Longrightarrow> P (take (nat n) R, min n (int (length R))) v"
  shows "post (sys_read n) w P E"
proof -
  have w: "reads w = []" "in_rest w = R" using assms(1) by (simp_all add: known_def)
  have k: "read_amount w n = min n (int (length R))" by (simp add: read_amount_def w)
  have d: "drop (nat (min n (int (length R)))) R = drop (nat n) R" "take (nat (min n (int (length R)))) R = take (nat n) R"
    by (cases "n \<le> int (length R)"; simp add: min_def)+
  have "known (w\<lparr>in_rest := drop (nat n) R, reads := []\<rparr>) N (drop (nat n) R) S D" using assms(1) by (simp add: known_def)
  from assms(3) [OF this] show ?thesis by (simp add: post_def sys_read_def Let_def k d w)
qed

lemma st_write:
  assumes "known w N R S D" and "\<And>v. known v N R S (D @ bs) \<Longrightarrow> P (int (length bs)) v"
  shows "post (sys_write bs) w P E"
  using assms by (simp add: post_def sys_write_def write_amount_def Let_def known_def)

text \<open>Building a packet in an array that is large enough, and sending it.\<close>

lemma st_make_send:
  assumes "known w N R S D" and "int (length data) = n" and "7 + length data \<le> length arr" and "fits data"
    and "\<And>v. known v N R (S @ [(dst, packet_bytes seq flag data)]) D \<Longrightarrow>
      post (k (packet_bytes seq flag data @ drop (7 + length data) arr) (int (7 + length data))) v P E"
  shows "post (iobind (lift_res (make_packet arr seq flag data n)) (\<lambda>(packet, packet_len).
    iobind (safeSendto packet packet_len dst) (\<lambda>_. k packet packet_len))) w P E"
proof -
  have m: "make_packet arr seq flag data n =
      Inr (packet_bytes seq flag data @ drop (7 + length data) arr, int (7 + length data))"
    using make_packet_sent [of data "length data" arr seq flag] assms(2-4) by simp
  have n: "nat (7 + int (length data)) = 7 + length data" by linarith
  show ?thesis
    unfolding m iobind_eqs prod.case
    by (subst post_iobind, rule st_send [OF assms(1)])
      (use assms(4,5) in \<open>simp_all add: n\<close>)
qed

text \<open>Receiving a packet that was built: the checksum is right and the fields are read back.\<close>

lemma st_recv_packet:
  assumes known: "known w (Arrives (Datagram a (packet_bytes seq flag data)) # N) R S D"
    and l: "7 + length data \<le> SREJ_MAX_PACKET"
    and "\<And>v. known v N R S D \<Longrightarrow> P (a, packet_bytes seq flag data) v"
  shows "post (safeRecvfrom (int SREJ_MAX_PACKET)) w P E"
proof (rule st_recv [OF known])
  fix v assume v: "known v N R S D"
  have "take (nat (int SREJ_MAX_PACKET)) (packet_bytes seq flag data) = packet_bytes seq flag data"
    using l by simp
  with assms(3) [OF v] show "P (a, take (nat (int SREJ_MAX_PACKET)) (packet_bytes seq flag data)) v" by simp
qed

lemma built_packet:
  assumes "7 + length data \<le> SREJ_MAX_PACKET"
  shows "check_packet (packet_bytes seq flag data) (int (length (packet_bytes seq flag data))) = Inr True"
    and "get_flag (packet_bytes seq flag data) = Inr flag" and "get_seq (packet_bytes seq flag data) = Inr seq"
    and "length (packet_bytes seq flag data) = 7 + length data"
  using assms check_packet_bytes [of data seq flag] by simp_all

section \<open>The client\<close>

text \<open>An RR that has arrived, and then a quiet moment.\<close>

lemma st_controls_rr:
  assumes w: "known w (Arrives (Datagram a (packet_bytes s FLAG_RR (be_bytes32 r))) # Quiet # N) R S D"
    and rr: "window_rr (ri_window info) r = Inr win"
    and k: "\<And>v. known v N R S D \<Longrightarrow> P (info\<lparr>ri_server := a, ri_window := win\<rparr>, 1) v"
  shows "post (process_controls info t) w P E"
  unfolding process_controls_def
proof (subst post_iobind, rule st_poll_arrival [OF w])
  fix i v
  let ?p = "packet_bytes s FLAG_RR (be_bytes32 r)"
  let ?info = "info\<lparr>ri_server := a, ri_window := win\<rparr>"
  assume i: "(0 :: int) \<le> i" and v: "known v (Arrives (Datagram a ?p) # Quiet # N) R S D"
  have l: "7 + length (be_bytes32 r) \<le> SREJ_MAX_PACKET" by simp
  note b = built_packet [OF l, of s FLAG_RR]
  have hr: "handle_rr (info\<lparr>ri_server := a\<rparr>) ?p 11 = Inr ?info"
    using rr by (simp add: handle_rr_def read_u32_packet_bytes)
  have chk: "check_packet ?p 11 = Inr True" using b(1) by simp
  have turn: "post (controls_turn info) v (\<lambda>r w. r = (?info, True) \<and> known w (Quiet # N) R S D) E"
    unfolding controls_turn_def
    by (subst post_iobind, rule st_recv_packet [OF v l]) (simp add: chk hr Let_def)
  have "post (iobind (controls_turn info) (\<lambda>turn. iobind (pollCall POLL_NOW) (\<lambda>ready_socket.
      controls_loop (fst turn) ready_socket (if snd turn then 0 + 1 else 0)))) v P E"
  proof (rule post_seq [OF turn])
    fix turn u
    assume u: "turn = (?info, True) \<and> known u (Quiet # N) R S D"
    show "post (iobind (pollCall POLL_NOW) (\<lambda>ready_socket.
      controls_loop (fst turn) ready_socket (if snd turn then 0 + 1 else 0))) u P E"
    proof (subst post_iobind, rule st_poll_quiet [OF _ order_refl])
      show "known u (Quiet # N) R S D" using u by simp
      fix x assume "known x N R S D"
      from k [OF this] u show "post (controls_loop (fst turn) (- 1) (if snd turn then 0 + 1 else 0)) x P E"
        by (simp add: post_def controls_loop.simps [of _ "- 1"])
    qed
  qed
  with i show "post (controls_loop info i 0) v P E"
    by (simp add: post_def controls_loop.simps [of info i 0 v])
qed

text \<open>A window in which everything is acknowledged, the next number \<open>n\<close>.\<close>

definition idle_win :: "int \<Rightarrow> u32 \<Rightarrow> Window \<Rightarrow> bool" where
  "idle_win ws n w \<longleftrightarrow> win_inv w \<and> win_alloc w \<and> win_size w = ws \<and> win_lower w = n \<and> win_current w = n"

lemma idle_win_open: "idle_win ws n w \<Longrightarrow> unat n + nat ws < 4294967296 \<Longrightarrow> window_open w"
  using window_open_iff [of w] by (auto simp: idle_win_def win_inv_def win_shape_def)

lemma idle_win_step:
  assumes w: "idle_win ws n w" and n: "unat n + nat ws < 4294967296"
    and len: "0 \<le> len" "len \<le> int SREJ_MAX_PACKET" "len \<le> int (length packet)"
  obtains w1 w2 where "window_add w n packet len = Inr w1" "window_rr w1 (n + 1) = Inr w2" "idle_win ws (n + 1) w2"
proof -
  have i: "win_inv w" "win_alloc w" "win_size w = ws" "win_lower w = n" "win_current w = n"
    using w by (simp_all add: idle_win_def)
  from window_add_spec [OF i(1) idle_win_open [OF w n] len] obtain w1 where
    w1: "window_add w n packet len = Inr w1" "win_inv w1" "w1 = w\<lparr>win_entry := win_entry w1, win_current := n + 1\<rparr>"
    "win_cur w1 = Suc (unat n)" unfolding i(5) by blast
  have f: "win_alloc w1" "win_size w1 = ws" "win_lower w1 = n" "win_current w1 = n + 1"
    by (subst w1(3), simp add: i)+
  from window_rr_spec [OF w1(2), of "n + 1"] obtain w2 where
    w2: "window_rr w1 (n + 1) = Inr w2" "win_inv w2"
      "w2 = w1\<lparr>win_entry := win_entry w2, win_lower := win_lower w2, win_upper := win_upper w2\<rparr>"
      "win_lo w2 = max (win_lo w1) (min (unat (n + 1)) (win_cur w1))" by blast
  have "win_lo w2 = unat (n + 1)" using w2(4) w1(4) f(3,4) by simp
  then have "win_lower w2 = n + 1" by (simp only: word_unat_eq_iff)
  moreover have "win_alloc w2" "win_size w2 = ws" "win_current w2 = n + 1" by (subst w2(3), simp add: f)+
  ultimately show thesis using that [OF w1(1) w2(1)] w2(2) by (simp add: idle_win_def)
qed

definition cl :: "int \<Rightarrow> int \<Rightarrow> addr \<Rightarrow> u32 \<Rightarrow> RcopyInfo \<Rightarrow> bool" where
  "cl b ws a n info \<longleftrightarrow> idle_win ws n (ri_window info) \<and> ri_buffer_size info = b \<and> ri_server info = a \<and>
    ri_file_done info = 0 \<and> ri_had_error info = 0"

lemma st_send_chunk:
  assumes info: "cl b ws a n info" and n: "unat n + nat ws < 4294967296"
    and c: "c \<noteq> []" "length c \<le> SREJ_MAX_DATA"
    and w: "known w (Arrives (Datagram a (packet_bytes s FLAG_RR (be_bytes32 (n + 1)))) # Quiet # N) R S D"
    and k: "\<And>info' v. cl b ws a (n + 1) info' \<Longrightarrow> known v N R (S @ [(a, packet_bytes n FLAG_DATA c)]) D \<Longrightarrow> P info' v"
  shows "post (send_chunk info c (int (length c))) w P E"
proof -
  have i: "win_current (ri_window info) = n" "ri_server info = a" "idle_win ws n (ri_window info)"
    using info by (simp_all add: cl_def idle_win_def)
  let ?data = "c @ drop (length c) (uninit SREJ_MAX_DATA)"
  let ?p = "packet_bytes n FLAG_DATA c" and ?len = "7 + int (length c)"
  let ?packet = "?p @ drop (nat ?len) (uninit SREJ_MAX_PACKET)"
  have data: "mem_write (uninit SREJ_MAX_DATA) 0 c = Inr ?data" using c(2) by simp
  have mk: "make_packet (uninit SREJ_MAX_PACKET) n FLAG_DATA ?data (int (length c)) = Inr (?packet, ?len)"
    using make_packet_eq [of "int (length c)" ?data "uninit SREJ_MAX_PACKET" n FLAG_DATA] c(2) by simp
  have lp: "length ?p = 7 + length c" using c(2) by simp
  have tk: "take (nat ?len) ?packet = ?p" using lp by (simp add: nat_add_distrib)
  obtain w1 w2 where win: "window_add (ri_window info) n ?packet ?len = Inr w1" "window_rr w1 (n + 1) = Inr w2"
    "idle_win ws (n + 1) w2"
    by (rule idle_win_step [OF i(3) n, of ?len ?packet]) (use c(2) lp in simp_all)
  let ?info = "info\<lparr>ri_window := w1, ri_retry_count := 0\<rparr>"
  have rr: "window_rr (ri_window ?info) (n + 1) = Inr w2" using win(2) by simp
  have "post (safeSendto ?packet ?len a) w
    (\<lambda>_ v. post (iobind (lift_res (window_add (ri_window info) n ?packet ?len)) (\<lambda>win.
      iobind (process_controls (info\<lparr>ri_window := win, ri_retry_count := 0\<rparr>) POLL_NOW) (\<lambda>r. ret (fst r)))) v P E) E"
  proof (rule st_send [OF w])
    fix v assume "known v (Arrives (Datagram a (packet_bytes s FLAG_RR (be_bytes32 (n + 1)))) # Quiet # N) R
      (S @ [(a, take (nat ?len) ?packet)]) D"
    then have v: "known v (Arrives (Datagram a (packet_bytes s FLAG_RR (be_bytes32 (n + 1)))) # Quiet # N) R (S @ [(a, ?p)]) D"
      unfolding tk .
    have "post (process_controls ?info POLL_NOW) v (\<lambda>r w'. post (ret (fst r)) w' P E) E"
      by (rule st_controls_rr [OF v rr])
        (use k info win(3) in \<open>simp add: cl_def\<close>)
    then show "post (iobind (lift_res (window_add (ri_window info) n ?packet ?len)) (\<lambda>win.
      iobind (process_controls (info\<lparr>ri_window := win, ri_retry_count := 0\<rparr>) POLL_NOW) (\<lambda>r. ret (fst r)))) v P E"
      unfolding win(1) iobind_eqs post_iobind by simp
  qed (use lp in simp_all)
  then show ?thesis
    unfolding send_chunk_def Let_def data i mk iobind_eqs prod.case by simp
qed

text \<open>A file in full reads: every chunk but the last has \<open>b\<close> bytes.\<close>

fun blocks :: "nat \<Rightarrow> bytes list \<Rightarrow> bool" where
  "blocks b [] = True"
| "blocks b (c # cs) = (c \<noteq> [] \<and> length c \<le> b \<and> (cs \<noteq> [] \<longrightarrow> length c = b) \<and> blocks b cs)"

lemma blocks_length: "blocks b cs \<Longrightarrow> \<forall>d\<in>set cs. length d \<le> b"
  by (induction cs) auto

lemma blocks_exist:
  assumes "0 < b"
  obtains cs where "blocks b cs" "concat cs = F"
proof -
  have "\<exists>cs. blocks b cs \<and> concat cs = F"
  proof (induction "length F" arbitrary: F rule: less_induct)
    case less
    show ?case
    proof (cases "F = []")
      case True
      then show ?thesis by (intro exI [of _ "[]"]) simp
    next
      case False
      with assms less [of "drop b F"] obtain cs where cs: "blocks b cs" "concat cs = drop b F" by auto
      have "length (take b F) = b" if "cs \<noteq> []"
      proof (rule ccontr)
        assume "length (take b F) \<noteq> b"
        then have "concat cs = []" using cs(2) by simp
        with that cs(1) show False by (cases cs) auto
      qed
      with cs False assms show ?thesis by (intro exI [of _ "take b F # cs"]) simp
    qed
  qed
  with that show thesis by blast
qed

text \<open>The data packets of the chunks from number \<open>n\<close> on, and the acknowledgements of them, one by one,
  under the server's control numbers from \<open>s\<close> on.\<close>

fun data_packets :: "u32 \<Rightarrow> bytes list \<Rightarrow> bytes list" where
  "data_packets n [] = []"
| "data_packets n (c # cs) = packet_bytes n FLAG_DATA c # data_packets (n + 1) cs"

fun rr_packets :: "u32 \<Rightarrow> u32 \<Rightarrow> nat \<Rightarrow> bytes list" where
  "rr_packets s n 0 = []"
| "rr_packets s n (Suc k) = packet_bytes s FLAG_RR (be_bytes32 (n + 1)) # rr_packets (s + 1) (n + 1) k"

text \<open>Each followed by a quiet moment.\<close>

definition spaced :: "addr \<Rightarrow> bytes list \<Rightarrow> net_event list" where
  "spaced a ms = concat (map (\<lambda>m. [Arrives (Datagram a m), Quiet]) ms)"

lemma spaced_simps [simp]:
  "spaced a [] = []" "spaced a (m # ms) = Arrives (Datagram a m) # Quiet # spaced a ms"
  by (simp_all add: spaced_def)

definition sent_all :: "int \<Rightarrow> addr \<Rightarrow> u32 \<Rightarrow> RcopyInfo \<Rightarrow> bool" where
  "sent_all ws a n info \<longleftrightarrow> idle_win ws n (ri_window info) \<and> ri_server info = a \<and>
    ri_file_done info = 1 \<and> ri_had_error info = 0"

lemma st_send_data_loop:
  assumes "cl b ws a n info" and b: "0 < b" "b \<le> int SREJ_MAX_DATA" and "blocks (nat b) cs"
    and "unat n + length cs + nat ws < 4294967296"
    and "known w (spaced a (rr_packets s n (length cs)) @ N) (concat cs) S D"
    and "\<And>info' v. sent_all ws a (n + word_of_nat (length cs)) info' \<Longrightarrow>
      known v N [] (S @ map (Pair a) (data_packets n cs)) D \<Longrightarrow> P (None, info') v"
  shows "post (send_data_loop info) w P E"
  using assms(1,4-)
proof (induction cs arbitrary: info w n s S)
  case Nil
  have i: "window_open (ri_window info)" "ri_file_done info = 0" "ri_buffer_size info = b"
    using Nil.prems(1,3) idle_win_open by (auto simp: cl_def)
  have "post (iobind (sys_read b) (\<lambda>r w.
      if snd r < 0 then (Inr (Some DONE, info\<lparr>ri_had_error := 1\<rparr>), w)
      else if snd r = 0 then (Inr (None, info\<lparr>ri_file_done := 1\<rparr>), w)
      else iobind (send_chunk info (fst r) (snd r)) (\<lambda>info. send_data_loop info) w)) w P E"
  proof (subst post_iobind, rule st_read)
    show "known w N [] S D" using Nil.prems(4) by simp
    fix v assume "known v N (drop (nat b) []) S D"
    then have v: "known v N [] S D" by simp
    have "sent_all ws a (n + word_of_nat (length ([] :: bytes list))) (info\<lparr>ri_file_done := 1\<rparr>)"
      using Nil.prems(1) by (simp add: sent_all_def cl_def)
    from Nil.prems(5) [OF this] v b(1) show "post (\<lambda>w. if snd (take (nat b) ([] :: bytes), min b (int (length ([] :: bytes)))) < 0
          then (Inr (Some DONE, info\<lparr>ri_had_error := 1\<rparr>), w)
        else if snd (take (nat b) ([] :: bytes), min b (int (length ([] :: bytes)))) = 0
          then (Inr (None, info\<lparr>ri_file_done := 1\<rparr>), w)
        else iobind (send_chunk info (fst (take (nat b) ([] :: bytes), min b (int (length ([] :: bytes)))))
          (snd (take (nat b) ([] :: bytes), min b (int (length ([] :: bytes)))))) (\<lambda>info. send_data_loop info) w) v P E"
      by (simp add: post_def)
  qed (use b in simp)
  with i show ?case by (simp add: post_def send_data_loop.simps [of info w])
next
  case (Cons c cs)
  have i: "window_open (ri_window info)" "ri_file_done info = 0" "ri_buffer_size info = b"
    using Cons.prems(1,3) idle_win_open by (auto simp: cl_def)
  have c: "c \<noteq> []" "length c \<le> nat b" "cs \<noteq> [] \<Longrightarrow> length c = nat b" "blocks (nat b) cs"
    using Cons.prems(2) by simp_all
  have rd: "take (nat b) (concat (c # cs)) = c \<and> drop (nat b) (concat (c # cs)) = concat cs \<and>
    min b (int (length (concat (c # cs)))) = int (length c)"
  proof (cases "cs = []")
    case True
    moreover have "min b (int (length c)) = int (length c)" using c(2) b(1) by linarith
    ultimately show ?thesis using c(2) by simp
  next
    case False
    then have l: "length c = nat b" by (rule c(3))
    moreover have "min b (int (length (concat (c # cs)))) = int (length c)" using l b(1) by simp
    ultimately show ?thesis by (simp add: l [symmetric])
  qed
  note rd = rd [THEN conjunct1] rd [THEN conjunct2, THEN conjunct1] rd [THEN conjunct2, THEN conjunct2]
  have un: "unat (n + 1) = unat n + 1" using Cons.prems(3) by (simp add: unat_Suc_u32)
  let ?rest = "spaced a (rr_packets (s + 1) (n + 1) (length cs)) @ N"
  have len: "n + word_of_nat (length (c # cs)) = n + 1 + word_of_nat (length cs)" by simp
  have "post (iobind (sys_read b) (\<lambda>r w.
      if snd r < 0 then (Inr (Some DONE, info\<lparr>ri_had_error := 1\<rparr>), w)
      else if snd r = 0 then (Inr (None, info\<lparr>ri_file_done := 1\<rparr>), w)
      else iobind (send_chunk info (fst r) (snd r)) (\<lambda>info. send_data_loop info) w)) w P E"
  proof (subst post_iobind, rule st_read [OF Cons.prems(4)])
    fix v assume v: "known v (spaced a (rr_packets s n (length (c # cs))) @ N) (drop (nat b) (concat (c # cs))) S D"
    have "post (iobind (send_chunk info c (int (length c))) (\<lambda>info. send_data_loop info)) v P E"
    proof (subst post_iobind, rule st_send_chunk [OF Cons.prems(1) _ c(1)])
      show "unat n + nat ws < 4294967296" "length c \<le> SREJ_MAX_DATA" using Cons.prems(3) c(2) b(2) by simp_all
      show "known v (Arrives (Datagram a (packet_bytes s FLAG_RR (be_bytes32 (n + 1)))) # Quiet # ?rest) (concat cs) S D"
        using v unfolding rd by simp
      fix info' u
      assume u: "cl b ws a (n + 1) info'" "known u ?rest (concat cs) (S @ [(a, packet_bytes n FLAG_DATA c)]) D"
      show "post (send_data_loop info') u P E"
        by (rule Cons.IH [OF u(1) c(4) _ u(2)])
          (use Cons.prems(3,5) un in \<open>simp_all add: len [symmetric] add.assoc\<close>)
    qed
    then have "post (\<lambda>w. iobind (send_chunk info c (int (length c))) (\<lambda>info. send_data_loop info) w) v P E" .
    with c(1) show "post (\<lambda>w. if snd (take (nat b) (concat (c # cs)), min b (int (length (concat (c # cs))))) < 0
          then (Inr (Some DONE, info\<lparr>ri_had_error := 1\<rparr>), w)
        else if snd (take (nat b) (concat (c # cs)), min b (int (length (concat (c # cs))))) = 0
          then (Inr (None, info\<lparr>ri_file_done := 1\<rparr>), w)
        else iobind (send_chunk info (fst (take (nat b) (concat (c # cs)), min b (int (length (concat (c # cs)))))) 
          (snd (take (nat b) (concat (c # cs)), min b (int (length (concat (c # cs))))))) (\<lambda>info. send_data_loop info) w) v P E"
      unfolding rd by (simp add: post_def)
  qed (use b in simp)
  with i show ?case by (simp add: post_def send_data_loop.simps [of info w])
qed

text \<open>Sending and waiting for the answer, which arrives.\<close>

lemma st_ask:
  assumes w: "known w (Arrives (Datagram a (packet_bytes s f d)) # N) R S D" and l: "7 + length d \<le> SREJ_MAX_PACKET"
    and len: "0 < len" "len \<le> int (length buf)"
    and k: "\<And>v. known v N R (S @ [(dst, take (nat len) buf)]) D \<Longrightarrow> post (g (a, packet_bytes s f d)) v P E"
  shows "post (iobind (safeSendto buf len dst) (\<lambda>_. iobind (pollCall t) (\<lambda>ready.
    if ready < 0 then q else iobind (safeRecvfrom (int SREJ_MAX_PACKET)) g))) w P E"
  unfolding post_iobind
proof (rule st_send [OF w len], rule st_poll_arrival, assumption)
  fix v r u
  assume r: "(0 :: int) \<le> r"
    and u: "known u (Arrives (Datagram a (packet_bytes s f d)) # N) R (S @ [(dst, take (nat len) buf)]) D"
  have "post (safeRecvfrom (int SREJ_MAX_PACKET)) u (\<lambda>x v. post (g x) v P E) E"
    by (rule st_recv_packet [OF u l]) (rule k)
  with r show "post (if r < 0 then q else iobind (safeRecvfrom (int SREJ_MAX_PACKET)) g) u P E" by simp
qed

lemma st_send_data_state:
  assumes "cl b ws a n info" and "0 < b" "b \<le> int SREJ_MAX_DATA" and "blocks (nat b) cs"
    and "unat n + length cs + nat ws < 4294967296"
    and "known w (spaced a (rr_packets s n (length cs)) @ N) (concat cs) S D"
    and "\<And>info' v. sent_all ws a (n + word_of_nat (length cs)) info' \<Longrightarrow>
      known v N [] (S @ map (Pair a) (data_packets n cs)) D \<Longrightarrow> P (SEND_EOF, info') v"
  shows "post (send_data_state info) w P E"
proof -
  have "post (send_data_loop info) w (\<lambda>x v. \<exists>info'. x = (None, info') \<and> ri_file_done info' = 1 \<and>
      window_empty (ri_window info') \<and> P (SEND_EOF, info') v) E"
    by (rule st_send_data_loop [OF assms(1-6)])
      (use assms(7) in \<open>auto simp: sent_all_def idle_win_def window_empty_def\<close>)
  then show ?thesis
    unfolding send_data_state_def by (rule post_seq) auto
qed

lemma st_send_eof_state:
  assumes info: "sent_all ws a n info"
    and w: "known w (Arrives (Datagram a (packet_bytes s FLAG_EOF_ACK [])) # N) R S D"
    and k: "\<And>info' v. sent_all ws a n info' \<Longrightarrow>
      known v N R (S @ [(a, packet_bytes n FLAG_EOF []), (a, packet_bytes (n + 1) FLAG_DONE [])]) D \<Longrightarrow> P (DONE, info') v"
  shows "post (send_eof_state info) w P E"
proof -
  have i: "win_current (ri_window info) = n" "ri_server info = a" "info\<lparr>ri_server := a\<rparr> = info"
    using info by (auto simp: sent_all_def idle_win_def)
  let ?arr = "uninit SREJ_MAX_PACKET" and ?ack = "packet_bytes s FLAG_EOF_ACK []"
  have m: "make_packet ?arr x f [] 0 = Inr (packet_bytes x f [] @ drop 7 ?arr, 7)" for x f
    using make_packet_eq [of 0 "[]" ?arr x f] by simp
  have l: "7 + length ([] :: bytes) \<le> SREJ_MAX_PACKET" by simp
  have chk: "check_packet ?ack 7 = Inr True" using built_packet(1) [OF l, of s FLAG_EOF_ACK] by simp
  have fin: "post (send_final_done info) u (\<lambda>_ v. P (DONE, info) v) E"
    if u: "known u N R (S @ [(a, packet_bytes n FLAG_EOF [])]) D" for u
    unfolding send_final_done_def i m iobind_eqs prod.case post_iobind
    by (rule st_send [OF u]) (use k info in simp_all)
  have "post (send_eof_loop info (packet_bytes n FLAG_EOF [] @ drop 7 ?arr) 7 0) w P E"
    unfolding send_eof_loop.simps [of info _ _ 0] i(2)
    by (simp only: if_True zero_less_numeral, rule st_ask [OF w l]) (use fin in \<open>simp_all add: chk i Let_def\<close>)
  then show ?thesis
    unfolding send_eof_state_def i m iobind_eqs prod.case .
qed

lemma response_value:
  "arr_get (packet_bytes s f [v]) 7 = Inr v"
proof -
  let ?p = "packet_bytes s f [v]"
  have l: "length ?p = 8" by simp
  then have "hd (drop 7 ?p) = ?p ! 7" by (intro hd_drop_conv_nth) simp
  moreover have "drop 7 ?p = [v]" by simp
  ultimately have "?p ! 7 = v" by simp
  with l show ?thesis by simp
qed

lemma st_filename_state:
  assumes argv: "length argv = 8" "length (argv ! 2) \<le> SREJ_MAX_NAME"
    and ws: "0 < ws" "ws < 2 ^ 31"
    and info: "ri_window_size info = ws" "ri_buffer_size info = b" "ri_file_done info = 0" "ri_had_error info = 0"
      "ri_control_seq info = q" "ri_server info = srv"
    and w: "known w (Arrives (Datagram a (packet_bytes s FLAG_FILENAME_RESP [0])) # N) R S D"
    and k: "\<And>info' v. cl b ws a (q + 1) info' \<Longrightarrow>
      known v N R (S @ [(srv, packet_bytes q FLAG_FILENAME (name_payload ws b (argv ! 2)))]) D \<Longrightarrow> P (SEND_DATA, info') v"
  shows "post (Rcopy.filename_state argv info) w P E"
proof -
  let ?name = "argv ! 2" and ?resp = "packet_bytes s FLAG_FILENAME_RESP [0]"
  let ?p = "packet_bytes q FLAG_FILENAME (name_payload ws b ?name)"
  let ?info = "info\<lparr>ri_server := a, ri_control_seq := q + 1\<rparr>"
  have arg: "arr_get argv 2 = Inr ?name" using argv(1) by simp
  obtain rest where sfp: "send_filename_packet ?name info = filename_loop info (?p @ rest) (int (16 + length ?name)) 0"
    using send_filename_packet_eq [OF argv(2), of info] info by auto
  have lp: "length ?p = 16 + length ?name" using argv(2) by simp
  have tk: "take (nat (int (16 + length ?name))) (?p @ rest) = ?p" using lp by simp
  have l: "7 + length [0 :: u8] \<le> SREJ_MAX_PACKET" by simp
  have chk: "check_packet ?resp 8 = Inr True" using built_packet(1) [OF l, of s FLAG_FILENAME_RESP] by simp
  have "post (filename_loop info (?p @ rest) (int (16 + length ?name)) 0) w
    (\<lambda>x v. x = (True, ?info) \<and> known v N R (S @ [(srv, ?p)]) D) E"
    unfolding filename_loop.simps [of info _ _ 0]
    by (simp only: if_True zero_less_numeral info(6), rule st_ask [OF w l])
      (use lp info(5) in \<open>simp_all add: chk response_value Let_def tk\<close>)
  then show ?thesis
    unfolding Rcopy.filename_state_def arg iobind_eqs sfp
  proof (rule post_seq)
    fix x :: "bool \<times> RcopyInfo" and v :: world
    assume x: "x = (True, ?info) \<and> known v N R (S @ [(srv, ?p)]) D"
    have "post (window_init (ri_window ?info) ws (q + 1)) v
      (\<lambda>win u. P (SEND_DATA, ?info\<lparr>ri_window := win\<rparr>) u) E"
    proof (rule post_mono [OF post_window_init [OF ws]])
      fix win u
      assume win: "win_inv win \<and> win_alloc win \<and> win_size win = ws \<and> win_lower win = q + 1 \<and> win_current win = q + 1 \<and>
        (\<forall>n. win_pending win n = None) \<and> u = v\<lparr>allocs := tl (allocs v), live := Suc (live v)\<rparr>"
      then have "cl b ws a (q + 1) (?info\<lparr>ri_window := win\<rparr>)"
        using info by (simp add: cl_def idle_win_def)
      moreover have "known u N R (S @ [(srv, ?p)]) D" using x win by (simp add: known_def)
      ultimately show "P (SEND_DATA, ?info\<lparr>ri_window := win\<rparr>) u" by (rule k)
    next
      fix u assume "allocs v \<noteq> [] \<and> u = v\<lparr>allocs := tl (allocs v)\<rparr>"
      with x show "E u" by (simp add: known_def)
    qed
    with x info show "post ((\<lambda>(accepted, info). if accepted then
        iobind (window_init (ri_window info) (ri_window_size info) (ri_control_seq info)) (\<lambda>win.
        ret (SEND_DATA, info\<lparr>ri_window := win\<rparr>))
      else ret (DONE, info\<lparr>ri_had_error := 1\<rparr>)) x) v P E" by simp
  qed
qed

lemma st_client_start:
  assumes "length argv = 8"
  shows "post (Rcopy.start_state junk argv zero_RcopyInfo) (demo_world N F)
    (\<lambda>x v. fst x = FILENAME \<and> known v N F [] [] \<and> ri_window_size (snd x) = atoi (argv ! 3) \<and>
      ri_buffer_size (snd x) = atoi (argv ! 4) \<and> ri_file_done (snd x) = 0 \<and> ri_had_error (snd x) = 0 \<and>
      ri_control_seq (snd x) = 1 \<and> ri_server (snd x) = (1, htons (word_of_int (atoi (argv ! 7))))) E"
  using assms
  by (simp add: post_def Rcopy.start_state_def open_input_file_def sys_open_read_def sys_new_fd_def
      setupUdpClientToServer_def createUdpSocket_def sys_getaddrinfo_def setupPollSet_def sCalloc_def sys_calloc_def
      addToPollSet_def set_entry_def iobind_def demo_world_def zero_RcopyInfo_def zero_pollfd_def Let_def
      known_def socket_polled_defs)

lemma st_rcopy_turn:
  assumes "state \<noteq> DONE"
    and "post (rcopy_step junk argv state info) w (\<lambda>x v. post (rcopy_loop junk argv m (fst x) (snd x)) v P E) E"
  shows "post (rcopy_loop junk argv (Suc m) state info) w P E"
  using assms by (simp add: rcopy_loop.simps [of _ _ "Suc m"] split_def)

text \<open>What the network brings the client: the response to its filename packet, an acknowledgement of
  each chunk, the acknowledgement of the end.\<close>

definition to_client :: "addr \<Rightarrow> nat \<Rightarrow> net_event list" where
  "to_client a k = Arrives (Datagram a (packet_bytes 1 FLAG_FILENAME_RESP [0])) #
    spaced a (rr_packets 2 2 k) @ [Arrives (Datagram a (packet_bytes (2 + word_of_nat k) FLAG_EOF_ACK []))]"

definition from_client :: "bytes list \<Rightarrow> bytes list \<Rightarrow> bytes list" where
  "from_client argv cs = packet_bytes 1 FLAG_FILENAME (name_payload (atoi (argv ! 3)) (atoi (argv ! 4)) (argv ! 2)) #
    data_packets 2 cs @ [packet_bytes (2 + word_of_nat (length cs)) FLAG_EOF [],
      packet_bytes (3 + word_of_nat (length cs)) FLAG_DONE []]"

lemma lossless_client:
  assumes args: "check_args argv rate = Inr ()" and cs: "blocks (nat (atoi (argv ! 4))) cs"
    and fits: "2 + length cs + nat (atoi (argv ! 3)) < 2 ^ 32"
  shows "\<exists>w'. process_file junk (4 + m) argv (demo_world (to_client a (length cs)) (concat cs)) = (Inr (Some 0), w') \<and>
    map snd (sent w') = from_client argv cs"
proof -
  let ?ws = "atoi (argv ! 3)" and ?b = "atoi (argv ! 4)" and ?k = "length cs"
  have argv: "length argv = 8" "length (argv ! 2) \<le> SREJ_MAX_NAME" "0 < ?ws" "?ws < 2 ^ 31" "0 < ?b" "?b \<le> int SREJ_MAX_DATA"
    using check_args_ok [OF args] by auto
  let ?srv = "(1, htons (word_of_int (atoi (argv ! 7)))) :: addr"
  let ?name = "packet_bytes 1 FLAG_FILENAME (name_payload ?ws ?b (argv ! 2))"
  let ?eof = "Arrives (Datagram a (packet_bytes (2 + word_of_nat ?k) FLAG_EOF_ACK []))"
  let ?S1 = "[(?srv, ?name)]" and ?S2 = "(?srv, ?name) # map (Pair a) (data_packets 2 cs)"
  let ?n = "2 + word_of_nat ?k :: u32"
  let ?S3 = "?S2 @ [(a, packet_bytes ?n FLAG_EOF []), (a, packet_bytes (?n + 1) FLAG_DONE [])]"
  let ?Q = "\<lambda>r v. \<exists>info. r = Some info \<and> ri_had_error info = 0 \<and> win_alloc (ri_window info) \<and> known v [] [] ?S3 []"
  have eof: "post (rcopy_loop junk argv (Suc m) SEND_EOF info) w ?Q (\<lambda>_. False)"
    if "sent_all ?ws a ?n info" "known w [?eof] [] ?S2 []" for info w
  proof (rule st_rcopy_turn)
    have "post (send_eof_state info) w (\<lambda>x v. post (rcopy_loop junk argv m (fst x) (snd x)) v ?Q (\<lambda>_. False)) (\<lambda>_. False)"
      by (rule st_send_eof_state [OF that])
        (simp add: rcopy_loop.simps [of _ _ m] sent_all_def idle_win_def)
    then show "post (rcopy_step junk argv SEND_EOF info) w
      (\<lambda>x v. post (rcopy_loop junk argv m (fst x) (snd x)) v ?Q (\<lambda>_. False)) (\<lambda>_. False)"
      by (simp add: rcopy_step_def)
  qed simp
  have data: "post (rcopy_loop junk argv (Suc (Suc m)) SEND_DATA info) w ?Q (\<lambda>_. False)"
    if "cl ?b ?ws a 2 info" "known w (spaced a (rr_packets 2 2 ?k) @ [?eof]) (concat cs) ?S1 []" for info w
  proof (rule st_rcopy_turn)
    have "post (send_data_state info) w
      (\<lambda>x v. post (rcopy_loop junk argv (Suc m) (fst x) (snd x)) v ?Q (\<lambda>_. False)) (\<lambda>_. False)"
      by (rule st_send_data_state [OF that(1) argv(5,6) cs _ that(2)]) (use fits eof in simp_all)
    then show "post (rcopy_step junk argv SEND_DATA info) w
      (\<lambda>x v. post (rcopy_loop junk argv (Suc m) (fst x) (snd x)) v ?Q (\<lambda>_. False)) (\<lambda>_. False)"
      by (simp add: rcopy_step_def)
  qed simp
  have name: "post (rcopy_loop junk argv (Suc (Suc (Suc m))) FILENAME info) w ?Q (\<lambda>_. False)"
    if "known w (to_client a ?k) (concat cs) [] []" and i: "ri_window_size info = ?ws" "ri_buffer_size info = ?b"
      "ri_file_done info = 0" "ri_had_error info = 0" "ri_control_seq info = 1" "ri_server info = ?srv" for info w
  proof (rule st_rcopy_turn)
    have "post (Rcopy.filename_state argv info) w
      (\<lambda>x v. post (rcopy_loop junk argv (Suc (Suc m)) (fst x) (snd x)) v ?Q (\<lambda>_. False)) (\<lambda>_. False)"
      by (rule st_filename_state [OF argv(1-4) i that(1) [unfolded to_client_def]]) (use data in simp_all)
    then show "post (rcopy_step junk argv FILENAME info) w
      (\<lambda>x v. post (rcopy_loop junk argv (Suc (Suc m)) (fst x) (snd x)) v ?Q (\<lambda>_. False)) (\<lambda>_. False)"
      by (simp add: rcopy_step_def)
  qed simp
  have "post (rcopy_loop junk argv (Suc (Suc (Suc (Suc m)))) START_STATE zero_RcopyInfo)
    (demo_world (to_client a ?k) (concat cs)) ?Q (\<lambda>_. False)"
  proof (rule st_rcopy_turn)
    have "post (Rcopy.start_state junk argv zero_RcopyInfo) (demo_world (to_client a ?k) (concat cs))
      (\<lambda>x v. post (rcopy_loop junk argv (Suc (Suc (Suc m))) (fst x) (snd x)) v ?Q (\<lambda>_. False)) (\<lambda>_. False)"
      by (rule post_mono [OF st_client_start [OF argv(1)]]) (use name in auto)
    then show "post (rcopy_step junk argv START_STATE zero_RcopyInfo) (demo_world (to_client a ?k) (concat cs))
      (\<lambda>x v. post (rcopy_loop junk argv (Suc (Suc (Suc m))) (fst x) (snd x)) v ?Q (\<lambda>_. False)) (\<lambda>_. False)"
      by (simp add: rcopy_step_def)
  qed simp
  then have "post (process_file junk (4 + m) argv) (demo_world (to_client a ?k) (concat cs))
    (\<lambda>r v. r = Some 0 \<and> sent v = ?S3) (\<lambda>_. False)"
    unfolding process_file_def
    by (simp add: eval_nat_numeral)
      (erule post_mono; force simp: close_positive_def sys_close_def window_free_def sys_free_def post_def iobind_def known_def)
  from post_total [OF this] show ?thesis
    by (auto simp: from_client_def comp_def)
qed

section \<open>The server\<close>

text \<open>A buffer in which nothing waits, the next expected number \<open>n\<close>.\<close>

definition idle_buf :: "int \<Rightarrow> u32 \<Rightarrow> Buffer \<Rightarrow> bool" where
  "idle_buf ws n b \<longleftrightarrow> buffer_inv b \<and> buf_alloc b \<and> buf_size b = ws \<and> buf_expected b = n \<and> (\<forall>i. buf_pending b i = None)"

definition sv :: "int \<Rightarrow> addr \<Rightarrow> u32 \<Rightarrow> u32 \<Rightarrow> ServerInfo \<Rightarrow> bool" where
  "sv ws c n q info \<longleftrightarrow> idle_buf ws n (si_buffer info) \<and> si_client info = c \<and> si_control_seq info = q \<and>
    length (si_last_ack info) = SREJ_MAX_PACKET"

lemma st_send_rr:
  assumes w: "known w N R S D"
    and k: "\<And>v. known v N R (S @ [(si_client info,
      packet_bytes (si_control_seq info) FLAG_RR (be_bytes32 (buf_expected (si_buffer info))))]) D \<Longrightarrow>
      P (info\<lparr>si_control_seq := si_control_seq info + 1\<rparr>) v"
  shows "post (send_rr info) w P E"
proof -
  have "write_u32 (uninit 4) 0 v = Inr (be_bytes32 v)" for v by simp
  then show ?thesis
    unfolding send_rr_def iobind_eqs buffer_expected_def
    by (simp only: iobind_eqs) (rule st_make_send [OF w], use k in simp_all)
qed

text \<open>Saving the expected packet and writing what is ready writes it and nothing else.\<close>

lemma idle_buf_step:
  assumes b: "idle_buf ws n b" and ws: "0 < ws" and n: "unat n + nat ws < 4294967296"
    and d: "length d \<le> SREJ_MAX_DATA" and w: "known w N R S D"
  obtains b1 where "buffer_in_window b n" "buffer_save b n d (int (length d)) = Inr b1" "buf_expected b1 = n"
    "post (buffer_write_ready (buffer_clear_reject b1 n)) w
      (\<lambda>b2 v. idle_buf ws (n + 1) b2 \<and> known v N R S (D @ d)) E"
proof -
  have i: "buffer_inv b" "buf_alloc b" "buf_size b = ws" "buf_expected b = n" "\<And>i. buf_pending b i = None"
    using b by (simp_all add: idle_buf_def)
  have win: "buffer_in_window b n"
    using i ws n by (subst buffer_in_window_iff) (simp_all add: buffer_inv_def)
  from buffer_save_spec [OF i(1) win, of "int (length d)" d] d obtain b1 where
    b1: "buffer_save b n d (int (length d)) = Inr b1" "buffer_inv b1" "b1 = b\<lparr>buf_entry := buf_entry b1\<rparr>"
      "buf_pending b1 = (buf_pending b)(unat n \<mapsto> d)" by (auto simp: i(5))
  have f: "buf_alloc b1" "buf_size b1 = ws" "buf_expected b1 = n" by (subst b1(3), simp add: i)+
  let ?c = "buffer_clear_reject b1 n"
  note fr = buffer_clear_reject_frame [of b1 n]
  have c: "buffer_inv ?c" "buf_pending ?c = buf_pending b1"
    using b1(2) buffer_inv_cong [of ?c b1] buf_pending_cong [of ?c b1] by (simp_all add: fr)
  have "0 < buf_size ?c" using ws f(2) by (simp add: fr)
  note ready = post_buffer_write_ready [OF c(1) this, of w]
  have "post (buffer_write_ready ?c) w (\<lambda>b2 v. idle_buf ws (n + 1) b2 \<and> known v N R S (D @ d)) E"
  proof (rule post_mono [OF ready])
    fix b2 v
    assume "ready_post ?c w b2 v"
    then obtain k where k: "buffer_inv b2" "b2 = ?c\<lparr>buf_entry := buf_entry b2, buf_expected := buf_expected b2\<rparr>"
      "buf_next b2 = unat n + k" "run_from (buf_pending b1) (unat n) k"
      "\<And>i. buf_pending b2 i = (if unat n \<le> i \<and> i < unat n + k then None else buf_pending b1 i)"
      "v = w\<lparr>out_data := out_data v, writes := writes v\<rparr>"
      "writes w = [] \<longrightarrow> writes v = [] \<and> out_data v = out_data w @
        concat (map (\<lambda>i. the (buf_pending b1 (unat n + i))) [0..<k])"
      unfolding ready_post_def c(2) fr f(3) by blast
    have "k = 1"
      using k(4) by (cases k) (auto simp: run_from_def b1(4) i(5) split: if_splits)
    have "unat (n + 1) = unat n + 1" using n ws by (simp add: unat_Suc_u32)
    with k(3) \<open>k = 1\<close> have "buf_expected b2 = n + 1" by (simp add: word_unat_eq_iff)
    moreover have "buf_alloc b2" "buf_size b2 = ws" by (subst k(2), simp add: fr f)+
    moreover have "buf_pending b2 i = None" for i using k(5) \<open>k = 1\<close> by (auto simp: b1(4) i(5))
    moreover have "known v N R S (D @ d)"
      using w k(7) \<open>k = 1\<close> by (subst k(6)) (simp add: known_def socket_polled_defs b1(4))
    ultimately show "idle_buf ws (n + 1) b2 \<and> known v N R S (D @ d)"
      using k(1) by (simp add: idle_buf_def)
  next
    fix v assume "v = w\<lparr>out_data := out_data v, writes := writes v\<rparr> \<and> writes w \<noteq> []"
    with w show "E v" by (simp add: known_def)
  qed
  with that win b1(1) f(3) show thesis by blast
qed

lemma st_handle_data_packet:
  assumes info: "sv ws c n q info" and ws: "0 < ws" and n: "unat n + nat ws < 4294967296"
    and d: "length d \<le> SREJ_MAX_DATA" and w: "known w N R S D"
    and k: "\<And>info' v. sv ws c (n + 1) (q + 1) info' \<Longrightarrow>
      known v N R (S @ [(c, packet_bytes q FLAG_RR (be_bytes32 (n + 1)))]) (D @ d) \<Longrightarrow> P info' v"
  shows "post (handle_data_packet info (packet_bytes n FLAG_DATA d) (int (7 + length d))) w P E"
proof -
  let ?p = "packet_bytes n FLAG_DATA d"
  have seq: "get_seq ?p = Inr n" using built_packet(3) [of d n FLAG_DATA] d by simp
  have dat: "drop SREJ_HEADER_LEN ?p = d" "int (7 + length d) - int SREJ_HEADER_LEN = int (length d)" using d by simp_all
  have b: "idle_buf ws n (si_buffer info)" using info by (simp add: sv_def)
  from idle_buf_step [OF b ws n d w, where E = E] obtain b1 where
    b1: "buffer_in_window (si_buffer info) n" "buffer_save (si_buffer info) n d (int (length d)) = Inr b1" "buf_expected b1 = n"
      "post (buffer_write_ready (buffer_clear_reject b1 n)) w
        (\<lambda>b2 v. idle_buf ws (n + 1) b2 \<and> known v N R S (D @ d)) E" by metis
  have e: "buffer_expected (si_buffer info) = n" "buffer_expected b1 = n"
    using b b1(3) by (simp_all add: idle_buf_def buffer_expected_def)
  have "post (iobind (buffer_write_ready (buffer_clear_reject b1 n)) (\<lambda>b.
          iobind (send_rr (info\<lparr>si_buffer := b\<rparr>)) (\<lambda>info.
          iobind (lift_res (buffer_has_later (si_buffer info))) (\<lambda>later.
            if later then
              (let (need, b) = buffer_need_reject (si_buffer info); info = info\<lparr>si_buffer := b\<rparr> in
               if need then send_reject info (buffer_expected b) else ret info)
            else ret info)))) w P E"
  proof (rule post_seq [OF b1(4)])
    fix b2 v assume b2: "idle_buf ws (n + 1) b2 \<and> known v N R S (D @ d)"
    then have "buffer_has_later b2 = Inr False"
      using buffer_has_later_eq [of b2] by (simp add: idle_buf_def)
    with b2 info k show "post (iobind (send_rr (info\<lparr>si_buffer := b2\<rparr>)) (\<lambda>info.
          iobind (lift_res (buffer_has_later (si_buffer info))) (\<lambda>later.
            if later then
              (let (need, b) = buffer_need_reject (si_buffer info); info = info\<lparr>si_buffer := b\<rparr> in
               if need then send_reject info (buffer_expected b) else ret info)
            else ret info))) v P E"
      by (subst post_iobind, intro st_send_rr) (auto simp: sv_def idle_buf_def)
  qed
  then show ?thesis
    unfolding handle_data_packet_def seq iobind_eqs Let_def e dat
    by (simp add: b1 e)
qed

text \<open>The child waits for a datagram, which is there.\<close>

lemma st_receive:
  assumes w: "known w (Arrives (Datagram a (packet_bytes s f d)) # N) R S D" and l: "7 + length d \<le> SREJ_MAX_PACKET"
    and k: "\<And>v. known v N R S D \<Longrightarrow> post (g (a, packet_bytes s f d)) v P E"
  shows "post (iobind (pollCall t) (\<lambda>ready.
    if ready < 0 then m else iobind (safeRecvfrom (int SREJ_MAX_PACKET)) g)) w P E"
  unfolding post_iobind
proof (rule st_poll_arrival [OF w])
  fix r u
  assume r: "(0 :: int) \<le> r" and u: "known u (Arrives (Datagram a (packet_bytes s f d)) # N) R S D"
  have "post (safeRecvfrom (int SREJ_MAX_PACKET)) u (\<lambda>x v. post (g x) v P E) E"
    by (rule st_recv_packet [OF u l]) (rule k)
  with r show "post (if r < 0 then m else iobind (safeRecvfrom (int SREJ_MAX_PACKET)) g) u P E" by simp
qed

lemma st_recv_data_data:
  assumes info: "sv ws c n q info" and ws: "0 < ws" and n: "unat n + nat ws < 4294967296"
    and d: "length d \<le> SREJ_MAX_DATA"
    and w: "known w (Arrives (Datagram a (packet_bytes n FLAG_DATA d)) # N) R S D"
    and k: "\<And>info' v. sv ws a (n + 1) (q + 1) info' \<Longrightarrow>
      known v N R (S @ [(a, packet_bytes q FLAG_RR (be_bytes32 (n + 1)))]) (D @ d) \<Longrightarrow> P (RECV_DATA, info') v"
  shows "post (recv_data_state info) w P E"
  unfolding recv_data_state_def
proof (rule st_receive [OF w])
  show l: "7 + length d \<le> SREJ_MAX_PACKET" using d by simp
  fix v assume v: "known v N R S D"
  note b = built_packet [OF l, of n FLAG_DATA]
  have i: "sv ws a n q (info\<lparr>si_client := a\<rparr>)" using info by (simp add: sv_def)
  have "post (handle_data_packet (info\<lparr>si_client := a\<rparr>) (packet_bytes n FLAG_DATA d) (int (7 + length d))) v
    (\<lambda>info v. P (RECV_DATA, info) v) E"
    by (rule st_handle_data_packet [OF i ws n d v]) (rule k)
  with b show "post ((\<lambda>(client, packet).
        let info = info\<lparr>si_client := client\<rparr>; packet_len = int (length packet) in
        iobind (lift_res (check_packet packet packet_len)) (\<lambda>ok.
          if \<not> ok then ret (RECV_DATA, info)
          else iobind (lift_res (get_flag packet)) (\<lambda>flag.
            if flag = FLAG_DATA then
              iobind (handle_data_packet info packet packet_len) (\<lambda>info. ret (RECV_DATA, info))
            else if flag = FLAG_EOF then
              iobind (handle_eof_packet info) (\<lambda>info. ret (WAIT_ON_DONE, info))
            else ret (RECV_DATA, info)))) (a, packet_bytes n FLAG_DATA d)) v P E"
    by (simp add: Let_def)
qed

lemma st_recv_data_eof:
  assumes info: "sv ws c n q info"
    and w: "known w (Arrives (Datagram a (packet_bytes s FLAG_EOF [])) # N) R S D"
    and k: "\<And>info' v. sv ws a n (q + 1) info' \<Longrightarrow>
      known v N R (S @ [(a, packet_bytes q FLAG_EOF_ACK [])]) D \<Longrightarrow> P (WAIT_ON_DONE, info') v"
  shows "post (recv_data_state info) w P E"
  unfolding recv_data_state_def
proof (rule st_receive [OF w])
  show l: "7 + length ([] :: bytes) \<le> SREJ_MAX_PACKET" by simp
  fix v assume v: "known v N R S D"
  note b = built_packet [OF l, of s FLAG_EOF]
  let ?ack = "packet_bytes q FLAG_EOF_ACK []"
  let ?arr = "?ack @ drop 7 (si_last_ack info)"
  have len: "length (si_last_ack info) = 1407" using info by (simp add: sv_def)
  have m: "make_packet (si_last_ack info) q FLAG_EOF_ACK [] 0 = Inr (?arr, 7)"
    using make_packet_eq [of 0 "[]" "si_last_ack info" q FLAG_EOF_ACK] len by simp
  have "post (handle_eof_packet (info\<lparr>si_client := a\<rparr>)) v (\<lambda>info v. P (WAIT_ON_DONE, info) v) E"
    unfolding handle_eof_packet_def send_eof_ack_def resend_last_ack_def
    using info m len by (simp add: sv_def Let_def) (rule st_send [OF v], use k info len in \<open>simp_all add: sv_def\<close>)
  with b show "post ((\<lambda>(client, packet).
        let info = info\<lparr>si_client := client\<rparr>; packet_len = int (length packet) in
        iobind (lift_res (check_packet packet packet_len)) (\<lambda>ok.
          if \<not> ok then ret (RECV_DATA, info)
          else iobind (lift_res (get_flag packet)) (\<lambda>flag.
            if flag = FLAG_DATA then
              iobind (handle_data_packet info packet packet_len) (\<lambda>info. ret (RECV_DATA, info))
            else if flag = FLAG_EOF then
              iobind (handle_eof_packet info) (\<lambda>info. ret (WAIT_ON_DONE, info))
            else ret (RECV_DATA, info)))) (a, packet_bytes s FLAG_EOF [])) v P E"
    by (simp add: Let_def)
qed

lemma st_wait_on_done:
  assumes w: "known w (Arrives (Datagram a (packet_bytes s FLAG_DONE [])) # N) R S D"
    and k: "\<And>v. known v N R S D \<Longrightarrow> P (Server.DONE, info\<lparr>si_client := a\<rparr>) v"
  shows "post (wait_on_done_state info) w P E"
  unfolding wait_on_done_state_def
  by (rule st_receive [OF w]) (use built_packet [of "[]" s FLAG_DONE] k in \<open>simp_all add: Let_def\<close>)

lemma st_server_filename:
  assumes name: "length name \<le> SREJ_MAX_NAME" "0 \<notin> set name"
    and ws: "0 < ws" "ws < 2 ^ 31"
    and info: "si_first_packet info = packet_bytes s FLAG_FILENAME (name_payload ws b name) @ replicate k 0"
      "si_client info = c" "si_control_seq info = q" "length (si_last_ack info) = SREJ_MAX_PACKET"
    and w: "known w N R S D" "fds w = fd # fs" "0 \<le> fd"
    and k: "\<And>info' v. sv ws c 2 (q + 1) info' \<Longrightarrow>
      known v N R (S @ [(c, packet_bytes q FLAG_FILENAME_RESP [0])]) [] \<Longrightarrow> P (RECV_DATA, info') v"
  shows "post (Server.filename_state info) w P E"
proof -
  have f: "read_u32 (si_first_packet info) 7 = Inr (word_of_int ws)"
    "read_u32 (si_first_packet info) (7 + 4) = Inr (word_of_int b)"
    "c_string (si_first_packet info) (7 + 8) = Inr name"
    unfolding info(1) using name_packet_fields [OF name refl] by blast+
  let ?w = "w\<lparr>fds := fs, opened := opened w @ [name], out_data := []\<rparr>"
  let ?info = "info\<lparr>si_window_size := ws, si_buffer_size := sint (word_of_int b :: u32), si_output_file := fd,
    si_control_seq := q + 1\<rparr>"
  have op: "sys_open_trunc name w = (Inr fd, ?w)"
    using w(2,3) by (simp add: sys_open_trunc_def sys_new_fd_def iobind_def)
  have wsi: "sint (word_of_int ws :: u32) = ws" using ws by (simp add: sint_word_of_int_u32)
  have known: "known ?w N R S []" using w(1) by (simp add: known_def socket_polled_defs)
  have init: "post (buffer_init (si_buffer info) ws 2 fd) v (\<lambda>b v. P (RECV_DATA, ?info\<lparr>si_buffer := b\<rparr>) v) E"
    if v: "known v N R (S @ [(c, packet_bytes q FLAG_FILENAME_RESP [0])]) []" for v
  proof (rule post_mono [OF post_buffer_init [OF ws(2)]])
    fix b' u
    assume b: "0 \<le> ws \<and> buffer_inv b' \<and> buf_alloc b' \<and> buf_size b' = ws \<and> buf_expected b' = 2 \<and>
      buf_output_file b' = fd \<and> buf_missing_active b' = 0 \<and> (\<forall>n. buf_pending b' n = None) \<and>
      u = v\<lparr>allocs := tl (allocs v), live := Suc (live v)\<rparr>"
    then have "sv ws c 2 (q + 1) (?info\<lparr>si_buffer := b'\<rparr>)" using info by (simp add: sv_def idle_buf_def)
    moreover have "known u N R (S @ [(c, packet_bytes q FLAG_FILENAME_RESP [0])]) []"
      using v b by (simp add: known_def socket_polled_defs)
    ultimately show "P (RECV_DATA, ?info\<lparr>si_buffer := b'\<rparr>) u" by (rule k)
  next
    fix u assume "u = v\<lparr>allocs := tl (allocs v)\<rparr> \<and> (ws < 0 \<or> allocs v \<noteq> [])"
    with v ws show "E u" by (simp add: known_def)
  qed
  have "post (iobind (send_filename_response (info\<lparr>si_window_size := ws, si_buffer_size := sint (word_of_int b :: u32),
        si_output_file := fd\<rparr>) 0) (\<lambda>info.
      iobind (buffer_init (si_buffer info) (si_window_size info) 2 (si_output_file info)) (\<lambda>b.
      ret (RECV_DATA, info\<lparr>si_buffer := b\<rparr>)))) ?w P E"
    unfolding send_filename_response_def
    by (subst post_iobind, rule st_make_send [OF known]) (use init info in simp_all)
  with w(3) show ?thesis
    unfolding Server.filename_state_def f iobind_eqs
    by (simp add: post_from_eq [of "sys_open_trunc name", OF op] wsi f Let_def)
qed

lemma st_server_turn:
  assumes "state \<noteq> Server.DONE"
    and "post (server_step junk state info) w (\<lambda>x v. post (server_loop junk m (fst x) (snd x)) v P E) E"
  shows "post (server_loop junk (Suc m) state info) w P E"
  using assms by (simp add: server_loop.simps [of _ "Suc m"] split_def)

text \<open>All data packets, one after the other: all is written, all is acknowledged.\<close>

lemma st_server_data_loop:
  assumes "sv ws c n q info" and ws: "0 < ws" and "unat n + length cs + nat ws < 4294967296"
    and "\<forall>d\<in>set cs. length d \<le> SREJ_MAX_DATA"
    and "known w (map (\<lambda>m. Arrives (Datagram a m)) (data_packets n cs) @ N) R S D"
    and "\<And>info' v. sv ws (if cs = [] then c else a) (n + word_of_nat (length cs)) (q + word_of_nat (length cs)) info' \<Longrightarrow>
      known v N R (S @ map (Pair a) (rr_packets q n (length cs))) (D @ concat cs) \<Longrightarrow>
      post (server_loop junk m RECV_DATA info') v P E"
  shows "post (server_loop junk (length cs + m) RECV_DATA info) w P E"
  using assms(1,3-)
proof (induction cs arbitrary: info w c n q S D)
  case Nil
  then show ?case by simp
next
  case (Cons d cs)
  have un: "unat (n + 1) = unat n + 1" using Cons.prems(2) by (simp add: unat_Suc_u32)
  have "post (recv_data_state info) w (\<lambda>x v. post (server_loop junk (length cs + m) (fst x) (snd x)) v P E) E"
  proof (rule st_recv_data_data [OF Cons.prems(1) ws])
    show "unat n + nat ws < 4294967296" "length d \<le> SREJ_MAX_DATA" using Cons.prems(2,3) by simp_all
    show "known w (Arrives (Datagram a (packet_bytes n FLAG_DATA d)) #
      map (\<lambda>m. Arrives (Datagram a m)) (data_packets (n + 1) cs) @ N) R S D" using Cons.prems(4) by simp
    fix info' v
    assume u: "sv ws a (n + 1) (q + 1) info'"
      "known v (map (\<lambda>m. Arrives (Datagram a m)) (data_packets (n + 1) cs) @ N) R
        (S @ [(a, packet_bytes q FLAG_RR (be_bytes32 (n + 1)))]) (D @ d)"
    have "post (server_loop junk (length cs + m) RECV_DATA info') v P E"
      by (rule Cons.IH [OF u(1) _ _ u(2)]) (use Cons.prems(2,3,5) un in \<open>simp_all add: add.assoc\<close>)
    then show "post (server_loop junk (length cs + m) (fst (RECV_DATA, info')) (snd (RECV_DATA, info'))) v P E" by simp
  qed
  then show ?case using st_server_turn [of RECV_DATA] by (simp add: server_step_def)
qed

lemma st_server_start:
  "post (Server.start_state junk info) (demo_world N F\<lparr>closed := fs\<rparr>)
    (\<lambda>x v. x = (Server.FILENAME, info\<lparr>si_socket_num := 3\<rparr>) \<and> known v N F [] [] \<and> fds v = [4]) E"
  by (simp add: post_def Server.start_state_def sys_new_fd_def
      createUdpSocket_def setupPollSet_def sCalloc_def sys_calloc_def
      addToPollSet_def set_entry_def iobind_def demo_world_def zero_pollfd_def Let_def
      known_def socket_polled_defs)

text \<open>The end of a child that has its buffer.\<close>

lemma st_server_close:
  assumes "known w N R S D" and "buf_alloc (si_buffer info)"
  shows "post (close_if_open (si_output_file info)) w (\<lambda>_ w.
    post (close_if_open (si_socket_num info)) w (\<lambda>_ w.
      post (buffer_free (si_buffer info)) w (\<lambda>b v. out_data v = D \<and> sent v = S) E) E) E"
  using assms by (simp add: close_if_open_def buffer_free_def sys_close_def sys_free_def post_def iobind_def known_def)

text \<open>What the server sends the client.\<close>

definition from_server :: "nat \<Rightarrow> bytes list" where
  "from_server k = packet_bytes 1 FLAG_FILENAME_RESP [0] # rr_packets 2 2 k @
    [packet_bytes (2 + word_of_nat k) FLAG_EOF_ACK []]"

lemma lossless_server:
  assumes ws: "0 < ws" "ws < 2 ^ 31" and name: "length name \<le> SREJ_MAX_NAME" "0 \<notin> set name"
    and p: "p = packet_bytes 1 FLAG_FILENAME (name_payload ws b name)"
    and cs: "\<forall>d\<in>set cs. length d \<le> SREJ_MAX_DATA" and fits: "2 + length cs + nat ws < 2 ^ 32"
    and N: "N = map (\<lambda>m. Arrives (Datagram c m)) (data_packets 2 cs @
      [packet_bytes (2 + word_of_nat (length cs)) FLAG_EOF [], packet_bytes (3 + word_of_nat (length cs)) FLAG_DONE []])"
  shows "\<exists>info w'. process_client junk (4 + length cs + m) sock p (int (length p)) c (demo_world N []) = (Inr (Some info), w') \<and>
    out_data w' = concat cs \<and> sent w' = map (Pair c) (from_server (length cs))"
proof -
  let ?k = "length cs" and ?data = "map (\<lambda>m. Arrives (Datagram c m)) (data_packets 2 cs)"
  let ?fin = "[Arrives (Datagram c (packet_bytes (2 + word_of_nat ?k) FLAG_EOF [])),
    Arrives (Datagram c (packet_bytes (3 + word_of_nat ?k) FLAG_DONE []))]"
  let ?S = "map (Pair c) (from_server ?k)"
  let ?Q = "\<lambda>r v. \<exists>info. r = Some info \<and> buf_alloc (si_buffer info) \<and> known v [] [] ?S (concat cs)"
  have lp: "length p = 16 + length name" using name(1) by (simp add: p)
  have fin: "post (server_loop junk (Suc (Suc m)) RECV_DATA info) w ?Q (\<lambda>_. False)"
    if i: "sv ws c' n (2 + word_of_nat ?k) info"
      and w: "known w ?fin [] ((c, packet_bytes 1 FLAG_FILENAME_RESP [0]) # map (Pair c) (rr_packets 2 2 ?k)) (concat cs)"
    for info w c' n
  proof (rule st_server_turn)
    have "post (wait_on_done_state info') v
        (\<lambda>x v. post (server_loop junk m (fst x) (snd x)) v ?Q (\<lambda>_. False)) (\<lambda>_. False)"
      if "sv ws c n q info'" "known v (tl ?fin) [] ?S (concat cs)" for info' v n q
      by (rule st_wait_on_done) (use that in \<open>simp_all add: server_loop.simps [of _ m] sv_def idle_buf_def\<close>)
    then have finished: "post (server_loop junk (Suc m) WAIT_ON_DONE info') v ?Q (\<lambda>_. False)"
      if "sv ws c n q info'" "known v (tl ?fin) [] ?S (concat cs)" for info' v n q
      using that st_server_turn [of WAIT_ON_DONE] by (simp add: server_step_def)
    have "post (recv_data_state info) w
      (\<lambda>x v. post (server_loop junk (Suc m) (fst x) (snd x)) v ?Q (\<lambda>_. False)) (\<lambda>_. False)"
      by (rule st_recv_data_eof [OF i w]) (use finished in \<open>simp add: from_server_def\<close>)
    then show "post (server_step junk RECV_DATA info) w
      (\<lambda>x v. post (server_loop junk (Suc m) (fst x) (snd x)) v ?Q (\<lambda>_. False)) (\<lambda>_. False)"
      by (simp add: server_step_def)
  qed simp
  have data: "post (server_loop junk (?k + Suc (Suc m)) RECV_DATA info) w ?Q (\<lambda>_. False)"
    if "sv ws c 2 2 info" "known w N [] [(c, packet_bytes 1 FLAG_FILENAME_RESP [0])] []" for info w
  proof (rule st_server_data_loop [OF that(1) ws(1) _ cs])
    show "unat (2 :: u32) + ?k + nat ws < 4294967296" using fits by simp
    show "known w (?data @ ?fin) [] [(c, packet_bytes 1 FLAG_FILENAME_RESP [0])] []" using that(2) N by simp
    fix info' v
    assume "sv ws (if cs = [] then c else c) (2 + word_of_nat ?k) (2 + word_of_nat ?k) info'"
      "known v ?fin [] ([(c, packet_bytes 1 FLAG_FILENAME_RESP [0])] @ map (Pair c) (rr_packets 2 2 ?k)) ([] @ concat cs)"
    then show "post (server_loop junk (Suc (Suc m)) RECV_DATA info') v ?Q (\<lambda>_. False)" by (intro fin) simp_all
  qed
  have named: "post (server_loop junk (Suc (?k + Suc (Suc m))) Server.FILENAME info) w ?Q (\<lambda>_. False)"
    if "si_first_packet info = p @ replicate (1407 - length p) 0"
      "si_client info = c" "si_control_seq info = 1" "length (si_last_ack info) = SREJ_MAX_PACKET"
      "known w N [] [] []" "fds w = [4]" for info w
  proof (rule st_server_turn)
    have "post (Server.filename_state info) w
      (\<lambda>x v. post (server_loop junk (?k + Suc (Suc m)) (fst x) (snd x)) v ?Q (\<lambda>_. False)) (\<lambda>_. False)"
      by (rule st_server_filename [OF name ws that(1) [unfolded p] that(2-6)]) (use data in simp_all)
    then show "post (server_step junk Server.FILENAME info) w
      (\<lambda>x v. post (server_loop junk (?k + Suc (Suc m)) (fst x) (snd x)) v ?Q (\<lambda>_. False)) (\<lambda>_. False)"
      by (simp add: server_step_def)
  qed simp
  have start: "post (server_loop junk (Suc (Suc (?k + Suc (Suc m)))) START info) (demo_world N []\<lparr>closed := [sock]\<rparr>) ?Q (\<lambda>_. False)"
    if "si_first_packet info = p @ replicate (1407 - length p) 0"
      "si_client info = c" "si_control_seq info = 1" "length (si_last_ack info) = SREJ_MAX_PACKET" for info
  proof (rule st_server_turn)
    have "post (Server.start_state junk info) (demo_world N []\<lparr>closed := [sock]\<rparr>)
      (\<lambda>x v. post (server_loop junk (Suc (?k + Suc (Suc m))) (fst x) (snd x)) v ?Q (\<lambda>_. False)) (\<lambda>_. False)"
      by (rule post_mono [OF st_server_start]) (use that named in auto)
    then show "post (server_step junk START info) (demo_world N []\<lparr>closed := [sock]\<rparr>)
      (\<lambda>x v. post (server_loop junk (Suc (?k + Suc (Suc m))) (fst x) (snd x)) v ?Q (\<lambda>_. False)) (\<lambda>_. False)"
      by (simp add: server_step_def)
  qed simp
  let ?info = "zero_ServerInfo\<lparr>si_first_packet := p @ replicate (1407 - length p) 0, si_client := c,
    si_first_packet_len := int (length p), si_control_seq := 1\<rparr>"
  have cl: "sys_close sock (demo_world N []) = (Inr (), demo_world N []\<lparr>closed := [sock]\<rparr>)"
    by (simp add: sys_close_def demo_world_def)
  have rd: "mem_read p 0 (int (length p)) = Inr p" by simp
  have mw: "mem_write (si_first_packet zero_ServerInfo) 0 p = Inr (p @ replicate (1407 - length p) 0)"
    using lp name(1) by (simp add: zero_ServerInfo_def mem_write_def)
  have n: "4 + ?k + m = Suc (Suc (?k + Suc (Suc m)))" by simp
  have "post (process_client junk (4 + ?k + m) sock p (int (length p)) c) (demo_world N [])
    (\<lambda>r v. \<exists>info. r = Some info \<and> out_data v = concat cs \<and> sent v = ?S) (\<lambda>_. False)"
    unfolding process_client_def n rd iobind_eqs mw Let_def
    by (subst post_iobind, subst post_from_eq [of "sys_close sock", OF cl], subst post_iobind, rule post_mono [OF start])
      (auto simp: zero_ServerInfo_def intro: st_server_close)
  from post_total [OF this] show ?thesis by auto
qed

section \<open>Both ends\<close>

text \<open>The number of chunks of a file, and the datagrams that arrive in a timeline.\<close>

definition chunk_count :: "nat \<Rightarrow> bytes \<Rightarrow> nat" where
  "chunk_count b F = (length F + b - 1) div b"

lemma blocks_count: "blocks b cs \<Longrightarrow> 0 < b \<Longrightarrow> length cs = chunk_count b (concat cs)"
proof (induction cs)
  case Nil
  then show ?case by (simp add: chunk_count_def)
next
  case (Cons c cs)
  show ?case
  proof (cases "cs = []")
    case True
    then have c: "0 < length c" "length c \<le> b" using Cons.prems(1) by simp_all
    then have e: "length c + b - 1 = (length c - 1) + b" and l: "length c - 1 < b" by linarith+
    have "(length c + b - 1) div b = 1"
      unfolding e div_add_self2 [OF Cons.prems(2) [THEN less_imp_neq, symmetric]] div_less [OF l] by simp
    with True show ?thesis by (simp add: chunk_count_def)
  next
    case False
    then have l: "length c = b" "blocks b cs" using Cons.prems(1) by simp_all
    let ?l = "length (concat cs)"
    have e: "length (concat (c # cs)) + b - 1 = (?l + b - 1) + b" using l(1) Cons.prems(2) by simp
    have "(length (concat (c # cs)) + b - 1) div b = (?l + b - 1) div b + 1"
      unfolding e by (rule div_add_self2) (use Cons.prems(2) in simp)
    then show ?thesis using Cons.IH [OF l(2) Cons.prems(2)] by (simp add: chunk_count_def)
  qed
qed

definition received :: "net_event list \<Rightarrow> bytes list" where
  "received es = concat (map (\<lambda>e. case e of Arrives (Datagram a m) \<Rightarrow> [m] | _ \<Rightarrow> []) es)"

lemma received_simps [simp]:
  "received [] = []" "received (Arrives (Datagram a m) # es) = m # received es"
  "received (Quiet # es) = received es" "received (es @ es') = received es @ received es'"
  by (simp_all add: received_def)

lemma received_spaced [simp]: "received (spaced a ms) = ms"
  by (induction ms) simp_all

lemma received_to_client: "received (to_client a k) = from_server k"
  by (simp add: to_client_def from_server_def)

text \<open>C3: a transfer over a network without faults comes to its end: the client is given the child's
  datagrams, each acknowledgement before the next chunk, and the child is given the client's; then
  the client exits with status 0 after four states, the child stops by itself, has written the whole
  file, and what the client was given is exactly what the child has sent.\<close>

theorem lossless_transfer:
  assumes args: "check_args argv rate = Inr ()" and name: "0 \<notin> set (argv ! 2)"
    and k: "k = chunk_count (nat (atoi (argv ! 4))) F"
    and fits: "2 + k + nat (atoi (argv ! 3)) < 2 ^ 32"
  shows "\<exists>wc ws p ms info.
    process_file junk (4 + m) argv (demo_world (to_client a k) F) = (Inr (Some 0), wc) \<and>
    map snd (sent wc) = p # ms \<and>
    process_client junk' (4 + k + m) sock p (int (length p)) c
      (demo_world (map (\<lambda>m. Arrives (Datagram c m)) ms) []) = (Inr (Some info), ws) \<and>
    map snd (sent ws) = received (to_client a k) \<and> out_data ws = F"
proof -
  let ?ws = "atoi (argv ! 3)" and ?b = "atoi (argv ! 4)"
  have argv: "length (argv ! 2) \<le> SREJ_MAX_NAME" "0 < ?ws" "?ws < 2 ^ 31" "0 < ?b" "?b \<le> int SREJ_MAX_DATA"
    using check_args_ok [OF args] by auto
  obtain cs where cs: "blocks (nat ?b) cs" "concat cs = F" using blocks_exist [of "nat ?b" F] argv(4) by auto
  have n: "length cs = k" using blocks_count [OF cs(1)] argv(4) cs(2) k by simp
  from lossless_client [OF args cs(1), of junk m a] fits obtain wc where
    wc: "process_file junk (4 + m) argv (demo_world (to_client a k) F) = (Inr (Some 0), wc)"
      "map snd (sent wc) = from_client argv cs" unfolding n cs(2) by auto
  have len: "\<forall>d\<in>set cs. length d \<le> SREJ_MAX_DATA" using blocks_length [OF cs(1)] argv(5) by fastforce
  let ?p = "packet_bytes 1 FLAG_FILENAME (name_payload ?ws ?b (argv ! 2))"
  let ?ms = "data_packets 2 cs @ [packet_bytes (2 + word_of_nat k) FLAG_EOF [], packet_bytes (3 + word_of_nat k) FLAG_DONE []]"
  from lossless_server [OF argv(2,3,1) name refl len _ refl, where b = ?b and junk = junk' and m = m and c = c and sock = sock]
    fits obtain info ws where
    ws: "process_client junk' (4 + k + m) sock ?p (int (length ?p)) c (demo_world (map (\<lambda>m. Arrives (Datagram c m)) ?ms) []) =
      (Inr (Some info), ws)" "out_data ws = F" "sent ws = map (Pair c) (from_server k)"
    unfolding n cs(2) by blast
  have "map snd (sent wc) = ?p # ?ms" using wc(2) by (simp add: from_client_def n)
  moreover have "map snd (sent ws) = received (to_client a k)"
    using ws(3) by (simp add: comp_def received_to_client)
  ultimately show ?thesis using wc(1) ws(1,2) by (intro exI conjI)
qed

lemma lossless_transfer_witness:
  "\<exists>wc ws p ms info.
    process_file demo_junk (4 + 0) demo_argv (demo_world (to_client (1, 9) 2) [7, 8, 9]) = (Inr (Some 0), wc) \<and>
    map snd (sent wc) = p # ms \<and>
    process_client demo_junk (4 + 2 + 0) 5 p (int (length p)) (1, 1)
      (demo_world (map (\<lambda>m. Arrives (Datagram (1, 1) m)) ms) []) = (Inr (Some info), ws) \<and>
    map snd (sent ws) = received (to_client (1, 9) 2) \<and> out_data ws = [7, 8, 9]"
proof (rule lossless_transfer [OF demo_args])
  have a: "atoi [50] = 2" by (simp add: atoi_def strtol10_def digits_value_def is_digit_def is_space_def)
  show "0 \<notin> set (demo_argv ! 2)" by (simp add: demo_argv_def)
  show "2 = chunk_count (nat (atoi (demo_argv ! 4))) [7, 8, 9]" "2 + 2 + nat (atoi (demo_argv ! 3)) < 2 ^ 32"
    by (simp_all add: demo_argv_def chunk_count_def a)
qed

end
