(* ===== verification/Settings.thy ===== *)
theory Settings
  imports PacketMgr Networks CText
begin

text \<open>
  The settings manager (\<open>libcpe464/SettingsManager.cpp\<close>), which lets environment variables take
  precedence over what the program asks for, and the entry points the program calls
  (\<open>libcpe464/network-hooks.c\<close>).

  The environment is a function from names to values. \<open>strtof\<close> is a parameter: the \<open>float\<close> at the
  start of a text, if there is one.
\<close>

section \<open>The environment\<close>

type_synonym environment = "string \<Rightarrow> bytes option"

definition g_EnvKeys :: "(eEnvDataKey_t \<times> string \<times> eEnvData_t) list" where
  "g_EnvKeys =
    [(EDK_AUTOGRADER, ''CPE464_AUTOGRADER'', EDT_CHARPTR),
     (EDK_OVERRIDE_PORT, ''CPE464_OVERRIDE_PORT'', EDT_LONG),
     (EDK_OVERRIDE_DEBUG, ''CPE464_OVERRIDE_DEBUG'', EDT_LONG),
     (EDK_OVERRIDE_SEEDRAND, ''CPE464_OVERRIDE_SEEDRAND'', EDT_LONG),
     (EDK_OVERRIDE_ERR_RATE, ''CPE464_OVERRIDE_ERR_RATE'', EDT_FLOAT),
     (EDK_OVERRIDE_ERR_DROP, ''CPE464_OVERRIDE_ERR_DROP'', EDT_LIST_LONG),
     (EDK_OVERRIDE_ERR_FLIP, ''CPE464_OVERRIDE_ERR_FLIP'', EDT_LIST_LONG)]"

definition new_entry :: sEnvDataEntry_t where
  "new_entry = \<lparr>e_type = EDT_UNKNOWN, e_isSet = False, e_data = VNone, e_lLong = []\<rparr>"

text \<open>The values of a comma-separated list, up to the first that is no number, and their count.\<close>

fun parse_tokens :: "bytes list \<Rightarrow> int list \<Rightarrow> int \<Rightarrow> int list \<times> int \<times> bool" where
  "parse_tokens [] lLong count = (lLong, count, True)"
| "parse_tokens (t # ts) lLong count =
    (if strtol_converts t then parse_tokens ts (lLong @ [strtol10 t]) (count + 1)
     else (lLong, count, False))"

definition parser2ListLong :: "int list \<Rightarrow> bytes \<Rightarrow> (int list \<times> int) lib" where
  "parser2ListLong lLong str =
    (case parse_tokens (tokens 44 str) lLong 0 of
       (lLong, count, True) \<Rightarrow> ret (lLong, count)
     | (lLong, count, False) \<Rightarrow> iobind (dbg_print DBG_LEVEL_ERROR ErrorNote) (\<lambda>_. ret (lLong, count)))"

text \<open>The values that are not negative, cut to 32 bits.\<close>

definition parserLong2Uint32 :: "int list \<Rightarrow> u32 list" where
  "parserLong2Uint32 lLong = map word_of_int (filter (\<lambda>v. 0 \<le> v) lLong)"

definition sys_malloc :: "bool lib" where
  "sys_malloc l = (Inr (mallocs l = [] \<or> hd (mallocs l)), l\<lparr>mallocs := tl (mallocs l)\<rparr>)"

definition put_entry :: "eEnvDataKey_t \<Rightarrow> sEnvDataEntry_t \<Rightarrow> unit lib" where
  "put_entry key entry l = (Inr (), l\<lparr>m_EnvData := (m_EnvData l)(key := entry)\<rparr>)"

text \<open>The body of the loop of \<open>loadEnvData\<close> for a variable that is set.\<close>

definition load_entry :: "(bytes \<Rightarrow> rat option) \<Rightarrow> eEnvData_t \<Rightarrow> bytes \<Rightarrow> sEnvDataEntry_t \<Rightarrow> sEnvDataEntry_t lib" where
  "load_entry strtof ty str entry =
    (let entry = entry\<lparr>e_type := ty, e_isSet := True\<rparr> in
     case ty of
       EDT_LONG \<Rightarrow> ret (entry\<lparr>e_data := VLong (strtol10 str), e_isSet := strtol_converts str\<rparr>)
     | EDT_FLOAT \<Rightarrow>
         (case strtof str of
            Some v \<Rightarrow> ret (entry\<lparr>e_data := VFloat v\<rparr>)
          | None \<Rightarrow> ret (entry\<lparr>e_data := VFloat 0, e_isSet := False\<rparr>))
     | EDT_BOOL \<Rightarrow> ret (entry\<lparr>e_data := VBool (strtol10 str \<noteq> 0), e_isSet := strtol_converts str\<rparr>)
     | EDT_CHARPTR \<Rightarrow> iobind sys_malloc (\<lambda>ok.
         if ok then ret (entry\<lparr>e_data := VCharPtr str\<rparr>)
         else iobind (dbg_print DBG_LEVEL_ERROR ErrorNote) (\<lambda>_. ret (entry\<lparr>e_isSet := False\<rparr>)))
     | EDT_LIST_LONG \<Rightarrow> iobind (parser2ListLong (e_lLong entry) str) (\<lambda>(lLong, count).
         ret (entry\<lparr>e_lLong := lLong, e_data := VLong count, e_isSet := \<not> count < 0\<rparr>))
     | EDT_UNKNOWN \<Rightarrow> ret entry)"

definition env_entry :: "eEnvDataKey_t \<Rightarrow> sEnvDataEntry_t lib" where
  "env_entry key l = (Inr (m_EnvData l key), l)"

fun load_keys :: "(bytes \<Rightarrow> rat option) \<Rightarrow> environment \<Rightarrow> (eEnvDataKey_t \<times> string \<times> eEnvData_t) list \<Rightarrow> int lib" where
  "load_keys strtof env [] = ret 0"
| "load_keys strtof env ((key, name, ty) # ks) =
    (case env name of
       None \<Rightarrow> load_keys strtof env ks
     | Some str \<Rightarrow>
         iobind (env_entry key) (\<lambda>entry.
         iobind (load_entry strtof ty str entry) (\<lambda>entry.
         iobind (put_entry key entry) (\<lambda>_. load_keys strtof env ks))))"

definition loadEnvData :: "(bytes \<Rightarrow> rat option) \<Rightarrow> environment \<Rightarrow> int lib" where
  "loadEnvData strtof env = load_keys strtof env g_EnvKeys"

definition when_set :: "eEnvDataKey_t \<Rightarrow> (sEnvDataEntry_t \<Rightarrow> int lib) \<Rightarrow> int lib" where
  "when_set key f = iobind (env_entry key) (\<lambda>entry. if e_isSet entry then f entry else ret 0)"

definition long_of :: "sEnvDataEntry_t \<Rightarrow> int" where
  "long_of entry = (case e_data entry of VLong v \<Rightarrow> v | _ \<Rightarrow> 0)"

definition float_of :: "sEnvDataEntry_t \<Rightarrow> rat" where
  "float_of entry = (case e_data entry of VFloat v \<Rightarrow> v | _ \<Rightarrow> 0)"

text \<open>These two only print a warning, whatever is set.\<close>

definition loadEnvData_Autograder :: "int lib" where
  "loadEnvData_Autograder = when_set EDK_AUTOGRADER (\<lambda>entry. ret 0)"

definition loadEnvData_Port :: "int lib" where
  "loadEnvData_Port = when_set EDK_OVERRIDE_PORT (\<lambda>entry. ret 0)"

text \<open>A \<open>long\<close> passed where an \<open>int\<close> is expected keeps its low 32 bits.\<close>

definition int_of_long :: "int \<Rightarrow> int" where
  "int_of_long v = sint (word_of_int v :: u32)"

definition loadEnvData_Debug :: "int lib" where
  "loadEnvData_Debug = when_set EDK_OVERRIDE_DEBUG (\<lambda>entry.
    iobind (dbg_setlevel (int_of_long (long_of entry))) (\<lambda>_. ret 0))"

definition loadEnvData_SeedRand :: "int lib" where
  "loadEnvData_SeedRand = when_set EDK_OVERRIDE_SEEDRAND (\<lambda>entry.
    iobind (setRandSeed (long_of entry)) (\<lambda>_. ret 0))"

definition loadEnvData_ErrRate :: "int lib" where
  "loadEnvData_ErrRate = when_set EDK_OVERRIDE_ERR_RATE (\<lambda>entry.
    iobind (setErrorRate (float_of entry)) (\<lambda>_. ret 0))"

definition loadEnvData_ErrDrop :: "int lib" where
  "loadEnvData_ErrDrop = when_set EDK_OVERRIDE_ERR_DROP (\<lambda>entry.
    let lUint32 = parserLong2Uint32 (e_lLong entry) in
    iobind (if length lUint32 = 0 then addMsgEvent_Random (Some new_errorDrop)
            else addMsgEvent_Standard (Some (setDropSpecific lUint32 new_errorDrop)))
      (\<lambda>_. ret 0))"

definition loadEnvData_ErrFlip :: "int lib" where
  "loadEnvData_ErrFlip = when_set EDK_OVERRIDE_ERR_FLIP (\<lambda>entry.
    let lUint32 = parserLong2Uint32 (e_lLong entry) in
    if length lUint32 = 0 then iobind (addMsgEvent_Random (Some ErrorFlipBits)) (\<lambda>_. ret 0)
    else ret (- 1))"

text \<open>The constructor of the settings manager.\<close>

definition new_SettingsManager :: "(bytes \<Rightarrow> rat option) \<Rightarrow> environment \<Rightarrow> unit lib" where
  "new_SettingsManager strtof env =
    iobind (dbg_setlevel 0) (\<lambda>_.
    iobind (loadEnvData strtof env) (\<lambda>_.
    iobind loadEnvData_Port (\<lambda>_.
    iobind loadEnvData_Autograder (\<lambda>_.
    iobind loadEnvData_Debug (\<lambda>_.
    iobind loadEnvData_SeedRand (\<lambda>_.
    iobind loadEnvData_ErrRate (\<lambda>_.
    iobind loadEnvData_ErrDrop (\<lambda>_.
    iobind loadEnvData_ErrFlip (\<lambda>_. ret ())))))))))"

text \<open>The library as it is before \<open>main\<close>: the constructor of the packet manager seeds the generator
  with the time, then the settings are loaded. What lies below the library is given by \<open>l\<close>.\<close>

definition new_PacketManager :: "int \<Rightarrow> unit lib" where
  "new_PacketManager now = iobind (srand48 now) (\<lambda>_ l. (Inr (), l\<lparr>m_ErrorRate := 0, m_MsgNo := 0,
    m_ErrorCase_Constant := [], m_ErrorCase_Chance := []\<rparr>))"

definition library_loaded :: "(bytes \<Rightarrow> rat option) \<Rightarrow> environment \<Rightarrow> int \<Rightarrow> unit lib" where
  "library_loaded strtof env now = (\<lambda>l.
    iobind (new_PacketManager now) (\<lambda>_. new_SettingsManager strtof env)
      (l\<lparr>m_EnvData := \<lambda>_. new_entry, socketType := 0, nextSeed := 10, childProcess := False,
        s_hasOverridden := False, g_dbg_print_level := 3\<rparr>))"

section \<open>What the program asks for\<close>

definition unless_set :: "eEnvDataKey_t \<Rightarrow> int lib \<Rightarrow> int lib" where
  "unless_set key f = iobind (env_entry key) (\<lambda>entry. if e_isSet entry then ret (- 1) else f)"

definition setUserMode_Debug :: "int \<Rightarrow> int lib" where
  "setUserMode_Debug debugLevel =
    unless_set EDK_OVERRIDE_DEBUG (iobind (dbg_setlevel debugLevel) (\<lambda>_. ret 0))"

definition setUserMode_SeedRand :: "int \<Rightarrow> int lib" where
  "setUserMode_SeedRand seedValue = unless_set EDK_OVERRIDE_SEEDRAND (setRandSeed seedValue)"

definition setUserMode_ErrRate :: "rat \<Rightarrow> int lib" where
  "setUserMode_ErrRate rate = unless_set EDK_OVERRIDE_ERR_RATE (setErrorRate rate)"

definition setUserMode_ErrDrop :: "bool \<Rightarrow> int lib" where
  "setUserMode_ErrDrop isEnabled = unless_set EDK_OVERRIDE_ERR_DROP
    (if isEnabled then addMsgEvent_Random (Some new_errorDrop) else ret 0)"

definition setUserMode_ErrFlip :: "bool \<Rightarrow> int lib" where
  "setUserMode_ErrFlip isEnabled = unless_set EDK_OVERRIDE_ERR_FLIP
    (if isEnabled then addMsgEvent_Random (Some ErrorFlipBits) else ret 0)"

section \<open>The hooks\<close>

definition put_nextSeed :: "int \<Rightarrow> unit lib" where
  "put_nextSeed v l = (Inr (), l\<lparr>nextSeed := v\<rparr>)"

definition get_nextSeed :: "int lib" where
  "get_nextSeed l = (Inr (nextSeed l), l)"

text \<open>Adding one to an \<open>int\<close> is undefined at its largest value.\<close>

definition int_inc :: "int \<Rightarrow> int res" where
  "int_inc v = (if v = 2 ^ 31 - 1 then Inl Trap else Inr (v + 1))"

text \<open>\<open>fork\<close> is answered by \<open>pid\<close>: 0 in the child, the child's number in the parent, or -1.\<close>

definition forkMod :: "int \<Rightarrow> int lib" where
  "forkMod pid =
    iobind get_nextSeed (\<lambda>tempNextSeed.
    iobind (lift_res (int_inc tempNextSeed)) (\<lambda>s.
    iobind (put_nextSeed s) (\<lambda>_.
      if pid = 0 then
        iobind (setUserMode_SeedRand tempNextSeed) (\<lambda>_ l. (Inr pid, l\<lparr>childProcess := True\<rparr>))
      else ret pid)))"

definition socketMod :: "int \<Rightarrow> int \<Rightarrow> int lib" where
  "socketMod s type l = (Inr s, l\<lparr>socketType := type\<rparr>)"

text \<open>
  The port of the address \<open>bind\<close> is given, in network order. Both branches of the code write
  the field at the same place (\<open>sin_port\<close> and \<open>sin6_port\<close>), so the test of \<open>socketType\<close>
  does not matter; \<open>htons\<close> cuts the port to 16 bits.
\<close>

definition override_port :: "environment \<Rightarrow> u16 \<Rightarrow> u16 lib" where
  "override_port env port l =
    (case env ''CPE464_OVERRIDE_PORT'' of
       Some str \<Rightarrow>
         if s_hasOverridden l then (Inr port, l)
         else
           let port = int_of_long (strtol10 str) in
           iobind (dbg_print DBG_LEVEL_WARN (PortOverrideNote port)) (\<lambda>_. ret (htons (word_of_int port)))
             (l\<lparr>s_hasOverridden := True\<rparr>)
     | None \<Rightarrow> (Inr port, l))"

text \<open>
  \<open>getsockname\<close> writes at most as many bytes of the socket's name as its length argument says,
  and the code never sets that argument: \<open>name_len\<close> and \<open>stale\<close> are what the stack holds for
  the length and for the port field, \<open>named\<close> is the port of the socket. The port is bytes 2 and 3.
\<close>

definition reported_port :: "u16 \<Rightarrow> u16 \<Rightarrow> u32 \<Rightarrow> int" where
  "reported_port named stale name_len =
    (let b = le_bytes16 named; c = le_bytes16 stale; k = unat name_len;
       lo = (if 2 < k \<and> name_len < 2 ^ 31 then b ! 0 else c ! 0);
       hi = (if 3 < k \<and> name_len < 2 ^ 31 then b ! 1 else c ! 1) in
     int (unat (ntohs (le16 lo hi))))"

text \<open>\<open>answer\<close> is the result of the system's \<open>bind\<close>.\<close>

definition bindMod :: "environment \<Rightarrow> u16 \<Rightarrow> int \<Rightarrow> u16 \<Rightarrow> u16 \<Rightarrow> u32 \<Rightarrow> int lib" where
  "bindMod env port answer named stale name_len =
    iobind (override_port env port) (\<lambda>port.
    iobind (\<lambda>l. (Inr answer, l\<lparr>bound_ports := bound_ports l @ [port]\<rparr>)) (\<lambda>nResult.
    iobind (dbg_print DBG_LEVEL_DEBUG (PortNote (reported_port named stale name_len))) (\<lambda>_.
    ret nResult)))"

text \<open>\<open>now\<close> and \<open>later\<close> are what the two calls of \<open>time (NULL)\<close> return; the rate is cut from \<open>double\<close> to \<open>float\<close>.\<close>

definition sendErr_init :: "rat \<Rightarrow> int \<Rightarrow> int \<Rightarrow> int \<Rightarrow> int \<Rightarrow> int \<Rightarrow> int \<Rightarrow> int lib" where
  "sendErr_init error_rate drop_flag flip_flag debug_flag random_flag now later =
    iobind (addMsgEvent_Standard (Some new_infoSeqNo)) (\<lambda>_.
    iobind (setUserMode_ErrRate (float_of_double error_rate)) (\<lambda>_.
    iobind (setUserMode_ErrDrop (drop_flag \<noteq> 0)) (\<lambda>_.
    iobind (setUserMode_ErrFlip (flip_flag \<noteq> 0)) (\<lambda>_.
    iobind get_nextSeed (\<lambda>seed.
    iobind (setUserMode_SeedRand (if random_flag \<noteq> 0 then now else seed)) (\<lambda>_.
    iobind (if random_flag \<noteq> 0 then ret (int_of_long later) else lift_res (int_inc seed)) (\<lambda>seed.
    iobind (put_nextSeed seed) (\<lambda>_.
    iobind (setUserMode_Debug debug_flag) (\<lambda>_. ret 0)))))))))"

text \<open>A length given as \<open>int\<close> becomes a \<open>size_t\<close>: a negative one is longer than any array.\<close>

definition sendErr :: "bytes option \<Rightarrow> int \<Rightarrow> int lib" where
  "sendErr msg len = send_Err msg (len mod 2 ^ 64)"

definition recvErr :: "bytes \<Rightarrow> int \<Rightarrow> (bytes \<times> int) lib" where
  "recvErr buf len = recv_Mod buf len"

definition sendtoErr :: "bytes option \<Rightarrow> int \<Rightarrow> addr option \<Rightarrow> int lib" where
  "sendtoErr msg len to = sendto_Err msg (len mod 2 ^ 64) to"

definition recvfromErr :: "bytes \<Rightarrow> int \<Rightarrow> (bytes \<times> int) lib" where
  "recvfromErr buf len = recvfrom_Mod buf len"

end
