(* ===== verification/ErrLib_Correct.thy ===== *)
theory ErrLib_Correct
  imports PacketMgr_Correct Settings
begin

text \<open>
  Properties of the error library as a whole: what its configuration does to the messages, the
  precedence of the environment, and what it prints of a received datagram.
\<close>

section \<open>Rounding\<close>

lemma round_to_le:
  assumes "n \<le> M" and "2 ^ max (bitlen n - p) k dvd M"
  shows "round_to k p n \<le> M"
proof -
  define d :: nat where "d = 2 ^ max (bitlen n - p) k"
  define q r where "q = n div d" and "r = n mod d"
  have d0: "0 < d" by (simp add: d_def)
  then have "r < d" unfolding r_def by (rule mod_less_divisor)
  moreover have "n = q * d + r" unfolding q_def r_def by (rule div_mult_mod_eq [symmetric])
  ultimately have n: "q * d + r = n" "r < d" by simp_all
  have e: "round_to k p n = (if 2 * r > d \<or> (2 * r = d \<and> odd q) then (q + 1) * d else q * d)"
    by (simp add: round_to_def Let_def d_def q_def r_def)
  from assms(2) obtain c where c: "M = d * c" unfolding d_def [symmetric] by (elim dvdE)
  show ?thesis
  proof (cases "r = 0")
    case True
    with e n d0 assms(1) show ?thesis by simp
  next
    case False
    with n(1) c assms(1) have "q * d < d * c" by linarith
    then have "q * d < c * d" by (simp only: mult.commute)
    then have "q + 1 \<le> c" by simp
    then have "(q + 1) * d \<le> c * d" by (rule mult_le_mono1)
    moreover from this have "q * d + d \<le> c * d" by simp
    then have "q * d \<le> c * d" by (rule add_leD1)
    ultimately have "round_to k p n \<le> c * d"
      unfolding e by (cases "2 * r > d \<or> (2 * r = d \<and> odd q)") (simp_all only: if_True if_False)
    then show ?thesis unfolding c by (simp only: mult.commute)
  qed
qed

lemma round_to_multiple:
  assumes "2 ^ max (bitlen n - p) k dvd n"
  shows "round_to k p n = n"
  using assms by (simp add: round_to_def Let_def)

lemma bitlen_power: "bitlen (2 ^ k) = Suc k"
proof (induction k)
  case 0
  then show ?case by (simp add: bitlen.simps [of "Suc 0"])
next
  case (Suc k)
  then show ?case by (simp add: bitlen.simps [of "2 * 2 ^ k"])
qed

lemma float_of_double_1: "float_of_double 1 = 1"
proof -
  have "bitlen (2 ^ 1074) = 1075" using bitlen_power [of 1074] by simp
  then have "(2 :: nat) ^ max (bitlen (2 ^ 1074) - 24) 925 dvd 2 ^ 1074" by (simp only:) (intro le_imp_power_dvd, simp)
  then have "round_to 925 24 (2 ^ 1074) = 2 ^ 1074" by (rule round_to_multiple)
  moreover have "nat \<lfloor>\<bar>1 :: rat\<bar> * 2 ^ 1074\<rfloor> = 2 ^ 1074"
  proof -
    have "\<bar>1 :: rat\<bar> * 2 ^ 1074 = of_int (2 ^ 1074)" by simp
    then have "\<lfloor>\<bar>1 :: rat\<bar> * 2 ^ 1074\<rfloor> = 2 ^ 1074" by (simp only: floor_of_int)
    then show ?thesis by (simp only: nat_power_eq) simp
  qed
  ultimately have "float_of_double 1 = of_nat (2 ^ 1074) / 2 ^ 1074"
    unfolding float_of_double_def Let_def by (simp only:) simp
  then show ?thesis by simp
qed

text \<open>At an error rate of 1 every message gets its random event.\<close>

lemma error_due_1:
  assumes "1 \<le> m_ErrorRate l" and "m_ErrorCase_Chance l \<noteq> []" and "x < 2 ^ 48"
  shows "error_due x l"
proof -
  have "bitlen x \<le> 48" by (rule bitlen_le [OF assms(3)])
  then have "(2 :: nat) ^ max (bitlen x - 24) 0 dvd 2 ^ 48" by (intro le_imp_power_dvd) simp
  then have "round_float x \<le> 2 ^ 48" using assms(3) by (intro round_to_le) simp_all
  then have "(of_nat (round_float x) :: rat) \<le> of_nat (2 ^ 48)" by (simp only: of_nat_le_iff)
  then have "of_nat (round_float x) / 2 ^ 48 \<le> (1 :: rat)" by simp
  with assms(1,2) show ?thesis by (auto simp: error_due_def)
qed

lemma chosen_in: "m_ErrorCase_Chance l \<noteq> [] \<Longrightarrow> chosen x l \<in> set (m_ErrorCase_Chance l)"
  using scaled_less [OF _ drand_next_less, of "length (m_ErrorCase_Chance l)" x] by (simp add: chosen_def)


section \<open>Configuration\<close>

lemma unless_set_overridden: "e_isSet (m_EnvData l key) \<Longrightarrow> unless_set key f l = (Inr (- 1), l)"
  by (simp add: unless_set_def env_entry_def iobind_def)

lemma unless_set_free: "\<not> e_isSet (m_EnvData l key) \<Longrightarrow> unless_set key f l = f l"
  by (simp add: unless_set_def env_entry_def iobind_def)

lemmas user_mode_defs = setUserMode_ErrRate_def setUserMode_ErrDrop_def setUserMode_ErrFlip_def
  setUserMode_SeedRand_def setUserMode_Debug_def

lemmas library_defs = setErrorRate_def setRandSeed_def srand48_def addMsgEvent_Random_def
  addMsgEvent_Standard_def dbg_setlevel_def

text \<open>What loading the environment leaves alone.\<close>

definition env_frame :: "errlib \<Rightarrow> errlib \<Rightarrow> bool" where
  "env_frame l l' \<longleftrightarrow> m_ErrorCase_Constant l' = m_ErrorCase_Constant l \<and>
    m_ErrorCase_Chance l' = m_ErrorCase_Chance l \<and> rand_state l' = rand_state l \<and>
    m_MsgNo l' = m_MsgNo l \<and> nextSeed l' = nextSeed l \<and> wire l' = wire l"

lemma post_load_entry: "post (load_entry strtof ty str entry) l (\<lambda>_ l'. env_frame l l') (\<lambda>_. False)"
  by (cases ty)
    (auto simp: load_entry_def parser2ListLong_def sys_malloc_def dbg_print_def Let_def post_def iobind_def
      env_frame_def split: option.splits prod.splits bool.splits)

lemma env_frame_trans: "env_frame l k \<Longrightarrow> env_frame k j \<Longrightarrow> env_frame l j"
  by (simp add: env_frame_def)

lemma post_load_keys: "post (load_keys strtof env ks) l (\<lambda>_ l'. env_frame l l') (\<lambda>_. False)"
proof (induction ks arbitrary: l)
  case Nil
  then show ?case by (simp add: env_frame_def)
next
  case (Cons k ks)
  obtain key name ty where k: "k = (key, name, ty)" by (cases k)
  show ?case
  proof (cases "env name")
    case None
    with Cons k show ?thesis by simp
  next
    case (Some str)
    have "post (iobind (load_entry strtof ty str (m_EnvData l key)) (\<lambda>entry.
        iobind (put_entry key entry) (\<lambda>_. load_keys strtof env ks))) l (\<lambda>_ l'. env_frame l l') (\<lambda>_. False)"
    proof (rule post_seq [OF post_load_entry])
      fix e j
      assume j: "env_frame l j"
      let ?j = "j\<lparr>m_EnvData := (m_EnvData j)(key := e)\<rparr>"
      have "env_frame l ?j" using j by (simp add: env_frame_def)
      then have "post (load_keys strtof env ks) ?j (\<lambda>_ l'. env_frame l l') (\<lambda>_. False)"
        by (intro post_mono [OF Cons.IH]) (use env_frame_trans in auto)
      then show "post (iobind (put_entry key e) (\<lambda>_. load_keys strtof env ks)) j (\<lambda>_ l'. env_frame l l') (\<lambda>_. False)"
        by (simp add: post_def iobind_def put_entry_def)
    qed
    moreover have "load_keys strtof env (k # ks) l =
      iobind (load_entry strtof ty str (m_EnvData l key)) (\<lambda>entry.
        iobind (put_entry key entry) (\<lambda>_. load_keys strtof env ks)) l"
      by (simp add: k Some iobind_def [of "env_entry _"] env_entry_def)
    ultimately show ?thesis by (simp only: post_def)
  qed
qed

text \<open>With \<open>n\<close> random events at most. No setting registers a flip as a standard event.\<close>

definition lib_fit :: "nat \<Rightarrow> errlib \<Rightarrow> bool" where
  "lib_fit n l \<longleftrightarrow> lib_ok l \<and> length (m_ErrorCase_Chance l) \<le> n"

lemma lib_fit_mono: "lib_fit n l \<Longrightarrow> n \<le> k \<Longrightarrow> lib_fit k l"
  by (simp add: lib_fit_def)

definition keeps_fit :: "nat \<Rightarrow> 'a lib \<Rightarrow> bool" where
  "keeps_fit i f \<longleftrightarrow> (\<forall>n l. lib_fit n l \<longrightarrow> n + i < 2 ^ 24 \<longrightarrow>
    post f l (\<lambda>_ l'. lib_fit (n + i) l' \<and> nextSeed l' = nextSeed l) (\<lambda>_. False))"

lemma keeps_fitD:
  "keeps_fit i f \<Longrightarrow> lib_fit n l \<Longrightarrow> n + i < 2 ^ 24 \<Longrightarrow>
    post f l (\<lambda>_ l'. lib_fit (n + i) l' \<and> nextSeed l' = nextSeed l) (\<lambda>_. False)"
  unfolding keeps_fit_def by blast

lemma keeps_fitI:
  "(\<And>n l. lib_fit n l \<Longrightarrow> n + i < 2 ^ 24 \<Longrightarrow>
    post f l (\<lambda>_ l'. lib_fit (n + i) l' \<and> nextSeed l' = nextSeed l) (\<lambda>_. False)) \<Longrightarrow> keeps_fit i f"
  unfolding keeps_fit_def by blast

lemma keeps_fit_bind:
  assumes "keeps_fit i f" and "\<And>x. keeps_fit j (g x)"
  shows "keeps_fit (i + j) (iobind f g)"
proof (rule keeps_fitI)
  fix n l
  assume a: "lib_fit n l" "n + (i + j) < 2 ^ 24"
  show "post (iobind f g) l (\<lambda>_ l'. lib_fit (n + (i + j)) l' \<and> nextSeed l' = nextSeed l) (\<lambda>_. False)"
  proof (rule post_seq [OF keeps_fitD [OF assms(1) a(1)]])
    fix x k
    assume "lib_fit (n + i) k \<and> nextSeed k = nextSeed l"
    then show "post (g x) k (\<lambda>_ l'. lib_fit (n + (i + j)) l' \<and> nextSeed l' = nextSeed l) (\<lambda>_. False)"
      using keeps_fitD [OF assms(2), of "n + i" k] a(2) by (simp add: add.assoc)
  qed (use a(2) in simp)
qed

lemma keeps_fit_ret [simp]: "keeps_fit 0 (ret x)"
  by (simp add: keeps_fit_def)

lemma keeps_fit_then: "keeps_fit i f \<Longrightarrow> keeps_fit i (iobind f (\<lambda>_. ret x))"
  using keeps_fit_bind [of i f 0 "\<lambda>_. ret x"] by simp

lemma keeps_fit_mono: "keeps_fit i f \<Longrightarrow> i \<le> j \<Longrightarrow> keeps_fit j f"
proof (rule keeps_fitI)
  fix n l
  assume a: "keeps_fit i f" "i \<le> j" "lib_fit n l" "n + j < 2 ^ 24"
  show "post f l (\<lambda>_ l'. lib_fit (n + j) l' \<and> nextSeed l' = nextSeed l) (\<lambda>_. False)"
    by (rule post_mono [OF keeps_fitD [OF a(1,3)]]) (use a(2,4) lib_fit_mono in auto)
qed

lemma srand48_less: "nat (s mod 2 ^ 32) * 2 ^ 16 + 0x330E < 2 ^ 48"
proof -
  have "s mod 2 ^ 32 < 2 ^ 32" "0 \<le> s mod 2 ^ 32" by simp_all
  then have "nat (s mod 2 ^ 32) < 2 ^ 32" by (simp add: nat_less_iff)
  then show ?thesis by simp
qed

lemma keeps_fit_simple:
  "keeps_fit 0 (setErrorRate r)" "keeps_fit 0 (setRandSeed s)" "keeps_fit 0 (dbg_setlevel d)"
  "keeps_fit 0 (addMsgEvent_Standard (Some (ErrorDrop a xs)))" "keeps_fit 0 (addMsgEvent_Standard (Some (InfoSeqNo c h)))"
  "keeps_fit 1 (addMsgEvent_Random ev)"
  using srand48_less
  by (auto simp: keeps_fit_def library_defs post_def iobind_def lib_fit_def lib_ok_def flips_def split: option.splits)

lemma keeps_fit_unless: "keeps_fit i f \<Longrightarrow> keeps_fit i (unless_set key f)"
  by (rule keeps_fitI, drule keeps_fitD)
    (auto simp: unless_set_def env_entry_def post_def iobind_def intro: lib_fit_mono)

lemma keeps_fit_when:
  assumes "\<And>e. keeps_fit i (f e)"
  shows "keeps_fit i (when_set key f)"
proof (rule keeps_fitI)
  fix n l
  assume a: "lib_fit n l" "n + i < 2 ^ 24"
  show "post (when_set key f) l (\<lambda>_ l'. lib_fit (n + i) l' \<and> nextSeed l' = nextSeed l) (\<lambda>_. False)"
    using keeps_fitD [OF assms a] lib_fit_mono [OF a(1)]
    by (simp add: when_set_def env_entry_def post_def iobind_def)
qed

lemma keeps_fit_loadEnvData: "keeps_fit 0 (loadEnvData strtof env)"
  unfolding loadEnvData_def
  by (rule keeps_fitI, rule post_mono [OF post_load_keys])
    (auto simp: env_frame_def lib_fit_def lib_ok_def)

lemmas keeps_fit_rules = keeps_fit_bind [where i = 0 and j = 0, simplified] keeps_fit_simple keeps_fit_ret
  keeps_fit_when keeps_fit_unless

lemma keeps_fit_settings: "keeps_fit 2 (new_SettingsManager strtof env)"
proof -
  have r: "keeps_fit 0 (loadEnvData_Port)" "keeps_fit 0 loadEnvData_Autograder" "keeps_fit 0 loadEnvData_Debug"
    "keeps_fit 0 loadEnvData_SeedRand" "keeps_fit 0 loadEnvData_ErrRate"
    unfolding loadEnvData_Port_def loadEnvData_Autograder_def loadEnvData_Debug_def loadEnvData_SeedRand_def
      loadEnvData_ErrRate_def by (intro keeps_fit_rules)+
  have i: "keeps_fit 1 (if b then addMsgEvent_Random (Some new_errorDrop)
      else addMsgEvent_Standard (Some (setDropSpecific xs new_errorDrop)))" for b xs
    using keeps_fit_simple(6) keeps_fit_mono [OF keeps_fit_simple(4)]
    by (simp add: new_errorDrop_def setDropSpecific_def)
  have "keeps_fit 1 (iobind (if b then addMsgEvent_Random (Some new_errorDrop)
      else addMsgEvent_Standard (Some (setDropSpecific xs new_errorDrop))) (\<lambda>_. ret x))" for b xs and x :: int
    by (rule keeps_fit_then [OF i])
  then have d: "keeps_fit 1 loadEnvData_ErrDrop"
    unfolding loadEnvData_ErrDrop_def Let_def by (intro keeps_fit_when)
  have f: "keeps_fit 1 loadEnvData_ErrFlip"
    unfolding loadEnvData_ErrFlip_def Let_def
    by (intro keeps_fit_when)
      (simp add: keeps_fit_then [OF keeps_fit_simple(6), simplified] keeps_fit_mono [OF keeps_fit_ret, of "Suc 0"])
  have "keeps_fit 2 (iobind loadEnvData_ErrDrop (\<lambda>_. iobind loadEnvData_ErrFlip (\<lambda>_. ret ())))"
    using keeps_fit_bind [OF d keeps_fit_then [OF f, of "()"]] by (simp add: numeral_2_eq_2)
  then have "keeps_fit (0 + (0 + (0 + (0 + (0 + (0 + (0 + 2))))))) (new_SettingsManager strtof env)"
    unfolding new_SettingsManager_def
    by (intro keeps_fit_bind r keeps_fit_loadEnvData keeps_fit_simple) simp
  then show ?thesis by (simp add: numeral_2_eq_2)
qed

lemma keeps_fit_user:
  "keeps_fit 0 (setUserMode_ErrRate r)" "keeps_fit 0 (setUserMode_SeedRand s)" "keeps_fit 0 (setUserMode_Debug d)"
  "keeps_fit 1 (setUserMode_ErrDrop b)" "keeps_fit 1 (setUserMode_ErrFlip b)"
  unfolding user_mode_defs
  using keeps_fit_mono [OF keeps_fit_ret, of 1]
  by (auto intro!: keeps_fit_unless keeps_fit_simple keeps_fit_simple(6) [simplified] keeps_fit_rules)


text \<open>Loading the library and then \<open>sendErr_init\<close>.\<close>

lemma keeps_fit_init_events:
  "keeps_fit 2 (iobind (addMsgEvent_Standard (Some new_infoSeqNo)) (\<lambda>_.
    iobind (setUserMode_ErrRate rate) (\<lambda>_. iobind (setUserMode_ErrDrop d) (\<lambda>_. setUserMode_ErrFlip f))))"
proof -
  have "keeps_fit (0 + (0 + (1 + 1))) (iobind (addMsgEvent_Standard (Some new_infoSeqNo)) (\<lambda>_.
    iobind (setUserMode_ErrRate rate) (\<lambda>_. iobind (setUserMode_ErrDrop d) (\<lambda>_. setUserMode_ErrFlip f))))"
    unfolding new_infoSeqNo_def by (intro keeps_fit_bind keeps_fit_simple keeps_fit_user)
  then show ?thesis by (simp add: numeral_2_eq_2)
qed

lemma post_init_seed:
  assumes "lib_fit n l" and "n < 2 ^ 24" and "nextSeed l < 2 ^ 31 - 1"
  shows "post (iobind get_nextSeed (\<lambda>seed.
    iobind (setUserMode_SeedRand (if random_flag \<noteq> 0 then now else seed)) (\<lambda>_.
    iobind (if random_flag \<noteq> 0 then ret (int_of_long later) else lift_res (int_inc seed)) (\<lambda>seed.
    iobind (put_nextSeed seed) (\<lambda>_.
    iobind (setUserMode_Debug debug_flag) (\<lambda>_. ret (0 :: int))))))) l (\<lambda>_ l'. lib_fit n l') (\<lambda>_. False)"
proof -
  let ?s = "if random_flag \<noteq> 0 then now else nextSeed l"
  let ?f = "\<lambda>seed. iobind (if random_flag \<noteq> 0 then ret (int_of_long later) else lift_res (int_inc (nextSeed l))) (\<lambda>seed.
    iobind (put_nextSeed seed) (\<lambda>_. iobind (setUserMode_Debug debug_flag) (\<lambda>_. ret (0 :: int))))"
  have "post (iobind (setUserMode_SeedRand ?s) ?f) l (\<lambda>_ l'. lib_fit n l') (\<lambda>_. False)"
  proof (rule post_seq [OF keeps_fitD [OF keeps_fit_user(2) assms(1)]])
    fix x :: int and k
    assume k: "lib_fit (n + 0) k \<and> nextSeed k = nextSeed l"
    have "post (iobind (setUserMode_Debug debug_flag) (\<lambda>_. ret (0 :: int))) (k\<lparr>nextSeed := v\<rparr>)
      (\<lambda>_ l'. lib_fit n l') (\<lambda>_. False)" for v
    proof -
      have "lib_fit n (k\<lparr>nextSeed := v\<rparr>)" using k by (simp add: lib_fit_def lib_ok_def)
      show ?thesis
        by (rule post_mono [OF keeps_fitD [OF keeps_fit_then [OF keeps_fit_user(3)] \<open>lib_fit n (k\<lparr>nextSeed := v\<rparr>)\<close>]])
          (use assms(2) in simp_all)
    qed
    with assms(3) show "post (?f x) k (\<lambda>_ l'. lib_fit n l') (\<lambda>_. False)"
      by (simp add: int_inc_def iobind_eqs iobind_def [of "put_nextSeed _"] put_nextSeed_def post_def)
  qed (use assms(2) in simp)
  then show ?thesis by (rule post_same [rotated]) (simp add: iobind_def [of get_nextSeed] get_nextSeed_def)
qed


lemma post_library_loaded:
  "post (library_loaded strtof env now) l (\<lambda>_ l'. lib_fit 2 l' \<and> nextSeed l' = 10) (\<lambda>_. False)"
proof -
  let ?l = "l\<lparr>m_EnvData := \<lambda>_. new_entry, socketType := 0, nextSeed := 10, childProcess := False,
    s_hasOverridden := False, g_dbg_print_level := 3, rand_state := nat (now mod 2 ^ 32) * 2 ^ 16 + 0x330E,
    m_ErrorRate := 0, m_MsgNo := 0, m_ErrorCase_Constant := [], m_ErrorCase_Chance := []\<rparr>"
  have fit: "lib_fit 0 ?l" using srand48_less [of now] by (simp add: lib_fit_def lib_ok_def)
  have "post (new_SettingsManager strtof env) ?l (\<lambda>_ l'. lib_fit 2 l' \<and> nextSeed l' = 10) (\<lambda>_. False)"
    by (rule post_mono [OF keeps_fitD [OF keeps_fit_settings fit]]) (simp, simp add: numeral_2_eq_2, simp)
  then show ?thesis
    by (rule post_same [rotated])
      (simp add: library_loaded_def new_PacketManager_def iobind_def [of "iobind _ _"] iobind_def srand48_def)
qed

lemma post_sendErr_init:
  assumes "lib_fit n l" and "n + 2 < 2 ^ 24" and "nextSeed l < 2 ^ 31 - 1"
  shows "post (sendErr_init rate drop_flag flip_flag debug_flag random_flag now later) l
    (\<lambda>_ l'. lib_fit (n + 2) l') (\<lambda>_. False)"
proof -
  let ?seeds = "iobind get_nextSeed (\<lambda>seed.
    iobind (setUserMode_SeedRand (if random_flag \<noteq> 0 then now else seed)) (\<lambda>_.
    iobind (if random_flag \<noteq> 0 then ret (int_of_long later) else lift_res (int_inc seed)) (\<lambda>seed.
    iobind (put_nextSeed seed) (\<lambda>_.
    iobind (setUserMode_Debug debug_flag) (\<lambda>_. ret (0 :: int))))))"
  have "post (iobind (iobind (addMsgEvent_Standard (Some new_infoSeqNo)) (\<lambda>_.
      iobind (setUserMode_ErrRate (float_of_double rate)) (\<lambda>_.
      iobind (setUserMode_ErrDrop (drop_flag \<noteq> 0)) (\<lambda>_. setUserMode_ErrFlip (flip_flag \<noteq> 0))))) (\<lambda>_. ?seeds)) l
    (\<lambda>_ l'. lib_fit (n + 2) l') (\<lambda>_. False)"
    by (rule post_seq [OF keeps_fitD [OF keeps_fit_init_events assms(1,2)]], rule post_init_seed)
      (use assms in auto)
  then show ?thesis unfolding sendErr_init_def by (simp only: post_iobind)
qed


section \<open>Properties\<close>

text \<open>A library for the concrete cases: an error rate of 1, both random events, an initial state
  of the generator of 1.\<close>

definition demo_lib :: errlib where
  "demo_lib = \<lparr>m_ErrorRate = 1, m_MsgNo = 0, m_ErrorCase_Constant = [new_infoSeqNo],
    m_ErrorCase_Chance = [ErrorFlipBits], m_EnvData = \<lambda>_. new_entry, socketType = 0,
    nextSeed = 10, childProcess = False, s_hasOverridden = False, g_dbg_print_level = 1, console = [],
    rand_state = 1, wire = [], tx = [], rx = [], mallocs = [], bound_ports = []\<rparr>"

lemma demo_lib_ok: "lib_ok demo_lib"
  by (simp add: demo_lib_def lib_ok_def new_infoSeqNo_def flips_def)

text \<open>The byte that \<open>errorFlipBits\<close> inverts is inside the datagram, for every state of the
  generator and every length, in spite of the rounding of the product of the length, as a
  \<open>double\<close>, with the random number.\<close>

theorem flip_in_bounds:
  assumes "0 < n" and "x < 2 ^ 48"
  shows "scaled n x < n"
  using assms by (rule scaled_less)

lemma flip_in_bounds_witness: "scaled 1407 (2 ^ 48 - 1) < 1407"
  by (rule flip_in_bounds) simp_all


text \<open>A setting made by an environment variable wins: each of the \<open>setUserMode\<close> functions
  then returns -1 and changes nothing.\<close>

theorem environment_wins:
  "(e_isSet (m_EnvData l EDK_OVERRIDE_ERR_RATE) \<longrightarrow> setUserMode_ErrRate rate l = (Inr (- 1), l)) \<and>
   (e_isSet (m_EnvData l EDK_OVERRIDE_ERR_DROP) \<longrightarrow> setUserMode_ErrDrop enabled l = (Inr (- 1), l)) \<and>
   (e_isSet (m_EnvData l EDK_OVERRIDE_ERR_FLIP) \<longrightarrow> setUserMode_ErrFlip enabled l = (Inr (- 1), l)) \<and>
   (e_isSet (m_EnvData l EDK_OVERRIDE_SEEDRAND) \<longrightarrow> setUserMode_SeedRand seed l = (Inr (- 1), l)) \<and>
   (e_isSet (m_EnvData l EDK_OVERRIDE_DEBUG) \<longrightarrow> setUserMode_Debug level l = (Inr (- 1), l))"
  by (simp add: user_mode_defs unless_set_overridden)

lemma environment_wins_witness:
  "let l = demo_lib\<lparr>m_EnvData := \<lambda>_. new_entry\<lparr>e_isSet := True\<rparr>\<rparr> in
   setUserMode_ErrRate 1 l = (Inr (- 1), l) \<and> setUserMode_ErrDrop True l = (Inr (- 1), l)"
  using environment_wins [of "demo_lib\<lparr>m_EnvData := \<lambda>_. new_entry\<lparr>e_isSet := True\<rparr>\<rparr>" 1 True]
  by (simp add: Let_def)

text \<open>C18: \<open>sendto_Err\<close> returns, and the message's fate is the one its number, the events and the
  random numbers decide: dropped, it is reported as sent and nothing reaches the network; else it
  reaches the network, unchanged or with one byte inverted, unless the system call fails.\<close>

theorem sendto_Err_fate:
  assumes "lib_ok l" and "11 \<le> length b" and "4 \<le> len" and "len \<le> int (length b)"
  shows "\<exists>r l' m' n. sendto_Err (Some b) len (Some dst) l = (Inr r, l') \<and> lib_ok l' \<and>
    m_MsgNo l' = m_MsgNo l + 1 \<and> message_fate l (m_MsgNo l + 1) (take (nat len) b) m' n \<and>
    (if n = 2 then r = len \<and> wire l' = wire l
     else if tx l \<noteq> [] \<and> \<not> hd (tx l) then r = - 1 \<and> wire l' = wire l
     else r = len \<and> wire l' = wire l @ [(Some dst, m')])"
proof -
  have e: "int (length (take (nat len) b)) = len" using assms by simp
  obtain r l' where run: "sendto_Err (Some b) len (Some dst) l = (Inr r, l')"
    and o: "send_outcome (Some dst) (take (nat len) b) l r l'"
    using post_total [OF post_sendto_Err [OF assms, of dst]] by blast
  then obtain m' n where "message_fate l (m_MsgNo l + 1) (take (nat len) b) m' n"
    "if n = 2 then r = len \<and> wire l' = wire l \<and> tx l' = tx l
     else if tx l \<noteq> [] \<and> \<not> hd (tx l) then r = - 1 \<and> wire l' = wire l \<and> tx l' = tl (tx l)
     else r = len \<and> wire l' = wire l @ [(Some dst, m')] \<and> tx l' = tl (tx l)"
    unfolding send_outcome_def e by blast
  with run o show ?thesis
    unfolding send_outcome_def serves_def
    by (intro exI [of _ r] exI [of _ l'] exI [of _ m'] exI [of _ n]) (simp split: if_splits)
qed

lemma sendto_Err_fate_witness:
  "\<exists>r l'. sendto_Err (Some (replicate 11 7)) 11 (Some (1, 2)) demo_lib = (Inr r, l') \<and> m_MsgNo l' = m_MsgNo demo_lib + 1"
  using sendto_Err_fate [OF demo_lib_ok, of "replicate 11 7" 11 "(1, 2)"] by auto

text \<open>C9: whatever the program sends through the library, each datagram that reaches the network
  comes from one of its messages to the same destination, intact or with exactly one byte
  inverted, in number at most one per call.\<close>

theorem wire_delivered:
  assumes "lib_ok l" and "\<forall>x \<in> set xs. sendable x"
  shows "\<exists>rs l' ws. send_all xs l = (Inr rs, l') \<and> lib_ok l' \<and> wire l' = wire l @ ws \<and> length ws \<le> length xs \<and>
    (\<forall>w \<in> set ws. \<exists>x \<in> set xs. fst w = Some (fst x) \<and> delivered {snd (message_of x)} (snd w))"
  using post_total [OF post_send_all [OF assms]] by blast

lemma wire_delivered_witness:
  "\<exists>rs l'. send_all [((1, 2), replicate 11 7, 11)] demo_lib = (Inr rs, l') \<and> lib_ok l'"
  using wire_delivered [OF demo_lib_ok, of "[((1, 2), replicate 11 7, 11)]"] by (auto simp: sendable_def)




text \<open>C30: without random events a message is dropped exactly when a standard event names its
  number, and otherwise arrives unchanged: \<open>CPE464_OVERRIDE_ERR_DROP\<close> with a list drops the
  messages of the list and no others.\<close>

theorem drop_list_exact:
  assumes "lib_ok l" and "m_ErrorCase_Chance l = []" and "tx l = []"
    and "11 \<le> length b" and "4 \<le> len" and "len \<le> int (length b)"
  shows "\<exists>l'. sendto_Err (Some b) len (Some dst) l = (Inr len, l') \<and>
    wire l' = wire l @ (if \<exists>ev \<in> set (m_ErrorCase_Constant l). drops ev (m_MsgNo l + 1)
      then [] else [(Some dst, take (nat len) b)])"
proof -
  have nodue: "\<not> error_due x l" for x using assms(2) by (simp add: error_due_def)
  obtain r l' m' n where run: "sendto_Err (Some b) len (Some dst) l = (Inr r, l')"
    and f: "message_fate l (m_MsgNo l + 1) (take (nat len) b) m' n"
    and w: "if n = 2 then r = len \<and> wire l' = wire l
      else if tx l \<noteq> [] \<and> \<not> hd (tx l) then r = - 1 \<and> wire l' = wire l
      else r = len \<and> wire l' = wire l @ [(Some dst, m')]"
    using sendto_Err_fate [OF assms(1,4-6), of dst] by blast
  show ?thesis
    using run f w assms(3) nodue by (auto simp: message_fate_def Let_def split: if_splits)
qed

definition drop_lib :: errlib where
  "drop_lib = demo_lib\<lparr>m_ErrorCase_Constant := [ErrorDrop False [1, 3]], m_ErrorCase_Chance := []\<rparr>"

lemma drop_list_exact_witness:
  "\<exists>l'. sendto_Err (Some (replicate 11 7)) 11 (Some (1, 2)) drop_lib = (Inr 11, l') \<and> wire l' = []"
  using drop_list_exact [of drop_lib "replicate 11 7" 11 "(1, 2)"]
  by (simp add: drop_lib_def demo_lib_def lib_ok_def flips_def drops_def)



definition recv_lib :: errlib where
  "recv_lib = demo_lib\<lparr>rx := [Some (replicate 9 0)]\<rparr>"


text \<open>The program's call of \<open>sendtoErr_init\<close> (drops and flips on, no debugging, a random seed), no
  variable being set: both random events registered once, the rate as a \<open>float\<close>, the sequence
  number journal as a standard event, the generator seeded with the time.\<close>

lemma program_init:
  assumes "\<forall>key. \<not> e_isSet (m_EnvData l key)"
  shows "sendErr_init rate 1 1 0 1 now later l = (Inr 0, l\<lparr>
    m_ErrorCase_Constant := m_ErrorCase_Constant l @ [new_infoSeqNo],
    m_ErrorRate := float_of_double rate,
    m_ErrorCase_Chance := m_ErrorCase_Chance l @ [new_errorDrop, ErrorFlipBits],
    rand_state := nat (now mod 2 ^ 32) * 2 ^ 16 + 0x330E,
    nextSeed := int_of_long later,
    g_dbg_print_level := 0\<rparr>)"
  using assms
  by (simp add: sendErr_init_def user_mode_defs unless_set_def env_entry_def library_defs iobind_def
      get_nextSeed_def put_nextSeed_def)

lemma program_init_witness:
  "m_ErrorCase_Chance (snd (sendErr_init 1 1 1 0 1 0 0 demo_lib)) = [ErrorFlipBits, new_errorDrop, ErrorFlipBits]"
proof -
  have "\<forall>key. \<not> e_isSet (m_EnvData demo_lib key)" by (simp add: demo_lib_def new_entry_def)
  from program_init [OF this, of 1 0 0] show ?thesis by (simp add: demo_lib_def)
qed

text \<open>Forks give their children different seeds: the child of a fork gets the parent's next seed
  and the parent's counter moves on, unless the environment fixes the seed.\<close>

theorem fork_seeds:
  assumes "nextSeed l < 2 ^ 31 - 1" and "0 < pid"
  shows "(\<exists>c. forkMod 0 l = (Inr 0, c) \<and> childProcess c \<and> nextSeed c = nextSeed l + 1 \<and>
      (if e_isSet (m_EnvData l EDK_OVERRIDE_SEEDRAND) then rand_state c = rand_state l
       else rand_state c = nat (nextSeed l mod 2 ^ 32) * 2 ^ 16 + 0x330E)) \<and>
    forkMod pid l = (Inr pid, l\<lparr>nextSeed := nextSeed l + 1\<rparr>)"
  using assms
  by (simp add: forkMod_def get_nextSeed_def put_nextSeed_def int_inc_def user_mode_defs unless_set_def
      env_entry_def library_defs iobind_def)

lemma fork_seeds_witness: "forkMod 5 demo_lib = (Inr 5, demo_lib\<lparr>nextSeed := 11\<rparr>)"
  using fork_seeds [of demo_lib 5] by (simp add: demo_lib_def)

section \<open>Two surprises of the settings\<close>

text \<open>A list in \<open>CPE464_OVERRIDE_ERR_FLIP\<close> turns flipping off altogether: no event is registered for
  it, and the program's own request is refused.\<close>

lemma flip_list_disables_flips:
  assumes "e_isSet (m_EnvData l EDK_OVERRIDE_ERR_FLIP)" and "v \<in> set (e_lLong (m_EnvData l EDK_OVERRIDE_ERR_FLIP))" and "0 \<le> v"
  shows "loadEnvData_ErrFlip l = (Inr (- 1), l) \<and> setUserMode_ErrFlip True l = (Inr (- 1), l)"
proof -
  have "parserLong2Uint32 (e_lLong (m_EnvData l EDK_OVERRIDE_ERR_FLIP)) \<noteq> []"
    using assms(2,3) by (auto simp: parserLong2Uint32_def filter_empty_conv)
  with assms(1) show ?thesis
    by (simp add: loadEnvData_ErrFlip_def when_set_def env_entry_def iobind_def user_mode_defs unless_set_overridden)
qed

lemma flip_list_disables_flips_witness:
  "let l = demo_lib\<lparr>m_EnvData := \<lambda>_. new_entry\<lparr>e_isSet := True, e_lLong := [3]\<rparr>\<rparr> in
   loadEnvData_ErrFlip l = (Inr (- 1), l)"
  using flip_list_disables_flips [of "demo_lib\<lparr>m_EnvData := \<lambda>_. new_entry\<lparr>e_isSet := True, e_lLong := [3]\<rparr>\<rparr>" 3]
  by (simp add: Let_def)

text \<open>A text without any number in \<open>CPE464_OVERRIDE_ERR_DROP\<close> counts as set with an empty list, and
  an empty list registers the random drop of every message the error rate picks.\<close>

lemma bad_drop_list_drops_at_random:
  assumes "tokens 44 str = t # ts" and "\<not> strtol_converts t"
  shows "\<exists>l'. iobind (load_entry strtof EDT_LIST_LONG str new_entry) (\<lambda>entry.
      iobind (put_entry EDK_OVERRIDE_ERR_DROP entry) (\<lambda>_. loadEnvData_ErrDrop)) l = (Inr 0, l') \<and>
    m_ErrorCase_Chance l' = m_ErrorCase_Chance l @ [new_errorDrop] \<and>
    m_ErrorCase_Constant l' = m_ErrorCase_Constant l"
  using assms
  by (simp add: new_entry_def load_entry_def parser2ListLong_def Let_def iobind_def dbg_print_def put_entry_def
      loadEnvData_ErrDrop_def when_set_def env_entry_def library_defs parserLong2Uint32_def)

lemma bad_drop_list_drops_at_random_witness:
  "m_ErrorCase_Chance (snd (iobind (load_entry (\<lambda>_. None) EDT_LIST_LONG [97, 98] new_entry) (\<lambda>entry.
      iobind (put_entry EDK_OVERRIDE_ERR_DROP entry) (\<lambda>_. loadEnvData_ErrDrop)) demo_lib)) =
    [ErrorFlipBits, new_errorDrop]"
proof -
  have "tokens 44 [97, 98] = [97, 98] # []" by (simp add: tokens.simps)
  moreover have "\<not> strtol_converts [97, 98]" by (simp add: strtol_converts_def is_space_def is_digit_def)
  ultimately show ?thesis
    using bad_drop_list_drops_at_random [of "[97, 98]" "[97, 98]" "[]" "\<lambda>_. None" demo_lib]
    by (auto simp: demo_lib_def)
qed

end
