(* ===== verification/Library_Transfer.thy ===== *)
theory Library_Transfer
  imports File_Transfer ErrLib_Correct
begin

text \<open>
  The two programs with the error library between them and the network: the assumption of
  \<open>File_Transfer\<close> that a datagram is lost, repeated, delayed or damaged in one byte is what the library
  and an unreliable network do together.
\<close>

text \<open>The datagrams that leave the library when the calls \<open>xs\<close> are made one after the other.\<close>

definition leaving :: "errlib \<Rightarrow> (addr \<times> bytes \<times> int) list \<Rightarrow> bytes list" where
  "leaving l xs = map snd (wire (snd (send_all xs l)))"

text \<open>The calls \<open>xs\<close> are those of the process that ended in \<open>w\<close>: the arrays it sent from, and how much of them.\<close>

definition calls_of :: "world \<Rightarrow> (addr \<times> bytes \<times> int) list \<Rightarrow> bool" where
  "calls_of w xs \<longleftrightarrow> map message_of xs = sent w \<and> (\<forall>x \<in> set xs. sendable x)"

text \<open>Whatever arrives has left the library; in which order and how often is left open.\<close>

definition arriving :: "bytes list \<Rightarrow> net_event list \<Rightarrow> bool" where
  "arriving ms es \<longleftrightarrow> (\<forall>e \<in> set es. case e of Arrives (Datagram a m) \<Rightarrow> m \<in> set ms | _ \<Rightarrow> True)"

lemma carried_library:
  assumes l: "lib_ok l" "wire l = []" and xs: "calls_of w xs" and es: "arriving (leaving l xs) es"
    and valid: "\<And>m. m \<in> snd ` set (sent w) \<Longrightarrow> valid_packet m"
  shows "carried w es"
  unfolding carried_def
proof (intro allI impI)
  fix a m assume "Arrives (Datagram a m) \<in> set es"
  with es have "m \<in> set (leaving l xs)" by (force simp: arriving_def)
  then obtain d where d: "(d, m) \<in> set (wire (snd (send_all xs l)))" by (auto simp: leaving_def)
  have "\<forall>x \<in> set xs. sendable x" using xs by (simp add: calls_of_def)
  from post_total [OF post_send_all [OF l(1) this]] l(2) obtain rs l' where r: "send_all xs l = (Inr rs, l')"
    "\<forall>w \<in> set (wire l'). \<exists>x \<in> set xs. fst w = Some (fst x) \<and> delivered {snd (message_of x)} (snd w)" by auto
  have "(d, m) \<in> set (wire l')" using d r(1) by simp
  with r(2) have "\<exists>x \<in> set xs. fst (d, m) = Some (fst x) \<and> delivered {snd (message_of x)} (snd (d, m))" by (rule bspec)
  then obtain x where x: "x \<in> set xs" "delivered {snd (message_of x)} m" by auto
  have "message_of x \<in> set (map message_of xs)" using x(1) by simp
  moreover have "map message_of xs = sent w" using xs by (simp add: calls_of_def)
  ultimately have "snd (message_of x) \<in> snd ` set (sent w)" by (metis imageI)
  then have "delivered (snd ` set (sent w)) m" by (intro delivered_mono [OF x(2)]) simp
  from delivered_refused [OF this valid] show "m \<in> snd ` set (sent w) \<or> refused m" by simp
qed

text \<open>C2: client and server child with the error library in between: both programs send through a library of
  their own, whatever its settings and its random numbers, and what arrives at the other side is
  among what left the library, in any order and any number of times. Then what the child has
  written is a prefix of the client's file, and all of it when the client exits with status 0.\<close>

theorem transfer_through_library:
  assumes c: "cli_fresh F wc" "check_args argv rate = Inr ()" "process_file junk n argv wc = (rc, wc')"
    and s: "srv_fresh ws" "named_packet p" "writes ws = []" "14 + length (net ws) \<le> k"
      "process_client junk' k sock p (int (length p)) client ws = (rs, ws')"
    and lib: "lib_ok lc" "wire lc = []" "lib_ok ls" "wire ls = []" "calls_of wc' xc" "calls_of ws' xs"
    and net: "arriving (leaving lc xc) (net ws)" "arriving (leaving ls xs) (net wc)"
  shows "(\<exists>rest. F = out_data ws' @ rest) \<and> (rc = Inr (Some 0) \<longrightarrow> out_data ws' = F)"
proof -
  obtain cs where "cli_log F cs wc'" using client_log [OF c] by blast
  then have vc: "valid_packet m" if "m \<in> snd ` set (sent wc')" for m
    using that by (intro cli_msg_valid [of cs]) (auto simp: cli_log_def)
  obtain e pend where "srv_log False [] e pend ws'" using server_log_any [OF s(1,2,4,5)] by blast
  then have vs: "valid_packet m" if "m \<in> snd ` set (sent ws')" for m
    using that by (intro srv_msg_valid [of e]) (auto simp: srv_log_def)
  show ?thesis
    by (rule transfer_safe [OF c s carried_library [OF lib(1,2,5) net(1) vc] carried_library [OF lib(3,4,6) net(2) vs]])
qed

text \<open>For the concrete case: packets sent from arrays of 1407 bytes.\<close>

definition padded :: "addr \<times> bytes \<Rightarrow> addr \<times> bytes \<times> int" where
  "padded x = (fst x, snd x @ replicate 1407 0, int (length (snd x)))"

lemma padded_calls:
  assumes "\<And>m. m \<in> snd ` set (sent w) \<Longrightarrow> valid_packet m"
  shows "calls_of w (map padded (sent w))"
proof -
  have "4 \<le> length m" if "m \<in> snd ` set (sent w)" for m
    using check_packet_True(1) [of m "int (length m)"] assms [OF that] by (simp add: valid_packet_def)
  then have "\<forall>x \<in> set (map padded (sent w)). sendable x" by (force simp: padded_def sendable_def)
  moreover have "message_of (padded x) = x" for x by (simp add: padded_def message_of_def)
  ultimately show ?thesis by (simp add: calls_of_def comp_def)
qed

text \<open>The client's datagrams pass a library that inverts a byte of each of them.\<close>

lemma transfer_through_library_witness:
  "\<exists>rc wc' rs ws'. process_file demo_junk 40 demo_argv (demo_world [] [7, 8, 9]) = (rc, wc') \<and>
    process_client demo_junk (14 + length (leaving demo_lib (map padded (sent wc')))) 5 demo_request 17 (1, 1)
      (demo_world (map (\<lambda>m. Arrives (Datagram (1, 1) m)) (leaving demo_lib (map padded (sent wc')))) []) = (rs, ws') \<and>
    (\<exists>rest. [7, 8, 9] = out_data ws' @ rest)"
proof -
  let ?wc = "demo_world [] [7, 8, 9]"
  obtain rc wc' where c: "process_file demo_junk 40 demo_argv ?wc = (rc, wc')" by fastforce
  let ?ms = "leaving demo_lib (map padded (sent wc'))"
  let ?ws = "demo_world (map (\<lambda>m. Arrives (Datagram (1, 1) m)) ?ms) []"
  obtain rs ws' where s: "process_client demo_junk (14 + length ?ms) 5 demo_request (int (length demo_request)) (1, 1) ?ws = (rs, ws')"
    by fastforce
  have fc: "cli_fresh [7, 8, 9] ?wc" and fs: "srv_fresh ?ws" by (simp_all add: cli_fresh_def srv_fresh_def demo_world_def)
  have np: "named_packet demo_request" by (simp add: named_packet_def demo_request_def)
  obtain cs where "cli_log [7, 8, 9] cs wc'" using client_log [OF fc demo_args c] by blast
  then have xc: "calls_of wc' (map padded (sent wc'))"
    by (intro padded_calls cli_msg_valid [of cs]) (auto simp: cli_log_def)
  have a: "arriving ?ms (net ?ws)" "arriving (leaving demo_lib (map padded (sent ws'))) (net ?wc)"
    by (auto simp: arriving_def demo_world_def)
  obtain k pend where "srv_log False [] k pend ws'" using server_log_any [OF fs np _ s] by (auto simp: demo_world_def)
  then have xs: "calls_of ws' (map padded (sent ws'))"
    by (intro padded_calls srv_msg_valid [of k]) (auto simp: srv_log_def)
  have "\<exists>rest. [7, 8, 9] = out_data ws' @ rest"
    using transfer_through_library [OF fc demo_args c fs np _ _ s demo_lib_ok _ demo_lib_ok _ xc xs a]
    by (simp add: demo_world_def demo_lib_def)
  with c s show ?thesis by (auto simp: demo_request_def)
qed

end
