(* ===== verification/Receiver.thy ===== *)
theory Receiver
  imports Server_Correct
begin

text \<open>
  What a child promises about data packets, without arrays, slots or wrapping numbers: an abstract
  receiver over natural numbers and maps, the proof that \<open>handle_data_packet\<close> refines it, reply by
  reply, and what follows for packets that arrive in any order.
\<close>

section \<open>The abstract receiver\<close>

text \<open>The next number to write, the packets that wait, the number last asked for, the data written.\<close>

record receiver =
  rc_next :: nat
  rc_wait :: "nat \<Rightarrow> bytes option"
  rc_asked :: "nat option"
  rc_out :: bytes

text \<open>An acknowledgement of everything below a number, or a request for a number.\<close>

datatype reply = Ack nat | Ask nat

fun deliver :: "nat \<Rightarrow> receiver \<Rightarrow> receiver" where
  "deliver 0 r = r"
| "deliver (Suc f) r =
    (case rc_wait r (rc_next r) of
       None \<Rightarrow> r
     | Some d \<Rightarrow> deliver f (r\<lparr>rc_next := Suc (rc_next r), rc_wait := (rc_wait r)(rc_next r := None), rc_out := rc_out r @ d\<rparr>))"

definition gap_behind :: "nat \<Rightarrow> receiver \<Rightarrow> bool" where
  "gap_behind ws r \<longleftrightarrow> list_ex (\<lambda>n. rc_wait r n \<noteq> None) [Suc (rc_next r)..<rc_next r + ws]"

definition ask :: "receiver \<Rightarrow> receiver \<times> reply list" where
  "ask r = (if rc_asked r = Some (rc_next r) then (r, [])
    else (r\<lparr>rc_asked := Some (rc_next r)\<rparr>, [Ask (rc_next r)]))"

text \<open>Writing what is ready, and the replies after it.\<close>

definition settle :: "nat \<Rightarrow> receiver \<Rightarrow> receiver \<times> reply list" where
  "settle ws r =
    (let r = deliver ws r in
     if gap_behind ws r then (fst (ask r), Ack (rc_next r) # snd (ask r)) else (r, [Ack (rc_next r)]))"

text \<open>A packet outside the window, or one that came before, is only acknowledged again; the window is
  shut when its end would not be a 32-bit number.\<close>

definition receive :: "nat \<Rightarrow> nat \<Rightarrow> bytes \<Rightarrow> receiver \<Rightarrow> receiver \<times> reply list" where
  "receive ws n d r =
    (if n < rc_next r \<or> rc_next r + ws \<le> n \<or> 4294967296 \<le> rc_next r + ws then (r, [Ack (rc_next r)])
     else
       let r = (if rc_wait r n = None then r\<lparr>rc_wait := (rc_wait r)(n \<mapsto> d)\<rparr> else r) in
       if n = rc_next r then settle ws (if rc_asked r = Some n then r\<lparr>rc_asked := None\<rparr> else r) else ask r)"

lemma deliver_run:
  assumes "run_from (rc_wait r) (rc_next r) k" and "k \<le> f"
  shows "deliver f r = r\<lparr>rc_next := rc_next r + k,
    rc_wait := (\<lambda>n. if rc_next r \<le> n \<and> n < rc_next r + k then None else rc_wait r n),
    rc_out := rc_out r @ concat (map (\<lambda>i. the (rc_wait r (rc_next r + i))) [0..<k])\<rparr>"
  using assms
proof (induction k arbitrary: r f)
  case 0
  have "(\<lambda>n. if rc_next r \<le> n \<and> n < rc_next r then None else rc_wait r n) = rc_wait r"
    by (rule ext) (metis leD)
  with 0 show ?case by (cases f) (simp_all add: run_from_def)
next
  case (Suc k)
  let ?n = "rc_next r"
  obtain g where f: "f = Suc g" "k \<le> g" using Suc.prems(2) by (cases f) auto
  obtain d where d: "rc_wait r ?n = Some d" using Suc.prems(1) by (auto simp: run_from_def dest: spec [of _ 0])
  let ?r = "r\<lparr>rc_next := Suc ?n, rc_wait := (rc_wait r)(?n := None), rc_out := rc_out r @ d\<rparr>"
  have "run_from (rc_wait ?r) (rc_next ?r) k"
    using Suc.prems(1) by (auto simp: run_from_def dest: spec [of _ "Suc _"])
  from Suc.IH [OF this f(2)] d f show ?case
    by (auto simp: map_upt_Suc_shift fun_eq_iff simp del: upt_Suc)
qed

section \<open>What a child's buffer stands for\<close>

definition represents :: "nat \<Rightarrow> receiver \<Rightarrow> ServerInfo \<Rightarrow> world \<Rightarrow> bool" where
  "represents ws r info w \<longleftrightarrow>
    (let b = si_buffer info in
     buffer_inv b \<and> 0 < buf_size b \<and> nat (buf_size b) = ws \<and> buf_missing_active b \<in> {0, 1} \<and>
     rc_next r = buf_next b \<and> rc_wait r = buf_pending b \<and>
     rc_asked r = (if buf_missing_active b = 1 then Some (unat (buf_missing_seq b)) else None) \<and>
     rc_out r = out_data w \<and> writes w = [])"

fun reply_packets :: "u32 \<Rightarrow> reply list \<Rightarrow> bytes list" where
  "reply_packets q [] = []"
| "reply_packets q (Ack n # rs) = packet_bytes q FLAG_RR (be_bytes32 (word_of_nat n)) # reply_packets (q + 1) rs"
| "reply_packets q (Ask n # rs) = packet_bytes q FLAG_SREJ (be_bytes32 (word_of_nat n)) # reply_packets (q + 1) rs"

lemma reply_packets_append:
  "reply_packets q (as @ bs) = reply_packets q as @ reply_packets (q + word_of_nat (length as)) bs"
  by (induction q as rule: reply_packets.induct) (simp_all add: add.assoc)

text \<open>What was sent and used up since \<open>info\<close> and \<open>w\<close>, and what the buffer stands for now.\<close>

definition handled :: "nat \<Rightarrow> ServerInfo \<Rightarrow> world \<Rightarrow> receiver \<times> reply list \<Rightarrow> ServerInfo \<Rightarrow> world \<Rightarrow> bool" where
  "handled ws info w x info' w' \<longleftrightarrow> represents ws (fst x) info' w' \<and> si_client info' = si_client info \<and>
    si_control_seq info' = si_control_seq info + word_of_nat (length (snd x)) \<and>
    sent w' = sent w @ map (Pair (si_client info)) (reply_packets (si_control_seq info) (snd x)) \<and>
    (sends w = [] \<longrightarrow> sends w' = [])"

lemma handled_buffer [simp]: "handled ws (info\<lparr>si_buffer := b\<rparr>) w = handled ws info w"
  by (simp add: handled_def fun_eq_iff)

lemma handled_then:
  assumes "handled ws info w (r, as) i v" and "handled ws i v (r', bs) info' w'"
  shows "handled ws info w (r', as @ bs) info' w'"
  using assms by (auto simp: handled_def reply_packets_append add.assoc)

lemma represents_send:
  assumes "represents ws r info w"
  shows "represents ws r (next_control info) (after_send c m w)"
  using assms by (simp add: represents_def after_send_def)

lemma handled_rr:
  assumes r: "represents ws r info w"
  shows "post (send_rr info) w (\<lambda>info' w'. handled ws info w (r, [Ack (rc_next r)]) info' w' \<and>
    si_buffer info' = si_buffer info) (\<lambda>_. sends w \<noteq> [])"
  by (rule post_send_rr)
    (use represents_send [OF r] r in \<open>auto simp: handled_def represents_def after_send_def Let_def\<close>)

text \<open>Asking for the missing packet, once.\<close>

lemma represents_need_reject:
  assumes r: "represents ws r info w" and b: "buffer_need_reject (si_buffer info) = (need, b)"
  shows "represents ws (fst (ask r)) (info\<lparr>si_buffer := b\<rparr>) w"
    and "snd (ask r) = (if need then [Ask (rc_next r)] else [])"
proof -
  note f = buffer_need_reject_frame [OF b]
  have "buffer_inv b = buffer_inv (si_buffer info)" "buf_pending b = buf_pending (si_buffer info)"
    using buffer_inv_cong [of b "si_buffer info"] buf_pending_cong [of b "si_buffer info"] f by simp_all
  with r b f show "represents ws (fst (ask r)) (info\<lparr>si_buffer := b\<rparr>) w"
    by (auto simp: represents_def Let_def ask_def buffer_need_reject_def word_unat_eq_iff split: if_splits)
  show "snd (ask r) = (if need then [Ask (rc_next r)] else [])"
    using r b by (auto simp: represents_def Let_def ask_def buffer_need_reject_def word_unat_eq_iff split: if_splits)
qed

lemma handled_gap:
  assumes r: "represents ws r info w"
  shows "post (let (need, b) = buffer_need_reject (si_buffer info); info = info\<lparr>si_buffer := b\<rparr> in
      if need then send_reject info (buffer_expected b) else ret info) w
    (handled ws info w (ask r)) (\<lambda>_. sends w \<noteq> [])"
proof -
  obtain need b where b: "buffer_need_reject (si_buffer info) = (need, b)" by fastforce
  let ?info = "info\<lparr>si_buffer := b\<rparr>"
  note a = represents_need_reject [OF r b]
  have e: "rc_next r = unat (buf_expected b)"
    using r buffer_need_reject_frame [OF b] by (simp add: represents_def Let_def)
  have "post (send_reject ?info (buf_expected b)) w (handled ws info w (ask r)) (\<lambda>_. sends w \<noteq> [])" if need
    by (rule post_send_reject)
      (use represents_send [OF a(1)] a(2) that in \<open>simp_all add: handled_def e after_send_def\<close>)
  moreover have "handled ws info w (ask r) ?info w" if "\<not> need"
    using a that by (simp add: handled_def)
  ultimately show ?thesis by (simp add: b buffer_expected_def Let_def)
qed

text \<open>Saving, clearing the request and writing are the map update and \<open>deliver\<close>.\<close>

lemma represents_save:
  assumes r: "represents ws r info w" and win: "buffer_in_window (si_buffer info) n" and d: "length d \<le> SREJ_MAX_DATA"
  obtains b where "buffer_save (si_buffer info) n d (int (length d)) = Inr b" "buf_expected b = buf_expected (si_buffer info)"
    "represents ws (if rc_wait r (unat n) = None then r\<lparr>rc_wait := (rc_wait r)(unat n \<mapsto> d)\<rparr> else r)
      (info\<lparr>si_buffer := b\<rparr>) w"
proof -
  have inv: "buffer_inv (si_buffer info)" using r by (simp add: represents_def Let_def)
  from buffer_save_spec [OF inv win, of "int (length d)" d] d obtain b where
    b: "buffer_save (si_buffer info) n d (int (length d)) = Inr b" "buffer_inv b"
      "b = (si_buffer info)\<lparr>buf_entry := buf_entry b\<rparr>"
      "buf_pending b = (if buf_pending (si_buffer info) (unat n) = None
        then (buf_pending (si_buffer info))(unat n \<mapsto> d) else buf_pending (si_buffer info))" by auto
  have f: "buf_expected b = buf_expected (si_buffer info)" "buf_size b = buf_size (si_buffer info)"
    "buf_missing_active b = buf_missing_active (si_buffer info)" "buf_missing_seq b = buf_missing_seq (si_buffer info)"
    by (subst b(3), simp)+
  show thesis
    by (rule that [OF b(1) f(1)]) (use r b(2,4) f in \<open>simp add: represents_def Let_def\<close>)
qed

lemma represents_clear:
  assumes r: "represents ws r info w" and n: "n = buf_expected (si_buffer info)"
  shows "represents ws (if rc_asked r = Some (unat n) then r\<lparr>rc_asked := None\<rparr> else r)
    (info\<lparr>si_buffer := buffer_clear_reject (si_buffer info) n\<rparr>) w"
proof -
  let ?b = "si_buffer info" and ?c = "buffer_clear_reject (si_buffer info) n"
  note f = buffer_clear_reject_frame [of ?b n]
  have "buffer_inv ?c = buffer_inv ?b" "buf_pending ?c = buf_pending ?b"
    using buffer_inv_cong [of ?c ?b] buf_pending_cong [of ?c ?b] f by simp_all
  with r f show ?thesis
    by (auto simp: represents_def Let_def buffer_clear_reject_def word_unat_eq_iff split: if_splits)
qed

lemma represents_deliver:
  assumes r: "represents ws r info w"
  shows "post (buffer_write_ready (si_buffer info)) w (\<lambda>b v. represents ws (deliver ws r) (info\<lparr>si_buffer := b\<rparr>) v \<and>
    sent v = sent w \<and> sends v = sends w) (\<lambda>_. False)"
proof (rule post_mono [OF post_buffer_write_ready])
  let ?b = "si_buffer info"
  have i: "buffer_inv ?b" "0 < buf_size ?b" "nat (buf_size ?b) = ws" "rc_next r = buf_next ?b" "rc_wait r = buf_pending ?b"
    "writes w = []" "rc_out r = out_data w"
    using r by (simp_all add: represents_def Let_def)
  show "buffer_inv ?b" "0 < buf_size ?b" using i by simp_all
  fix b v assume "ready_post ?b w b v"
  then obtain k where k: "buffer_inv b" "b = ?b\<lparr>buf_entry := buf_entry b, buf_expected := buf_expected b\<rparr>"
    "buf_next b = rc_next r + k" "run_from (rc_wait r) (rc_next r) k"
    "\<And>n. buf_pending b n = (if rc_next r \<le> n \<and> n < rc_next r + k then None else rc_wait r n)"
    "v = w\<lparr>out_data := out_data v, writes := writes v\<rparr>"
    "writes v = []" "out_data v = out_data w @ concat (map (\<lambda>j. the (rc_wait r (rc_next r + j))) [0..<k])"
    unfolding ready_post_def i(4,5) [symmetric] using i(6) by blast
  have "k \<le> ws"
  proof (cases k)
    case (Suc j)
    then have "buf_pending ?b (buf_next ?b + j) \<noteq> None" using k(4) i(4,5) by (simp add: run_from_def)
    then have "buf_next ?b + j < buf_next ?b + ws" using buf_pending_Some(2) [OF i(1)] i(3) by blast
    with Suc show ?thesis by simp
  qed simp
  note d = deliver_run [OF k(4) this]
  have f: "buf_size b = buf_size ?b" "buf_missing_active b = buf_missing_active ?b" "buf_missing_seq b = buf_missing_seq ?b"
    by (subst k(2), simp)+
  have "buf_pending b = (\<lambda>n. if rc_next r \<le> n \<and> n < rc_next r + k then None else rc_wait r n)" using k(5) by blast
  then have "represents ws (deliver ws r) (info\<lparr>si_buffer := b\<rparr>) v"
    using r k(1,3,7,8) f i(7) by (simp add: represents_def Let_def d)
  moreover have "sent v = sent w" "sends v = sends w" by (subst k(6), simp)+
  ultimately show "represents ws (deliver ws r) (info\<lparr>si_buffer := b\<rparr>) v \<and> sent v = sent w \<and> sends v = sends w" by blast
next
  fix v assume "v = w\<lparr>out_data := out_data v, writes := writes v\<rparr> \<and> writes w \<noteq> []"
  with r show False by (simp add: represents_def Let_def)
qed

lemma represents_gap:
  assumes r: "represents ws r info w"
  shows "buffer_has_later (si_buffer info) = Inr (gap_behind ws r)"
proof -
  have i: "buffer_inv (si_buffer info)" "nat (buf_size (si_buffer info)) = ws"
    "rc_next r = buf_next (si_buffer info)" "rc_wait r = buf_pending (si_buffer info)"
    using r by (simp_all add: represents_def Let_def)
  have "(\<exists>n > buf_next (si_buffer info). buf_pending (si_buffer info) n \<noteq> None) \<longleftrightarrow> gap_behind ws r"
    using buf_pending_Some(2) [OF i(1)] by (fastforce simp: gap_behind_def list_ex_iff i)
  then show ?thesis by (simp add: buffer_has_later_eq [OF i(1)])
qed

section \<open>handle_data_packet refines the abstract receiver\<close>

definition packet_number :: "bytes \<Rightarrow> nat" where
  "packet_number p = (case get_seq p of Inr s \<Rightarrow> unat s | Inl _ \<Rightarrow> 0)"

lemma handled_arrived:
  assumes r: "represents ws r info w"
  shows "post (iobind (buffer_write_ready (si_buffer info)) (\<lambda>b.
      iobind (send_rr (info\<lparr>si_buffer := b\<rparr>)) (\<lambda>info.
      iobind (lift_res (buffer_has_later (si_buffer info))) (\<lambda>later.
        if later then
          (let (need, b) = buffer_need_reject (si_buffer info); info = info\<lparr>si_buffer := b\<rparr> in
           if need then send_reject info (buffer_expected b) else ret info)
        else ret info)))) w
    (handled ws info w (settle ws r))
    (\<lambda>_. sends w \<noteq> [])"
proof (rule post_seq)
  show "post (buffer_write_ready (si_buffer info)) w (\<lambda>b v. represents ws (deliver ws r) (info\<lparr>si_buffer := b\<rparr>) v \<and>
    sent v = sent w \<and> sends v = sends w) (\<lambda>_. sends w \<noteq> [])"
    by (rule post_mono [OF represents_deliver [OF r]]) simp_all
  fix b v
  let ?r = "deliver ws r" and ?i = "info\<lparr>si_buffer := b\<rparr>"
  assume v: "represents ws ?r ?i v \<and> sent v = sent w \<and> sends v = sends w"
  then have rep: "represents ws ?r ?i v" by blast
  have eq: "handled ws info w = handled ws ?i v" using v by (auto simp: handled_def fun_eq_iff)
  have "post (send_rr ?i) v (\<lambda>j u. handled ws ?i v (?r, [Ack (rc_next ?r)]) j u) (\<lambda>_. sends w \<noteq> [])"
    by (rule post_mono [OF handled_rr [OF rep]]) (use v in auto)
  then show "post (iobind (send_rr ?i) (\<lambda>info.
      iobind (lift_res (buffer_has_later (si_buffer info))) (\<lambda>later.
        if later then
          (let (need, b) = buffer_need_reject (si_buffer info); info = info\<lparr>si_buffer := b\<rparr> in
           if need then send_reject info (buffer_expected b) else ret info)
        else ret info))) v
    (handled ws info w (settle ws r))
    (\<lambda>_. sends w \<noteq> [])"
  proof (rule post_seq)
    fix j u
    assume h: "handled ws ?i v (?r, [Ack (rc_next ?r)]) j u"
    then have rj: "represents ws ?r j u" and s: "sends w = [] \<longrightarrow> sends u = []" using v by (auto simp: handled_def)
    have "post (let (need, b) = buffer_need_reject (si_buffer j); info = j\<lparr>si_buffer := b\<rparr> in
        if need then send_reject info (buffer_expected b) else ret info) u
      (handled ws ?i v (fst (ask ?r), Ack (rc_next ?r) # snd (ask ?r))) (\<lambda>_. sends w \<noteq> [])"
    proof (rule post_mono [OF handled_gap [OF rj]])
      fix k x assume "handled ws j u (ask ?r) k x"
      with handled_then [OF h, of "fst (ask ?r)" "snd (ask ?r)" k x]
      show "handled ws ?i v (fst (ask ?r), Ack (rc_next ?r) # snd (ask ?r)) k x" by simp
    qed (use s in auto)
    with h show "post (iobind (lift_res (buffer_has_later (si_buffer j))) (\<lambda>later.
        if later then
          (let (need, b) = buffer_need_reject (si_buffer j); info = j\<lparr>si_buffer := b\<rparr> in
           if need then send_reject info (buffer_expected b) else ret info)
        else ret j)) u
      (handled ws info w (settle ws r))
      (\<lambda>_. sends w \<noteq> [])"
      unfolding eq by (simp add: represents_gap [OF rj] Let_def settle_def)
  qed
qed

lemma post_handled:
  assumes r: "represents ws r info w"
    and p: "7 \<le> length p" "length p \<le> SREJ_MAX_PACKET"
  shows "post (handle_data_packet info p (int (length p))) w
    (handled ws info w (receive ws (packet_number p) (drop 7 p) r)) (\<lambda>_. sends w \<noteq> [])"
proof -
  obtain seq where seq: "get_seq p = Inr seq" using p(1) by (auto simp: get_seq_def read_u32_def)
  let ?b = "si_buffer info" and ?n = "unat seq" and ?d = "drop 7 p"
  have i: "rc_next r = buf_next ?b" "0 \<le> buf_size ?b" "buf_size ?b < 2 ^ 31" "nat (buf_size ?b) = ws"
    using r by (simp_all add: represents_def Let_def buffer_inv_def)
  have len: "int (length p) - 7 = int (length ?d)" "length ?d \<le> SREJ_MAX_DATA" using p by simp_all
  have win: "buffer_in_window ?b seq \<longleftrightarrow> rc_next r \<le> ?n \<and> ?n < rc_next r + ws \<and> rc_next r + ws < 4294967296"
    using buffer_in_window_iff [OF i(2,3), of seq] by (simp add: i)
  show ?thesis
  proof (cases "seq < buf_expected ?b \<or> \<not> buffer_in_window ?b seq")
    case True
    then have "receive ws (packet_number p) ?d r = (r, [Ack (rc_next r)])"
      using win by (auto simp: receive_def packet_number_def seq i(1) word_less_nat_alt)
    with True show ?thesis
      using handled_rr [OF r]
      by (auto simp: handle_data_packet_def seq iobind_eqs Let_def buffer_expected_def elim: post_mono)
  next
    case False
    then have w: "buffer_in_window ?b seq" by simp
    let ?r = "if rc_wait r ?n = None then r\<lparr>rc_wait := (rc_wait r)(?n \<mapsto> ?d)\<rparr> else r"
    obtain b where b: "buffer_save ?b seq ?d (int (length ?d)) = Inr b" "buf_expected b = buf_expected ?b"
      "represents ws ?r (info\<lparr>si_buffer := b\<rparr>) w"
      using represents_save [OF r w len(2)] by metis
    have nx: "rc_next ?r = rc_next r" by simp
    have e: "seq = buf_expected b \<longleftrightarrow> ?n = rc_next r" by (simp add: b(2) i(1) word_unat_eq_iff)
    have "\<not> (?n < rc_next r \<or> rc_next r + ws \<le> ?n \<or> 4294967296 \<le> rc_next r + ws)" using w win by linarith
    then have rec: "receive ws (packet_number p) ?d r = (if ?n = rc_next r
        then settle ws (if rc_asked ?r = Some ?n then ?r\<lparr>rc_asked := None\<rparr> else ?r) else ask ?r)"
      unfolding receive_def packet_number_def seq sum.case Let_def nx by (simp only: if_False)
    have tail: "post (if seq = buf_expected b then
          iobind (buffer_write_ready (buffer_clear_reject b seq)) (\<lambda>b.
          iobind (send_rr (info\<lparr>si_buffer := b\<rparr>)) (\<lambda>info.
          iobind (lift_res (buffer_has_later (si_buffer info))) (\<lambda>later.
            if later then
              (let (need, b) = buffer_need_reject (si_buffer info); info = info\<lparr>si_buffer := b\<rparr> in
               if need then send_reject info (buffer_expected b) else ret info)
            else ret info)))
        else
          (let (need, b) = buffer_need_reject b; info = info\<lparr>si_buffer := b\<rparr> in
           if need then send_reject info (buffer_expected b) else ret info)) w
      (handled ws info w (receive ws (packet_number p) ?d r)) (\<lambda>_. sends w \<noteq> [])"
    proof (cases "seq = buf_expected b")
      case True
      have "represents ws (if rc_asked ?r = Some ?n then ?r\<lparr>rc_asked := None\<rparr> else ?r)
        (info\<lparr>si_buffer := buffer_clear_reject b seq\<rparr>) w"
        using represents_clear [OF b(3), of seq] True by simp
      from handled_arrived [OF this] show ?thesis
        unfolding rec if_P [OF True] if_P [OF e [THEN iffD1, OF True]] by (simp del: post_iobind)
    next
      case False
      from handled_gap [OF b(3)] show ?thesis
        unfolding rec if_not_P [OF False] if_not_P [OF False [unfolded e]] by (simp add: Let_def)
    qed
    with False show ?thesis
      unfolding handle_data_packet_def seq iobind_eqs
      by (simp add: Let_def b(1) [folded len(1)] buffer_expected_def)
  qed
qed

text \<open>C10: the child's handling of a data packet refines the abstract receiver: for every packet the child
  returns, unless a send fails, its buffer, its request bookkeeping and the file stand for what
  \<open>receive\<close> gives for the packet's number and data, and it has sent the replies of \<open>receive\<close> and no
  others, under its next control numbers.\<close>

theorem handle_data_packet_refines:
  assumes r: "represents ws r info w"
    and p: "7 \<le> length p" "length p \<le> SREJ_MAX_PACKET"
  shows "post (handle_data_packet info p (int (length p))) w
    (handled ws info w (receive ws (packet_number p) (drop 7 p) r)) (\<lambda>_. sends w \<noteq> [])"
  by (rule post_handled [OF assms])

text \<open>A child with an empty window of two slots, for the concrete cases.\<close>

definition demo_child :: ServerInfo where
  "demo_child = zero_ServerInfo\<lparr>si_buffer := zero_Buffer\<lparr>buf_entry := replicate 2 zero_BufferEntry,
    buf_alloc := True, buf_size := 2, buf_expected := 2\<rparr>\<rparr>"

lemma demo_child_represents:
  "represents 2 \<lparr>rc_next = 2, rc_wait = (\<lambda>_. None), rc_asked = None, rc_out = []\<rparr> demo_child (demo_world [] [])"
proof -
  have "buffer_inv (si_buffer demo_child)"
    by (simp add: demo_child_def buffer_inv_def slot_ok_def zero_BufferEntry_def)
  moreover have "buf_pending (si_buffer demo_child) = (\<lambda>_. None)"
    by (auto simp: demo_child_def buf_pending_def zero_BufferEntry_def Let_def)
  ultimately show ?thesis
    by (simp add: represents_def demo_world_def Let_def) (simp add: demo_child_def zero_Buffer_def)
qed

lemma handle_data_packet_refines_witness:
  "post (handle_data_packet demo_child (packet_bytes 3 FLAG_DATA [9]) 8) (demo_world [] [])
    (handled 2 demo_child (demo_world [] [])
      (\<lparr>rc_next = 2, rc_wait = [3 \<mapsto> [9]], rc_asked = Some 2, rc_out = []\<rparr>, [Ask 2])) (\<lambda>_. False)"
proof -
  let ?r = "\<lparr>rc_next = 2, rc_wait = (\<lambda>_. None), rc_asked = None, rc_out = []\<rparr> :: receiver"
  have n: "packet_number (packet_bytes 3 FLAG_DATA [9]) = 3" "drop 7 (packet_bytes 3 FLAG_DATA [9]) = [9]"
    "length (packet_bytes 3 FLAG_DATA [9]) = 8"
    by (simp_all add: packet_number_def)
  have "receive 2 3 [9] ?r = (\<lparr>rc_next = 2, rc_wait = [3 \<mapsto> [9]], rc_asked = Some 2, rc_out = []\<rparr>, [Ask 2])"
    by (simp add: receive_def ask_def)
  with handle_data_packet_refines [OF demo_child_represents, of "packet_bytes 3 FLAG_DATA [9]", unfolded n]
  show ?thesis by (simp add: demo_world_def)
qed

section \<open>Packets in any order\<close>

text \<open>The numbers of \<open>S\<close> have arrived: all below the next one, none at it, the rest waits.\<close>

definition has_got :: "bytes list \<Rightarrow> nat set \<Rightarrow> receiver \<Rightarrow> bool" where
  "has_got cs S r \<longleftrightarrow> S \<subseteq> {2..<2 + length cs} \<and>
    (\<exists>k. rc_next r = 2 + k \<and> {2..<2 + k} \<subseteq> S \<and> 2 + k \<notin> S \<and>
      rc_wait r = (\<lambda>m. if m \<in> S \<and> 2 + k \<le> m then Some (cs ! (m - 2)) else None) \<and>
      rc_out r = concat (take k cs))"

lemma subset_bound: "S \<subseteq> {2..<2 + n} \<Longrightarrow> {2..<2 + k} \<subseteq> S \<Longrightarrow> k \<le> (n :: nat)"
  using card_mono [of "{2..<2 + n}" "{2..<2 + k}"] by (metis add_diff_cancel_left' card_atLeastLessThan finite_atLeastLessThan subset_trans)

lemma has_got_asked: "has_got cs S (fst (ask r)) \<longleftrightarrow> has_got cs S r" "has_got cs S (r\<lparr>rc_asked := a\<rparr>) \<longleftrightarrow> has_got cs S r"
  by (simp_all add: has_got_def ask_def)

text \<open>The next number has arrived as well: everything that follows it without a gap is written.\<close>

lemma has_got_deliver:
  assumes S: "S \<subseteq> {2..<2 + length cs}" "{2..<2 + k} \<subseteq> S" and ws: "length cs \<le> ws"
    and r: "rc_next r = 2 + k" "rc_wait r = (\<lambda>m. if m \<in> S \<and> 2 + k \<le> m then Some (cs ! (m - 2)) else None)"
      "rc_out r = concat (take k cs)"
  shows "has_got cs S (deliver ws r)"
proof -
  let ?n = "2 + k"
  have "?n + length cs \<notin> S" using S(1) by auto
  then have ex: "?n + (LEAST j. ?n + j \<notin> S) \<notin> S" by (rule LeastI)
  define j where "j = (LEAST j. ?n + j \<notin> S)"
  have j: "?n + j \<notin> S" "\<And>i. i < j \<Longrightarrow> ?n + i \<in> S" using ex not_less_Least [of _ "\<lambda>j. ?n + j \<notin> S"] by (auto simp: j_def)
  have kj: "k + j \<le> length cs"
  proof (rule ccontr)
    assume "\<not> k + j \<le> length cs"
    then have "(2 + (k + j - 1)) \<in> S" using j(2) [of "j - 1"] S(2) by (cases j) auto
    with S(1) \<open>\<not> k + j \<le> length cs\<close> show False by auto
  qed
  have run: "run_from (rc_wait r) (rc_next r) j" using j by (simp add: run_from_def r)
  have "take (k + j) cs = take k cs @ map (\<lambda>i. cs ! (k + i)) [0..<j]"
    using kj by (intro nth_equalityI) (auto simp: nth_append)
  moreover have "map (\<lambda>i. the (rc_wait r (rc_next r + i))) [0..<j] = map (\<lambda>i. cs ! (k + i)) [0..<j]"
    using j(2) by (auto simp: r)
  ultimately have out: "concat (take k cs) @ concat (map (\<lambda>i. the (rc_wait r (rc_next r + i))) [0..<j]) = concat (take (k + j) cs)"
    by (simp only: concat_append)
  have sub: "{2..<2 + (k + j)} \<subseteq> S"
  proof
    fix m assume m: "m \<in> {2..<2 + (k + j)}"
    show "m \<in> S"
    proof (cases "m < ?n")
      case False
      then obtain i where "m = ?n + i" by (metis le_iff_add not_less)
      with m j(2) [of i] show ?thesis by simp
    qed (use m S(2) in auto)
  qed
  have wait: "(\<lambda>n. if rc_next r \<le> n \<and> n < rc_next r + j then None else rc_wait r n) =
      (\<lambda>m. if m \<in> S \<and> 2 + (k + j) \<le> m then Some (cs ! (m - 2)) else None)"
    by (rule ext) (auto simp: r)
  show ?thesis
    unfolding deliver_run [OF run, of ws, OF order_trans [OF add_leD2 [OF kj] ws]] has_got_def
    using S(1) sub j(1) out wait by (intro conjI exI [of _ "k + j"]) (simp_all add: r)
qed

lemma has_got_receive:
  assumes g: "has_got cs S r" and n: "n \<in> {2..<2 + length cs}"
    and ws: "length cs \<le> ws" "2 + length cs + ws < 4294967296"
  shows "has_got cs (insert n S) (fst (receive ws n (cs ! (n - 2)) r))"
proof -
  obtain k where k: "S \<subseteq> {2..<2 + length cs}" "rc_next r = 2 + k" "{2..<2 + k} \<subseteq> S" "2 + k \<notin> S"
    "rc_wait r = (\<lambda>m. if m \<in> S \<and> 2 + k \<le> m then Some (cs ! (m - 2)) else None)" "rc_out r = concat (take k cs)"
    using g unfolding has_got_def by blast
  have kl: "k \<le> length cs" by (rule subset_bound [OF k(1,3)])
  show ?thesis
  proof (cases "n < 2 + k")
    case True
    then have "n \<in> S" using k(3) n by auto
    with g True k(2) show ?thesis by (simp add: receive_def insert_absorb)
  next
    case False
    define x where "x = (if rc_wait r n = None then r\<lparr>rc_wait := (rc_wait r)(n \<mapsto> cs ! (n - 2))\<rparr> else r)"
    have r: "rc_next x = 2 + k" "rc_out x = concat (take k cs)"
      "rc_wait x = (\<lambda>m. if m \<in> insert n S \<and> 2 + k \<le> m then Some (cs ! (m - 2)) else None)"
      using False by (auto simp: k x_def)
    have S: "insert n S \<subseteq> {2..<2 + length cs}" "{2..<2 + k} \<subseteq> insert n S" using k(1,3) n by auto
    have d: "has_got cs (insert n S) (deliver ws x)" "has_got cs (insert n S) (deliver ws (x\<lparr>rc_asked := None\<rparr>))"
      by (rule has_got_deliver [OF S ws(1)]; simp add: r)+
    have "\<not> (n < rc_next r \<or> rc_next r + ws \<le> n \<or> 4294967296 \<le> rc_next r + ws)"
      using False k(2) n ws kl by auto
    then have rec: "receive ws n (cs ! (n - 2)) r = (if n = rc_next x
        then settle ws (if rc_asked x = Some n then x\<lparr>rc_asked := None\<rparr> else x) else ask x)"
      unfolding receive_def Let_def x_def by (simp only: if_False)
    show ?thesis
    proof (cases "n = rc_next x")
      case True
      have "has_got cs (insert n S) (fst (settle ws y))" if "has_got cs (insert n S) (deliver ws y)" for y
        using that by (simp add: settle_def Let_def has_got_asked)
      with True d show ?thesis unfolding rec by simp
    next
      case False
      have "has_got cs (insert n S) x"
        unfolding has_got_def using S r False k(4) by (intro conjI exI [of _ k]) simp_all
      with False show ?thesis unfolding rec by (simp only: if_False has_got_asked)
    qed
  qed
qed

lemma packet_number_data:
  assumes cs: "chunks_ok cs" and k: "k < length cs"
  shows "packet_number (data_packet cs k) = 2 + k"
proof -
  have "length (cs ! k) \<le> SREJ_MAX_DATA" and b: "2 + k < 4294967296" using cs k by (auto simp: chunks_ok_def)
  then have f: "fits (cs ! k)" by simp
  show ?thesis
    unfolding data_packet_def packet_number_def get_seq_packet_bytes [OF f] sum.case by (rule unat_word_of_nat_u32 [OF b])
qed

text \<open>A child handed one data packet after another.\<close>

fun handle_all :: "ServerInfo \<Rightarrow> bytes list \<Rightarrow> ServerInfo sys" where
  "handle_all info [] = ret info"
| "handle_all info (p # ps) = iobind (handle_data_packet info p (int (length p))) (\<lambda>info. handle_all info ps)"

lemma post_handle_all:
  assumes cs: "chunks_ok cs" and ps: "set ps \<subseteq> data_packet cs ` {..<length cs}"
    and ws: "length cs \<le> ws" "2 + length cs + ws < 4294967296"
    and r: "represents ws r info w" "has_got cs S r" "sends w = []"
  shows "post (handle_all info ps) w (\<lambda>info' w'. \<exists>r'. represents ws r' info' w' \<and>
    has_got cs (S \<union> packet_number ` set ps) r') (\<lambda>_. False)"
  using ps r
proof (induction ps arbitrary: r info w S)
  case Nil
  then show ?case by auto
next
  case (Cons p ps)
  obtain k where k: "k < length cs" "p = data_packet cs k" using Cons.prems(1) by auto
  have kc: "length (cs ! k) \<le> SREJ_MAX_DATA" "2 + k < 4294967296" using cs k(1) by (auto simp: chunks_ok_def)
  have n: "packet_number p = 2 + k" "drop 7 p = cs ! k"
    using kc packet_number_data [OF cs k(1)] by (simp_all add: k(2) data_packet_def)
  have len: "7 \<le> length p" "length p \<le> SREJ_MAX_PACKET" using length_data_packet [OF cs k(1)] k(2) by simp_all
  have got: "has_got cs (insert (packet_number p) S) (fst (receive ws (packet_number p) (drop 7 p) r))"
    using has_got_receive [OF Cons.prems(3) _ ws, of "packet_number p"] k(1) by (simp add: n)
  have "post (handle_data_packet info p (int (length p))) w
    (handled ws info w (receive ws (packet_number p) (drop 7 p) r)) (\<lambda>_. False)"
    by (rule post_mono [OF post_handled [OF Cons.prems(2) len]]) (use Cons.prems(4) in auto)
  then show ?case
    unfolding handle_all.simps
  proof (rule post_seq)
    fix info' w' assume "handled ws info w (receive ws (packet_number p) (drop 7 p) r) info' w'"
    then have "represents ws (fst (receive ws (packet_number p) (drop 7 p) r)) info' w'" "sends w' = []"
      using Cons.prems(4) by (simp_all add: handled_def)
    from Cons.IH [OF _ this(1) got this(2)] Cons.prems(1)
    show "post (handle_all info' ps) w' (\<lambda>info' w'. \<exists>r'. represents ws r' info' w' \<and>
      has_got cs (S \<union> packet_number ` set (p # ps)) r') (\<lambda>_. False)" by simp
  qed
qed

text \<open>C11: the data packets of a stream, handed to a child in any order and any number of times, as long as
  each comes once and the window covers the stream: the child handles them all without an exit
  or an undefined operation, and then the file holds the stream.\<close>

theorem any_order_delivery:
  assumes cs: "chunks_ok cs" and ps: "set ps = data_packet cs ` {..<length cs}"
    and ws: "length cs \<le> ws" "2 + length cs + ws < 2 ^ 32"
    and r: "represents ws \<lparr>rc_next = 2, rc_wait = (\<lambda>_. None), rc_asked = None, rc_out = []\<rparr> info w" and "sends w = []"
  shows "post (handle_all info ps) w (\<lambda>info' w'. out_data w' = concat cs \<and>
    buf_next (si_buffer info') = 2 + length cs) (\<lambda>_. False)"
proof -
  let ?r = "\<lparr>rc_next = 2, rc_wait = (\<lambda>_. None), rc_asked = None, rc_out = []\<rparr> :: receiver"
  have got: "has_got cs {} ?r" unfolding has_got_def by (intro conjI exI [of _ 0]) simp_all
  have w32: "2 + length cs + ws < 4294967296" using ws(2) by simp
  have "post (handle_all info ps) w (\<lambda>info' w'. \<exists>r'. represents ws r' info' w' \<and>
    has_got cs ({} \<union> packet_number ` set ps) r') (\<lambda>_. False)"
    by (rule post_handle_all [OF cs _ ws(1) w32 r got assms(6)]) (simp add: ps)
  then show ?thesis
  proof (rule post_mono)
    fix info' w'
    assume "\<exists>r'. represents ws r' info' w' \<and> has_got cs ({} \<union> packet_number ` set ps) r'"
    then obtain r' k where r': "represents ws r' info' w'" "packet_number ` set ps \<subseteq> {2..<2 + length cs}"
      "rc_next r' = 2 + k" "{2..<2 + k} \<subseteq> packet_number ` set ps" "2 + k \<notin> packet_number ` set ps"
      "rc_out r' = concat (take k cs)" unfolding has_got_def by auto
    have "2 + i \<in> packet_number ` set ps" if "i < length cs" for i
      using packet_number_data [OF cs that] that ps by force
    with r'(5) have "\<not> k < length cs" by blast
    moreover have "k \<le> length cs" by (rule subset_bound [OF r'(2,4)])
    ultimately have "k = length cs" by simp
    with r'(1,3,6) show "out_data w' = concat cs \<and> buf_next (si_buffer info') = 2 + length cs"
      by (simp add: represents_def Let_def)
  qed simp
qed

text \<open>Two chunks; the second comes first, and twice.\<close>

lemma any_order_delivery_witness:
  "post (handle_all demo_child [packet_bytes 3 FLAG_DATA [9], packet_bytes 2 FLAG_DATA [7, 8], packet_bytes 3 FLAG_DATA [9]])
    (demo_world [] []) (\<lambda>info' w'. out_data w' = [7, 8, 9]) (\<lambda>_. False)"
proof -
  let ?cs = "[[7, 8], [9]] :: bytes list"
  let ?ps = "[packet_bytes 3 FLAG_DATA [9], packet_bytes 2 FLAG_DATA [7, 8], packet_bytes 3 FLAG_DATA [9]]"
  have cs: "chunks_ok ?cs" by (simp add: chunks_ok_def)
  have "{..<length ?cs} = {0, 1}" by auto
  then have ps: "set ?ps = data_packet ?cs ` {..<length ?cs}" by (auto simp: data_packet_def)
  show ?thesis
    by (rule post_mono [OF any_order_delivery [OF cs ps _ _ demo_child_represents]]) (simp_all add: demo_world_def)
qed

end
