(* ===== verification/Sender.thy ===== *)
theory Sender
  imports Rcopy_Correct
begin

text \<open>
  What the client promises about acknowledgements and requests, without arrays and slots: an abstract
  sender over natural numbers and maps, and the proofs that \<open>process_controls\<close>, resent packet
  by resent packet, and \<open>wait_on_ack_state\<close> refine it. Last, what leftovers do to the final exchange.
\<close>

section \<open>The abstract sender\<close>

text \<open>The lowest number not acknowledged, the next number, the packets sent and not acknowledged.\<close>

record sender =
  sd_lower :: nat
  sd_next :: nat
  sd_held :: "nat \<Rightarrow> bytes option"

text \<open>What a datagram means to the client; \<open>Short\<close> is an RR or SREJ with no number in it.\<close>

datatype control = Acked nat | Wanted nat | Short | Other

definition control_of :: "bytes \<Rightarrow> control" where
  "control_of p =
    (case (check_packet p (int (length p)), get_flag p, read_u32 p 7) of
       (Inr True, Inr f, r) \<Rightarrow>
         if f = FLAG_RR then (case r of Inr n \<Rightarrow> Acked (unat n) | Inl _ \<Rightarrow> Short)
         else if f = FLAG_SREJ then (case r of Inr n \<Rightarrow> Wanted (unat n) | Inl _ \<Rightarrow> Short)
         else Other
     | _ \<Rightarrow> Other)"

text \<open>The sender after a datagram, and what it sends again.\<close>

definition hear :: "bytes \<Rightarrow> sender \<Rightarrow> sender \<times> bytes list" where
  "hear p s =
    (case control_of p of
       Acked n \<Rightarrow>
         (let lo = max (sd_lower s) (min n (sd_next s)) in
          (s\<lparr>sd_lower := lo, sd_held := (\<lambda>i. if lo \<le> i then sd_held s i else None)\<rparr>, []))
     | Wanted n \<Rightarrow> (s, case sd_held s n of Some q \<Rightarrow> [q] | None \<Rightarrow> [])
     | _ \<Rightarrow> (s, []))"

text \<open>A sequence of datagrams with their sources: what is sent again goes where the request came from.\<close>

fun heard :: "(addr \<times> bytes) list \<Rightarrow> sender \<Rightarrow> sender" where
  "heard [] s = s"
| "heard (x # xs) s = heard xs (fst (hear (snd x) s))"

fun resent :: "(addr \<times> bytes) list \<Rightarrow> sender \<Rightarrow> (addr \<times> bytes) list" where
  "resent [] s = []"
| "resent (x # xs) s = map (Pair (fst x)) (snd (hear (snd x) s)) @ resent xs (fst (hear (snd x) s))"

definition controls :: "(addr \<times> bytes) list \<Rightarrow> int" where
  "controls xs = int (length (filter (\<lambda>x. control_of (snd x) \<noteq> Other) xs))"

section \<open>What the client's window stands for\<close>

definition stands_for :: "Window \<Rightarrow> sender \<Rightarrow> bool" where
  "stands_for win s \<longleftrightarrow> win_inv win \<and> sd_lower s = win_lo win \<and> sd_next s = win_cur win \<and> sd_held s = win_pending win \<and>
    (\<forall>n p. sd_held s n = Some p \<longrightarrow> p \<noteq> [])"

text \<open>From \<open>info\<close> and \<open>w\<close> to \<open>info'\<close> and \<open>w'\<close> the datagrams \<open>xs\<close> were handled, and \<open>N\<close> is left.\<close>

definition heard_all :: "(addr \<times> bytes) list \<Rightarrow> net_event list \<Rightarrow> sender \<Rightarrow> RcopyInfo \<Rightarrow> world \<Rightarrow> RcopyInfo \<Rightarrow> world \<Rightarrow> bool" where
  "heard_all xs N s info w info' w' \<longleftrightarrow>
    stands_for (ri_window info') (heard xs s) \<and>
    info' = info\<lparr>ri_server := last (ri_server info # map fst xs), ri_window := ri_window info'\<rparr> \<and>
    sent w' = sent w @ resent xs s \<and> net w' = N \<and> socket_polled w' \<and> (sends w = [] \<longrightarrow> sends w' = [])"

text \<open>A datagram that has been received.\<close>

lemma control_of_cases:
  assumes "length p \<le> SREJ_MAX_PACKET"
  obtains "check_packet p (int (length p)) = Inr False" "control_of p = Other"
  | f where "check_packet p (int (length p)) = Inr True" "get_flag p = Inr f" "f \<noteq> FLAG_RR" "f \<noteq> FLAG_SREJ" "control_of p = Other"
  | f where "check_packet p (int (length p)) = Inr True" "get_flag p = Inr f" "f = FLAG_RR \<or> f = FLAG_SREJ" "length p < 11" "control_of p = Short"
  | n where "check_packet p (int (length p)) = Inr True" "get_flag p = Inr FLAG_RR" "11 \<le> length p" "read_u32 p 7 = Inr n" "control_of p = Acked (unat n)"
  | n where "check_packet p (int (length p)) = Inr True" "get_flag p = Inr FLAG_SREJ" "11 \<le> length p" "read_u32 p 7 = Inr n" "control_of p = Wanted (unat n)"
proof -
  have "int (length p) \<le> 65536" using assms by linarith
  then obtain b where b: "check_packet p (int (length p)) = Inr b" using check_packet_defined by blast
  show thesis
  proof (cases b)
    case True
    with b obtain f where f: "get_flag p = Inr f" using check_packet_True(4) [of p] by auto
    show thesis
    proof (cases "f = FLAG_RR \<or> f = FLAG_SREJ")
      case False
      then show thesis using that(2) [of f] b True f by (auto simp: control_of_def)
    next
      case fl: True
      show thesis
      proof (cases "length p < 11")
        case True
        then have "\<exists>h. read_u32 p 7 = Inl h" by (simp add: read_u32_def mem_read_def)
        then show thesis using that(3) [of f] b \<open>b\<close> f fl True by (auto simp: control_of_def)
      next
        case False
        then obtain n where "read_u32 p 7 = Inr n" using read_u32_11 [of p] by auto
        then show thesis using that(4) [of n] that(5) [of n] b \<open>b\<close> f fl False by (auto simp: control_of_def)
      qed
    qed
  next
    case False
    then show thesis using that(1) b by (simp add: control_of_def)
  qed
qed

lemma stands_for_rr:
  assumes s: "stands_for win s"
  obtains win' where "window_rr win n = Inr win'"
    "stands_for win' (s\<lparr>sd_lower := max (sd_lower s) (min (unat n) (sd_next s)),
      sd_held := (\<lambda>i. if max (sd_lower s) (min (unat n) (sd_next s)) \<le> i then sd_held s i else None)\<rparr>)"
proof -
  have i: "win_inv win" "sd_lower s = win_lo win" "sd_next s = win_cur win" "sd_held s = win_pending win"
    "\<forall>n p. sd_held s n = Some p \<longrightarrow> p \<noteq> []"
    using s by (simp_all add: stands_for_def)
  from window_rr_spec [OF i(1), of n] obtain win' where w: "window_rr win n = Inr win'" "win_inv win'"
    "win' = win\<lparr>win_entry := win_entry win', win_lower := win_lower win', win_upper := win_upper win'\<rparr>"
    "win_lo win' = max (win_lo win) (min (unat n) (win_cur win))"
    "\<forall>i. win_pending win' i = (if win_lo win' \<le> i then win_pending win i else None)" by blast
  have "win_current win' = win_current win" by (subst w(3), simp)
  moreover have "win_pending win' = (\<lambda>i. if max (sd_lower s) (min (unat n) (sd_next s)) \<le> i then sd_held s i else None)"
    using w(4,5) i by auto
  ultimately show thesis
    using that [OF w(1)] w(2,4) i by (auto simp: stands_for_def split: if_splits)
qed

lemma post_handle_reject_held:
  assumes s: "stands_for (ri_window info) s" and p: "11 \<le> length p" "read_u32 p 7 = Inr n"
    and P: "\<And>v. v = w\<lparr>sends := sends v, sent := sent w @ map (Pair (ri_server info))
        (case sd_held s (unat n) of Some q \<Rightarrow> [q] | None \<Rightarrow> [])\<rparr> \<Longrightarrow> (sends w = [] \<longrightarrow> sends v = []) \<Longrightarrow> P () v"
  shows "post (handle_reject info p (int (length p))) w P (\<lambda>_. sends w \<noteq> [])"
proof -
  have i: "win_shape (ri_window info)" "sd_held s = win_pending (ri_window info)" "\<And>k q. sd_held s k = Some q \<Longrightarrow> q \<noteq> []"
    using s by (simp_all add: stands_for_def win_inv_def)
  have h: "handle_reject info p (int (length p)) = iobind (lift_res (window_find (ri_window info) n))
      (\<lambda>entry. case entry of Some e \<Rightarrow> resend_packet info e | None \<Rightarrow> ret ())"
    using p by (simp add: handle_reject_def iobind_eqs)
  from i(1) show ?thesis
  proof (rule window_find_cases [of "ri_window info" n])
    assume "window_find (ri_window info) n = Inr None" "win_pending (ri_window info) (unat n) = None"
    then show ?thesis using P [of w] by (simp add: h iobind_eqs i(2))
  next
    fix e m
    assume f: "window_find (ri_window info) n = Inr (Some e)" "win_pending (ri_window info) (unat n) = Some m" "entry_packet e m"
    have "m \<noteq> []" using i(3) f(2) by (simp add: i(2))
    then have l: "0 < we_packet_len e" "we_packet_len e \<le> int (length (we_packet e))" "take (nat (we_packet_len e)) (we_packet e) = m"
      using f(3) by (auto simp: entry_packet_def not_less)
    have "post (resend_packet info e) w P (\<lambda>_. sends w \<noteq> [])"
      unfolding resend_packet_def
      by (rule post_safeSendto [OF l(1,2)]) (rule P, simp_all add: l(3) i(2) f(2))
    then show ?thesis by (simp add: h f(1) iobind_eqs)
  qed
qed

lemma heard_all_step:
  assumes "stands_for win (fst (hear p s))" and "net v = N" and "socket_polled v" and "sends w = [] \<longrightarrow> sends v = []"
    and "sent v = sent w @ map (Pair a) (snd (hear p s))"
  shows "heard_all [(a, p)] N s info w (info\<lparr>ri_server := a, ri_window := win\<rparr>) v"
  using assms by (simp add: heard_all_def)

lemma post_controls_turn_hear:
  assumes s: "stands_for (ri_window info) s" and w: "net w = Arrives (Datagram a m) # N" "socket_polled w"
    and p: "p = take SREJ_MAX_PACKET m"
  shows "post (controls_turn info) w (\<lambda>r v. heard_all [(a, p)] N s info w (fst r) v \<and>
    snd r = (control_of p \<noteq> Other)) (\<lambda>_. sends w \<noteq> [])"
proof -
  let ?i = "info\<lparr>ri_server := a\<rparr>" and ?v = "w\<lparr>net := N\<rparr>"
  let ?Q = "\<lambda>r v. heard_all [(a, p)] N s info w (fst r) v \<and> snd r = (control_of p \<noteq> Other)"
  have v: "net ?v = N" "socket_polled ?v" "sent ?v = sent w" "sends ?v = sends w" using w by simp_all
  have len: "length p \<le> SREJ_MAX_PACKET" by (simp add: p)
  have recv: "safeRecvfrom (int SREJ_MAX_PACKET) w = (Inr (a, p), ?v)"
    using w(1) by (simp add: safeRecvfrom_def sys_recvfrom_def iobind_def p)
  have stay: "heard_all [(a, p)] N s info w ?i u"
    if "fst (hear p s) = s" "net u = N" "socket_polled u" "sends w = [] \<longrightarrow> sends u = []"
      "sent u = sent w @ map (Pair a) (snd (hear p s))" for u
    using heard_all_step [of "ri_window info" p s u N w a info] s that by simp
  have same: "heard_all [(a, p)] N s info w ?i ?v" if "hear p s = (s, [])"
    by (rule stay) (use v that in simp_all)
  have "post (let info = info\<lparr>ri_server := a\<rparr>; packet_len = int (length p) in
      iobind (lift_res (check_packet p packet_len)) (\<lambda>ok.
        if \<not> ok then ret (info, False)
        else iobind (lift_res (get_flag p)) (\<lambda>flag.
          if flag = FLAG_RR then
            iobind (lift_res (handle_rr info p packet_len)) (\<lambda>info. ret (info, True))
          else if flag = FLAG_SREJ then
            iobind (handle_reject info p packet_len) (\<lambda>_. ret (info, True))
          else ret (info, False)))) ?v ?Q (\<lambda>_. sends w \<noteq> [])"
    using len
  proof (cases rule: control_of_cases)
    case 1
    then show ?thesis using same by (simp add: Let_def hear_def)
  next
    case (2 f)
    then show ?thesis using same by (simp add: Let_def hear_def)
  next
    case (3 f)
    then show ?thesis using same by (auto simp: Let_def hear_def handle_rr_def handle_reject_def)
  next
    case (4 n)
    obtain win' where win: "window_rr (ri_window info) n = Inr win'" "stands_for win' (fst (hear p s))"
      using stands_for_rr [OF s, of n] 4(5) by (auto simp: hear_def Let_def)
    have "heard_all [(a, p)] N s info w (?i\<lparr>ri_window := win'\<rparr>) ?v"
      using heard_all_step [OF win(2) v(1,2), of w a info] v(3,4) 4(5) by (simp add: hear_def Let_def)
    with 4 win(1) show ?thesis by (simp add: Let_def handle_rr_def)
  next
    case (5 n)
    have "post (handle_reject ?i p (int (length p))) ?v (\<lambda>_ u. heard_all [(a, p)] N s info w ?i u) (\<lambda>_. sends ?v \<noteq> [])"
    proof (rule post_handle_reject_held [of ?i s p n])
      fix u assume u: "u = ?v\<lparr>sends := sends u, sent := sent ?v @ map (Pair (ri_server ?i))
        (case sd_held s (unat n) of Some q \<Rightarrow> [q] | None \<Rightarrow> [])\<rparr>" "sends ?v = [] \<longrightarrow> sends u = []"
      have "net u = N" "sent u = sent w @ map (Pair a) (snd (hear p s))" "socket_polled u"
        by (subst u(1), use w(2) 5(5) in \<open>simp add: hear_def\<close>)+
      then show "heard_all [(a, p)] N s info w ?i u"
        using u(2) 5(5) by (intro stay) (simp_all add: hear_def)
    qed (use s 5 in simp_all)
    with 5 show ?thesis by (simp add: Let_def)
  qed
  then show ?thesis
    unfolding controls_turn_def
    by (subst post_iobind, subst post_from_eq [of "safeRecvfrom _", OF recv]) (simp del: post_iobind)
qed

section \<open>process_controls refines the abstract sender\<close>

lemma heard_all_then:
  assumes "heard_all [x] M s info w i v" and "heard_all xs N (heard [x] s) i v info' w'"
  shows "heard_all (x # xs) N s info w info' w'"
proof -
  have "i = info\<lparr>ri_server := fst x, ri_window := ri_window i\<rparr>" using assms(1) by (simp add: heard_all_def)
  then obtain W where i: "i = info\<lparr>ri_server := fst x, ri_window := W\<rparr>" by blast
  have "info' = i\<lparr>ri_server := last (ri_server i # map fst xs), ri_window := ri_window info'\<rparr>"
    using assms(2) by (simp add: heard_all_def)
  then obtain W' where i': "info' = i\<lparr>ri_server := last (ri_server i # map fst xs), ri_window := W'\<rparr>" by blast
  from assms show ?thesis by (simp add: heard_all_def i i')
qed

text \<open>Datagrams on the socket, and what is received of them.\<close>

definition incoming :: "(addr \<times> bytes) list \<Rightarrow> net_event list" where
  "incoming ms = map (\<lambda>x. Arrives (Datagram (fst x) (snd x))) ms"

definition cut :: "addr \<times> bytes \<Rightarrow> addr \<times> bytes" where
  "cut x = (fst x, take SREJ_MAX_PACKET (snd x))"

text \<open>The datagrams \<open>ms\<close> are there, and then nothing more: a quiet moment, or for ever.\<close>

definition waiting :: "(addr \<times> bytes) list \<Rightarrow> net_event list \<Rightarrow> world \<Rightarrow> bool" where
  "waiting ms N w \<longleftrightarrow> socket_polled w \<and> (net w = incoming ms @ Quiet # N \<or> net w = incoming ms \<and> N = [])"

lemma post_poll_waiting:
  assumes "waiting ms N w" and "ms \<noteq> [] \<or> 0 \<le> t"
  shows "post (pollCall t) w (\<lambda>k v. (0 \<le> k \<longleftrightarrow> ms \<noteq> []) \<and> (if ms = [] then socket_polled v \<and> net v = N else waiting ms N v) \<and>
    sent v = sent w \<and> sends v = sends w) (\<lambda>_. False)"
proof (cases ms)
  case Nil
  have "socket_polled (w\<lparr>net := N, pollFileDescriptors := polled w False\<rparr>)" if "socket_polled w"
    using that by (simp add: socket_polled_defs polled_nth nat_less_iff)
  with assms Nil show ?thesis
    using pollCall_quiet(1,2) [of w t] by (auto simp: post_def waiting_def incoming_def)
next
  case (Cons x xs)
  then obtain es where n: "net w = Arrives (Datagram (fst x) (snd x)) # es" "socket_polled w"
    using assms by (auto simp: waiting_def incoming_def)
  then obtain k where "pollCall t w = (Inr k, w\<lparr>pollFileDescriptors := polled w True\<rparr>)" "0 \<le> k"
    using pollCall_arrival [OF n(2,1)] by blast
  with assms Cons n(2) show ?thesis by (auto simp: post_def waiting_def)
qed

lemma post_controls_loop_hear:
  assumes "stands_for (ri_window info) s" and "0 \<le> ready \<longleftrightarrow> ms \<noteq> []"
    and "if ms = [] then socket_polled w \<and> net w = N else waiting ms N w"
  shows "post (controls_loop info ready c) w (\<lambda>r v. heard_all (map cut ms) N s info w (fst r) v \<and>
    snd r = c + controls (map cut ms)) (\<lambda>_. sends w \<noteq> [])"
  using assms
proof (induction ms arbitrary: info s ready c w)
  case Nil
  then show ?case
    by (simp add: post_def controls_loop.simps [of info ready c w] heard_all_def controls_def)
next
  case (Cons x xs)
  let ?Q = "\<lambda>r v. heard_all (map cut (x # xs)) N s info w (fst r) v \<and> snd r = c + controls (map cut (x # xs))"
  obtain M where M: "net w = Arrives (Datagram (fst x) (snd x)) # M" "socket_polled w"
    "M = incoming xs @ Quiet # N \<or> M = incoming xs \<and> N = []"
    using Cons.prems(3) by (auto simp: waiting_def incoming_def)
  note turn = post_controls_turn_hear [OF Cons.prems(1) M(1,2) refl]
  have "post (iobind (controls_turn info) (\<lambda>turn. iobind (pollCall POLL_NOW) (\<lambda>ready_socket.
      controls_loop (fst turn) ready_socket (if snd turn then c + 1 else c)))) w ?Q (\<lambda>_. sends w \<noteq> [])"
  proof (rule post_seq [OF turn])
    fix r v
    assume h: "heard_all [(fst x, take SREJ_MAX_PACKET (snd x))] M s info w (fst r) v \<and>
      snd r = (control_of (take SREJ_MAX_PACKET (snd x)) \<noteq> Other)"
    then have h1: "heard_all [cut x] M s info w (fst r) v" by (simp add: cut_def)
    then have v: "waiting xs N v" "stands_for (ri_window (fst r)) (heard [cut x] s)" "sends w = [] \<longrightarrow> sends v = []"
      using M(3) by (auto simp: heard_all_def waiting_def)
    show "post (iobind (pollCall POLL_NOW) (\<lambda>ready_socket.
      controls_loop (fst r) ready_socket (if snd r then c + 1 else c))) v ?Q (\<lambda>_. sends w \<noteq> [])"
    proof (rule post_seq)
      show "post (pollCall POLL_NOW) v (\<lambda>k u. (0 \<le> k \<longleftrightarrow> xs \<noteq> []) \<and>
        (if xs = [] then socket_polled u \<and> net u = N else waiting xs N u) \<and> sent u = sent v \<and> sends u = sends v)
        (\<lambda>_. sends w \<noteq> [])"
        by (rule post_mono [OF post_poll_waiting [OF v(1)]]) simp_all
      fix k :: int and u
      assume u: "(0 \<le> k \<longleftrightarrow> xs \<noteq> []) \<and> (if xs = [] then socket_polled u \<and> net u = N else waiting xs N u) \<and>
        sent u = sent v \<and> sends u = sends v"
      have "post (controls_loop (fst r) k (if snd r then c + 1 else c)) u
        (\<lambda>y z. heard_all (map cut xs) N (heard [cut x] s) (fst r) u (fst y) z \<and>
          snd y = (if snd r then c + 1 else c) + controls (map cut xs)) (\<lambda>_. sends u \<noteq> [])"
        by (rule Cons.IH [OF v(2)]) (use u in auto)
      then show "post (controls_loop (fst r) k (if snd r then c + 1 else c)) u ?Q (\<lambda>_. sends w \<noteq> [])"
      proof (rule post_mono)
        fix y z
        assume y: "heard_all (map cut xs) N (heard [cut x] s) (fst r) u (fst y) z \<and>
          snd y = (if snd r then c + 1 else c) + controls (map cut xs)"
        then have "heard_all (map cut xs) N (heard [cut x] s) (fst r) v (fst y) z"
          using u by (simp add: heard_all_def)
        from heard_all_then [OF h1 this] y h
        show "heard_all (map cut (x # xs)) N s info w (fst y) z \<and> snd y = c + controls (map cut (x # xs))"
          by (simp add: controls_def cut_def)
      next
        fix z assume "sends u \<noteq> []"
        with u v(3) show "sends w \<noteq> []" by auto
      qed
    qed
  qed
  then show ?case
    using Cons.prems(2) by (simp add: post_def controls_loop.simps [of info ready c w])
qed

lemma post_process_controls_hear:
  assumes "stands_for (ri_window info) s" and "waiting ms N w" and "ms \<noteq> [] \<or> 0 \<le> t"
  shows "post (process_controls info t) w (\<lambda>r v. heard_all (map cut ms) N s info w (fst r) v \<and>
    snd r = controls (map cut ms)) (\<lambda>_. sends w \<noteq> [])"
  unfolding process_controls_def
proof (rule post_seq)
  show "post (pollCall t) w (\<lambda>k v. (0 \<le> k \<longleftrightarrow> ms \<noteq> []) \<and> (if ms = [] then socket_polled v \<and> net v = N else waiting ms N v) \<and>
    sent v = sent w \<and> sends v = sends w) (\<lambda>_. sends w \<noteq> [])"
    by (rule post_mono [OF post_poll_waiting [OF assms(2,3)]]) simp_all
  fix k :: int and v
  assume v: "(0 \<le> k \<longleftrightarrow> ms \<noteq> []) \<and> (if ms = [] then socket_polled v \<and> net v = N else waiting ms N v) \<and>
    sent v = sent w \<and> sends v = sends w"
  have "post (controls_loop info k 0) v (\<lambda>r u. heard_all (map cut ms) N s info v (fst r) u \<and>
    snd r = 0 + controls (map cut ms)) (\<lambda>_. sends v \<noteq> [])"
    by (rule post_controls_loop_hear [OF assms(1)]) (use v in auto)
  then show "post (controls_loop info k 0) v (\<lambda>r u. heard_all (map cut ms) N s info w (fst r) u \<and>
    snd r = controls (map cut ms)) (\<lambda>_. sends w \<noteq> [])"
    by (rule post_mono) (use v in \<open>simp_all add: heard_all_def\<close>)
qed

text \<open>C12: the client's handling of what waits on its socket refines the abstract sender: it takes every
  datagram up to the next quiet moment, counts the control packets among them, resends exactly the
  packets that intact requests ask for and it still holds, in order and to where the request came
  from, releases what intact acknowledgements cover, and returns unless a send fails. Called with nothing
  on the socket it needs a timeout, as it has in the code: \<open>pollCall (-1)\<close> would wait on.\<close>

theorem process_controls_refines:
  assumes "stands_for (ri_window info) s" and "waiting ms N w" and "ms \<noteq> [] \<or> 0 \<le> t"
  shows "post (process_controls info t) w (\<lambda>r v. heard_all (map cut ms) N s info w (fst r) v \<and>
    snd r = controls (map cut ms)) (\<lambda>_. sends w \<noteq> [])"
  by (rule post_process_controls_hear [OF assms])

text \<open>A request for packet 4 and an acknowledgement of everything below 5.\<close>

lemma process_controls_refines_witness:
  "post (process_controls (zero_RcopyInfo\<lparr>ri_window := demo_window\<rparr>) POLL_NOW)
    (demo_world (incoming [((1, 9), packet_bytes 1 FLAG_SREJ (be_bytes32 4)), ((1, 8), packet_bytes 2 FLAG_RR (be_bytes32 5))]) []
      \<lparr>pollFileDescriptors := [\<lparr>p_fd = 0, p_events = POLLIN, p_revents = 0\<rparr>], maxFileDescriptor := 1\<rparr>)
    (\<lambda>r v. sent v = [((1, 9), [7, 8])] \<and> win_pending (ri_window (fst r)) 4 = None \<and> snd r = 2) (\<lambda>_. False)"
proof -
  let ?s = "\<lparr>sd_lower = 3, sd_next = 6, sd_held = win_pending demo_window\<rparr>" and ?p = "packet_bytes 1 FLAG_SREJ (be_bytes32 4)"
    and ?q = "packet_bytes 2 FLAG_RR (be_bytes32 5)"
  let ?ms = "[((1, 9), ?p), ((1, 8), ?q)]" and ?i = "zero_RcopyInfo\<lparr>ri_window := demo_window\<rparr>"
  let ?w = "demo_world (incoming ?ms) []\<lparr>pollFileDescriptors := [\<lparr>p_fd = 0, p_events = POLLIN, p_revents = 0\<rparr>], maxFileDescriptor := 1\<rparr>"
  have e: "win_lower demo_window = 3" "win_current demo_window = 6" by (simp_all add: demo_window_def)
  have s: "stands_for (ri_window ?i) ?s"
    using demo_window_inv by (auto simp: stands_for_def e demo_window_pending split: if_splits)
  have w: "waiting ?ms [] ?w" by (simp add: waiting_def socket_polled_defs demo_world_def)
  have c: "map cut ?ms = ?ms" by (simp add: cut_def)
  have k: "control_of ?p = Wanted 4" "control_of ?q = Acked 5"
    using check_packet_bytes [of "be_bytes32 4" 1 FLAG_SREJ] check_packet_bytes [of "be_bytes32 5" 2 FLAG_RR]
    by (simp_all add: control_of_def read_u32_packet_bytes)
  have "resent ?ms ?s = [((1, 9), [7, 8])]" "sd_held (heard ?ms ?s) 4 = None" "controls ?ms = 2"
    by (simp_all add: hear_def k Let_def demo_window_pending controls_def)
  then show ?thesis
    by (intro post_mono [OF process_controls_refines [OF s w, unfolded c]])
      (auto simp: heard_all_def stands_for_def demo_world_def)
qed

section \<open>Waiting for acknowledgements\<close>

lemma controls_none: "controls xs = 0 \<Longrightarrow> heard xs s = s \<and> resent xs s = []"
  by (induction xs) (auto simp: controls_def hear_def split: if_splits)

lemma controls_nonneg: "0 \<le> controls xs"
  by (simp add: controls_def)

text \<open>The turn of a client that \<open>xs\<close> were heard by: a control packet sends it back to sending; after a second
  without one the oldest packet that is held goes out again, nine times, and then the client gives up.\<close>

definition waited :: "(addr \<times> bytes) list \<Rightarrow> sender \<Rightarrow> RcopyInfo \<Rightarrow> world \<Rightarrow> STATE \<times> RcopyInfo \<Rightarrow> world \<Rightarrow> bool" where
  "waited xs s info w r v \<longleftrightarrow>
    stands_for (ri_window (snd r)) (heard xs s) \<and>
    (if 0 < controls xs then fst r = SEND_DATA \<and> ri_retry_count (snd r) = 0 \<and> sent v = sent w @ resent xs s
     else if sd_lower s = sd_next s then fst r = SEND_DATA \<and> sent v = sent w
     else ri_retry_count (snd r) = ri_retry_count info + 1 \<and>
       (if ri_retry_count info + 1 < MAX_TRIES
        then fst r = WAIT_ON_ACK \<and> (\<exists>q. sd_held s (sd_lower s) = Some q \<and> sent v = sent w @ [(ri_server (snd r), q)])
        else fst r = DONE \<and> ri_had_error (snd r) = 1 \<and> sent v = sent w))"

lemma window_lowest_held:
  assumes "stands_for win s"
  shows "if sd_lower s = sd_next s then window_lowest win = Inr None
    else \<exists>e q. window_lowest win = Inr (Some e) \<and> sd_held s (sd_lower s) = Some q \<and> q \<noteq> [] \<and> entry_packet e q"
proof -
  have i: "win_inv win" "sd_lower s = win_lo win" "sd_next s = win_cur win" "sd_held s = win_pending win"
    "\<forall>n p. sd_held s n = Some p \<longrightarrow> p \<noteq> []"
    using assms by (simp_all add: stands_for_def)
  show ?thesis
  proof (cases "win_lower win = win_current win")
    case True
    then show ?thesis by (simp add: i(2,3) window_lowest_def lowest_loop.simps [of win "win_current win"])
  next
    case False
    with window_lowest_spec [OF i(1)] obtain e m where "window_lowest win = Inr (Some e)"
      "win_pending win (win_lo win) = Some m" "entry_packet e m" by blast
    with i False show ?thesis by (auto simp: word_unat_eq_iff)
  qed
qed

lemma post_resend_held:
  assumes "entry_packet e q" and "q \<noteq> []"
    and "\<And>v. v = w\<lparr>sends := sends v, sent := sent w @ [(ri_server info, q)]\<rparr> \<Longrightarrow> P () v"
  shows "post (resend_packet info e) w P (\<lambda>_. sends w \<noteq> [])"
proof -
  have l: "0 < we_packet_len e" "we_packet_len e \<le> int (length (we_packet e))" "take (nat (we_packet_len e)) (we_packet e) = q"
    using assms(1,2) by (auto simp: entry_packet_def not_less)
  show ?thesis
    unfolding resend_packet_def by (rule post_safeSendto [OF l(1,2)]) (rule assms(3), simp_all add: l(3))
qed

lemma post_nothing_heard:
  assumes i: "stands_for (ri_window i) s" "ri_retry_count i = ri_retry_count info"
    and v: "sent v = sent w" "net v = N" "sends w = [] \<longrightarrow> sends v = []" and c: "controls xs = 0"
  shows "post (iobind (lift_res (window_lowest (ri_window i))) (\<lambda>entry.
        case entry of
          None \<Rightarrow> ret (SEND_DATA, i)
        | Some e \<Rightarrow>
            let info = i\<lparr>ri_retry_count := ri_retry_count i + 1\<rparr> in
            if ri_retry_count info \<ge> MAX_TRIES then ret (DONE, info\<lparr>ri_had_error := 1\<rparr>)
            else iobind (resend_packet info e) (\<lambda>_. ret (WAIT_ON_ACK, info)))) v
    (\<lambda>r v. waited xs s info w r v \<and> net v = N) (\<lambda>_. sends w \<noteq> [])"
proof (cases "sd_lower s = sd_next s")
  case True
  with window_lowest_held [OF i(1)] i v c show ?thesis by (simp add: waited_def controls_none)
next
  case False
  with window_lowest_held [OF i(1)] obtain e q where e: "window_lowest (ri_window i) = Inr (Some e)"
    "sd_held s (sd_lower s) = Some q" "q \<noteq> []" "entry_packet e q" by auto
  let ?i = "i\<lparr>ri_retry_count := ri_retry_count i + 1\<rparr>"
  have "post (resend_packet ?i e) v (\<lambda>_ u. sent u = sent v @ [(ri_server ?i, q)] \<and> net u = net v) (\<lambda>_. sends w \<noteq> [])"
    by (rule post_mono [OF post_resend_held [OF e(4,3), where P = "\<lambda>_ u. sent u = sent v @ [(ri_server ?i, q)] \<and> net u = net v"]])
      (use v(3) in \<open>auto dest: arg_cong [of _ _ sent] arg_cong [of _ _ net]\<close>)
  then have "post (iobind (resend_packet ?i e) (\<lambda>_. ret (WAIT_ON_ACK, ?i))) v
      (\<lambda>r v. waited xs s info w r v \<and> net v = N) (\<lambda>_. sends w \<noteq> [])" if "ri_retry_count info + 1 < MAX_TRIES"
    by (rule post_seq) (use that False i v e(2) c in \<open>simp add: waited_def controls_none\<close>)
  then show ?thesis
    unfolding e(1) iobind_eqs option.case Let_def
    by (cases "ri_retry_count info + 1 < MAX_TRIES")
      (use False i v c in \<open>simp_all add: waited_def controls_none del: post_iobind\<close>)
qed

text \<open>C13: waiting for acknowledgements refines the abstract sender: a control packet within the second sends the
  client back to sending, with the retry counter cleared; without one it sends exactly the oldest packet
  not acknowledged again, and gives up with an error at the tenth time in a row.\<close>

theorem wait_on_ack_refines:
  assumes "stands_for (ri_window info) s" and "waiting ms N w"
  shows "post (wait_on_ack_state info) w (\<lambda>r v. waited (map cut ms) s info w r v \<and> net v = N) (\<lambda>_. sends w \<noteq> [])"
  unfolding wait_on_ack_state_def
proof (rule post_seq [OF post_process_controls_hear [OF assms disjI2 [OF zero_le_numeral]]])
  fix r :: "RcopyInfo \<times> int" and v
  let ?xs = "map cut ms"
  assume h: "heard_all ?xs N s info w (fst r) v \<and> snd r = controls ?xs"
  obtain i where r: "r = (i, controls ?xs)" using h by (cases r) simp
  from h r have i: "stands_for (ri_window i) (heard ?xs s)" "sent v = sent w @ resent ?xs s" "net v = N"
    "ri_retry_count i = ri_retry_count info" "sends w = [] \<longrightarrow> sends v = []"
    unfolding heard_all_def by (auto dest: arg_cong [of _ _ ri_retry_count])
  show "post (case r of (i, got_control) \<Rightarrow>
      if got_control > 0 then ret (SEND_DATA, i\<lparr>ri_retry_count := 0\<rparr>)
      else iobind (lift_res (window_lowest (ri_window i))) (\<lambda>entry.
        case entry of
          None \<Rightarrow> ret (SEND_DATA, i)
        | Some e \<Rightarrow>
            let info = i\<lparr>ri_retry_count := ri_retry_count i + 1\<rparr> in
            if ri_retry_count info \<ge> MAX_TRIES then ret (DONE, info\<lparr>ri_had_error := 1\<rparr>)
            else iobind (resend_packet info e) (\<lambda>_. ret (WAIT_ON_ACK, info)))) v
      (\<lambda>r v. waited ?xs s info w r v \<and> net v = N) (\<lambda>_. sends w \<noteq> [])"
  proof (cases "0 < controls ?xs")
    case True
    with i show ?thesis by (simp add: r waited_def)
  next
    case False
    then have c: "controls ?xs = 0" using controls_nonneg [of ?xs] by linarith
    show ?thesis
      unfolding r prod.case if_not_P [OF False]
      by (rule post_nothing_heard [OF _ i(4) _ i(3,5) c]) (use i controls_none [OF c] in simp_all)
  qed
qed

text \<open>The ninth quiet second: the oldest packet, number 3, goes out again.\<close>

lemma wait_on_ack_refines_witness:
  "post (wait_on_ack_state (zero_RcopyInfo\<lparr>ri_window := demo_window, ri_server := (1, 7), ri_retry_count := 8\<rparr>))
    (demo_world [Quiet] []\<lparr>pollFileDescriptors := [\<lparr>p_fd = 0, p_events = POLLIN, p_revents = 0\<rparr>], maxFileDescriptor := 1\<rparr>)
    (\<lambda>r v. fst r = WAIT_ON_ACK \<and> map snd (sent v) = [[6]] \<and> net v = []) (\<lambda>_. False)"
proof -
  let ?s = "\<lparr>sd_lower = 3, sd_next = 6, sd_held = win_pending demo_window\<rparr>"
  let ?i = "zero_RcopyInfo\<lparr>ri_window := demo_window, ri_server := (1, 7), ri_retry_count := 8\<rparr>"
  let ?w = "demo_world [Quiet] []\<lparr>pollFileDescriptors := [\<lparr>p_fd = 0, p_events = POLLIN, p_revents = 0\<rparr>], maxFileDescriptor := 1\<rparr>"
  have e: "win_lower demo_window = 3" "win_current demo_window = 6" by (simp_all add: demo_window_def)
  have s: "stands_for (ri_window ?i) ?s"
    using demo_window_inv by (auto simp: stands_for_def e demo_window_pending split: if_splits)
  have w: "waiting [] [] ?w" by (simp add: waiting_def socket_polled_defs demo_world_def incoming_def)
  show ?thesis
    by (rule post_mono [OF wait_on_ack_refines [OF s w]])
      (simp_all add: waited_def controls_def demo_window_pending demo_world_def)
qed

section \<open>What is left on the socket at the end\<close>

text \<open>
  The loops for the filename response and for the EOF acknowledgement count a try for every datagram
  that is not the answer, not only for every timeout.
\<close>

definition acknowledges_eof :: "bytes \<Rightarrow> bool" where
  "acknowledges_eof p \<longleftrightarrow> check_packet p (int (length p)) = Inr True \<and> get_flag p = Inr FLAG_EOF_ACK"

lemma post_receive_next:
  assumes w: "socket_polled w" "net w = Arrives (Datagram a m) # N"
    and Q: "\<And>v. socket_polled v \<Longrightarrow> net v = N \<Longrightarrow> sends v = sends w \<Longrightarrow> post (g (a, take SREJ_MAX_PACKET m)) v P E"
  shows "post (iobind (pollCall t) (\<lambda>ready. if ready < 0 then q else iobind (safeRecvfrom (int SREJ_MAX_PACKET)) g)) w P E"
proof -
  obtain k where k: "pollCall t w = (Inr k, w\<lparr>pollFileDescriptors := polled w True\<rparr>)" "0 \<le> k"
    using pollCall_arrival [OF w] by blast
  let ?v = "w\<lparr>pollFileDescriptors := polled w True\<rparr>"
  have "safeRecvfrom (int SREJ_MAX_PACKET) ?v = (Inr (a, take SREJ_MAX_PACKET m), ?v\<lparr>net := N\<rparr>)"
    using w(2) by (simp add: safeRecvfrom_def sys_recvfrom_def iobind_def)
  moreover have "socket_polled (?v\<lparr>net := N\<rparr>)"
    using w(1) by (simp add: socket_polled_defs polled_nth nat_less_iff)
  ultimately show ?thesis
    using Q [of "?v\<lparr>net := N\<rparr>"] k by (simp add: post_from_eq [of "pollCall t", OF k(1)] post_from_eq [of "safeRecvfrom _"])
qed

lemma post_eof_loop_stale:
  assumes "socket_polled w" and "net w = incoming ms @ N" and "int (length ms) + tries = MAX_TRIES"
    and "\<forall>x \<in> set ms. \<not> acknowledges_eof (snd (cut x))"
    and p: "0 < n" "n \<le> int (length packet)"
  shows "post (send_eof_loop info packet n tries) w
    (\<lambda>r v. fst r = DONE \<and> ri_had_error (snd r) = 1 \<and> net v = N) (\<lambda>_. sends w \<noteq> [])"
  using assms(1-4)
proof (induction ms arbitrary: info tries w)
  case Nil
  then show ?case by (simp add: send_eof_loop.simps [of info packet n 10] incoming_def)
next
  case (Cons x xs)
  let ?m = "take SREJ_MAX_PACKET (snd x)" and ?Q = "\<lambda>r v. fst r = DONE \<and> ri_had_error (snd r) = 1 \<and> net v = N"
  have t: "tries < MAX_TRIES" using Cons.prems(3) by simp
  have "int (length ?m) \<le> 65536" by simp
  then obtain ok where ok: "check_packet ?m (int (length ?m)) = Inr ok" using check_packet_defined by blast
  show ?case
    unfolding send_eof_loop.simps [of info packet n tries] if_P [OF t]
  proof (rule post_seq)
    show "post (safeSendto packet n (ri_server info)) w
      (\<lambda>_ v. socket_polled v \<and> net v = incoming (x # xs) @ N \<and> (sends w = [] \<longrightarrow> sends v = [])) (\<lambda>_. sends w \<noteq> [])"
      by (rule post_safeSendto [OF p]) (use Cons.prems in \<open>simp_all add: socket_polled_defs\<close>)
  next
    fix y v assume v: "socket_polled v \<and> net v = incoming (x # xs) @ N \<and> (sends w = [] \<longrightarrow> sends v = [])"
    show "post (iobind (pollCall POLL_ONE_SEC) (\<lambda>ready.
         if ready < 0 then send_eof_loop info packet n (tries + 1)
         else iobind (safeRecvfrom (int SREJ_MAX_PACKET)) (\<lambda>(server, in_packet).
           let info = info\<lparr>ri_server := server\<rparr> in
           iobind (lift_res (check_packet in_packet (int (length in_packet)))) (\<lambda>ok.
           iobind (if ok then lift_res (get_flag in_packet) else ret 0) (\<lambda>flag.
             if ok \<and> flag = FLAG_EOF_ACK then iobind (send_final_done info) (\<lambda>_. ret (DONE, info))
             else send_eof_loop info packet n (tries + 1)))))) v ?Q (\<lambda>_. sends w \<noteq> [])"
    proof (rule post_receive_next [of v "fst x" "snd x" "incoming xs @ N"])
      fix u assume u: "socket_polled u" "net u = incoming xs @ N" "sends u = sends v"
      have again: "post (send_eof_loop i packet n (tries + 1)) u ?Q (\<lambda>_. sends w \<noteq> [])" for i
        by (rule post_mono [OF Cons.IH [OF u(1,2)]]) (use Cons.prems u(3) v in auto)
      show "post (case (fst x, ?m) of (server, in_packet) \<Rightarrow>
           let info = info\<lparr>ri_server := server\<rparr> in
           iobind (lift_res (check_packet in_packet (int (length in_packet)))) (\<lambda>ok.
           iobind (if ok then lift_res (get_flag in_packet) else ret 0) (\<lambda>flag.
             if ok \<and> flag = FLAG_EOF_ACK then iobind (send_final_done info) (\<lambda>_. ret (DONE, info))
             else send_eof_loop info packet n (tries + 1)))) u ?Q (\<lambda>_. sends w \<noteq> [])"
      proof (cases ok)
        case True
        with ok obtain f where f: "get_flag ?m = Inr f" using check_packet_True(4) [of ?m] by auto
        with ok True Cons.prems(4) have "f \<noteq> FLAG_EOF_ACK" by (auto simp: acknowledges_eof_def cut_def)
        with ok True f again show ?thesis by (simp add: Let_def)
      next
        case False
        with ok again show ?thesis by (simp add: Let_def)
      qed
    qed (use v in \<open>simp_all add: incoming_def\<close>)
  qed
qed

text \<open>C38: ten datagrams left over from the transfer, such as acknowledgements that were repeated, end it
  with an error although the whole file has been acknowledged: each uses up a try of the loop that
  waits for the acknowledgement of EOF, and what arrives after them is not looked at.\<close>

theorem stale_packets_use_up_tries:
  assumes "socket_polled w" and "net w = incoming ms @ N" and "length ms = 10"
    and "\<forall>x \<in> set ms. \<not> acknowledges_eof (snd (cut x))"
  shows "post (send_eof_state info) w (\<lambda>r v. fst r = DONE \<and> ri_had_error (snd r) = 1 \<and> net v = N) (\<lambda>_. sends w \<noteq> [])"
proof -
  have mk: "make_packet (uninit SREJ_MAX_PACKET) (win_current (ri_window info)) FLAG_EOF [] 0 =
      Inr (packet_bytes (win_current (ri_window info)) FLAG_EOF [] @ drop 7 (uninit SREJ_MAX_PACKET), 7)"
    using make_packet_sent [of "[]" 0 "uninit SREJ_MAX_PACKET"] by simp
  show ?thesis
    unfolding send_eof_state_def mk iobind_eqs prod.case
    by (rule post_eof_loop_stale [OF assms(1,2) _ assms(4)]) (use assms(3) in simp_all)
qed

lemma stale_packets_use_up_tries_witness:
  "post (send_eof_state zero_RcopyInfo)
    (demo_world (incoming (replicate 10 ((1, 9), packet_bytes 1 FLAG_RR (be_bytes32 5))) @
        [Arrives (Datagram (1, 9) (packet_bytes 2 FLAG_EOF_ACK []))]) []
      \<lparr>pollFileDescriptors := [\<lparr>p_fd = 0, p_events = POLLIN, p_revents = 0\<rparr>], maxFileDescriptor := 1\<rparr>)
    (\<lambda>r v. fst r = DONE \<and> ri_had_error (snd r) = 1 \<and> length (net v) = 1) (\<lambda>_. False)"
proof -
  let ?p = "packet_bytes 1 FLAG_RR (be_bytes32 5)"
  let ?ms = "replicate 10 ((1, 9), ?p)" and ?N = "[Arrives (Datagram (1, 9) (packet_bytes 2 FLAG_EOF_ACK []))]"
  let ?w = "demo_world (incoming ?ms @ ?N) []\<lparr>pollFileDescriptors := [\<lparr>p_fd = 0, p_events = POLLIN, p_revents = 0\<rparr>], maxFileDescriptor := 1\<rparr>"
  have "\<not> acknowledges_eof ?p"
    using check_packet_bytes [of "be_bytes32 5" 1 FLAG_RR] by (simp add: acknowledges_eof_def)
  then have s: "\<forall>x \<in> set ?ms. \<not> acknowledges_eof (snd (cut x))" by (simp add: cut_def)
  have w: "socket_polled ?w" "net ?w = incoming ?ms @ ?N" "sends ?w = []" by (simp_all add: socket_polled_defs demo_world_def)
  show ?thesis
    by (rule post_mono [OF stale_packets_use_up_tries [OF w(1,2) _ s]]) (use w(3) in \<open>simp_all only: length_replicate, auto\<close>)
qed

end
