(* ===== verification/Recovery.thy ===== *)
theory Recovery
  imports Receiver Sender
begin

text \<open>
  Recovery from a lost packet: the abstract receiver and the abstract sender put together, and with them the
  code of both sides. A chunk is lost and the ones behind it arrive; one request, one packet sent again and
  one acknowledgement later the file and the window are as if nothing had been lost.
\<close>

section \<open>A child handed packets one after another\<close>

fun receive_all :: "nat \<Rightarrow> bytes list \<Rightarrow> receiver \<Rightarrow> receiver \<times> reply list" where
  "receive_all ws [] r = (r, [])"
| "receive_all ws (p # ps) r =
    (let x = receive ws (packet_number p) (drop 7 p) r; y = receive_all ws ps (fst x) in (fst y, snd x @ snd y))"

lemma receive_all_append:
  "receive_all ws (ps @ qs) r =
    (let x = receive_all ws ps r; y = receive_all ws qs (fst x) in (fst y, snd x @ snd y))"
  by (induction ps arbitrary: r) (simp_all add: Let_def)

lemma handled_refl: "represents ws r info w \<Longrightarrow> handled ws info w (r, []) info w"
  by (simp add: handled_def)

lemma post_handle_all_refines:
  assumes "represents ws r info w" and "\<forall>p \<in> set ps. 7 \<le> length p \<and> length p \<le> SREJ_MAX_PACKET" and "sends w = []"
  shows "post (handle_all info ps) w (handled ws info w (receive_all ws ps r)) (\<lambda>_. False)"
  using assms
proof (induction ps arbitrary: r info w)
  case Nil
  then show ?case by (simp add: handled_refl)
next
  case (Cons p ps)
  let ?x = "receive ws (packet_number p) (drop 7 p) r"
  have "post (handle_data_packet info p (int (length p))) w (handled ws info w ?x) (\<lambda>_. False)"
    by (rule post_mono [OF post_handled [OF Cons.prems(1)]]) (use Cons.prems in auto)
  then show ?case
    unfolding handle_all.simps
  proof (rule post_seq)
    fix i v assume h: "handled ws info w ?x i v"
    then have r: "represents ws (fst ?x) i v" "sends v = []" using Cons.prems(3) by (simp_all add: handled_def)
    show "post (handle_all i ps) v (handled ws info w (receive_all ws (p # ps) r)) (\<lambda>_. False)"
      by (rule post_mono [OF Cons.IH [OF r(1) _ r(2)]])
        (use Cons.prems(2) h handled_then [of ws info w "fst ?x" "snd ?x"] in \<open>auto simp: Let_def\<close>)
  qed
qed

section \<open>A gap and what fills it\<close>

text \<open>Chunk \<open>j\<close> is missing and the \<open>i\<close> chunks behind it wait.\<close>

definition gap_at :: "bytes list \<Rightarrow> nat \<Rightarrow> nat \<Rightarrow> nat option \<Rightarrow> receiver" where
  "gap_at cs j i a = \<lparr>rc_next = 2 + j,
    rc_wait = (\<lambda>m. if 2 + j < m \<and> m \<le> 2 + j + i then Some (cs ! (m - 2)) else None),
    rc_asked = a, rc_out = concat (take j cs)\<rparr>"

lemma receive_behind_gap:
  assumes "j + i + 1 < j + ws" and "2 + j + ws < 4294967296"
  shows "receive ws (3 + j + i) (cs ! (1 + j + i)) (gap_at cs j i a) =
    (gap_at cs j (Suc i) (Some (2 + j)), if a = Some (2 + j) then [] else [Ask (2 + j)])"
  using assms by (auto simp: receive_def gap_at_def ask_def Let_def fun_eq_iff)

lemma receive_all_behind_gap:
  assumes cs: "chunks_ok cs" and k: "j + k < length cs" "k < ws" "2 + j + ws < 4294967296" and a: "a \<noteq> Some (2 + j)"
  shows "receive_all ws (map (data_packet cs) [Suc j..<Suc (j + k)]) (gap_at cs j 0 a) =
    (gap_at cs j k (if k = 0 then a else Some (2 + j)), if k = 0 then [] else [Ask (2 + j)])"
  using k(1,2)
proof (induction k)
  case (Suc k)
  have n: "packet_number (data_packet cs (Suc (j + k))) = 3 + j + k"
    using packet_number_data [OF cs, of "Suc (j + k)"] Suc.prems(1) by simp
  have "length (cs ! Suc (j + k)) \<le> SREJ_MAX_DATA" using cs Suc.prems(1) by (auto simp: chunks_ok_def)
  then have d: "drop 7 (data_packet cs (Suc (j + k))) = cs ! (1 + j + k)" by (simp add: data_packet_def)
  have "[Suc j..<Suc (j + Suc k)] = [Suc j..<Suc (j + k)] @ [Suc (j + k)]" by simp
  then show ?case
    using Suc.IH Suc.prems receive_behind_gap [of j k ws cs "if k = 0 then a else Some (2 + j)"] k(3) a
    by (simp add: receive_all_append Let_def n d del: upt_Suc)
qed (simp add: gap_at_def)

lemma receive_at_gap:
  assumes "j + k < length cs" "k < ws" "2 + j + ws < 4294967296"
  shows "\<exists>a. receive ws (2 + j) (cs ! j) (gap_at cs j k (Some (2 + j))) = (gap_at cs (j + Suc k) 0 a, [Ack (3 + j + k)])"
proof -
  define x where "x = gap_at cs j k (Some (2 + j))\<lparr>rc_wait := (\<lambda>m. if 2 + j \<le> m \<and> m \<le> 2 + j + k then Some (cs ! (m - 2)) else None),
    rc_asked := None\<rparr>"
  have run: "run_from (rc_wait x) (rc_next x) (Suc k)" by (auto simp: run_from_def x_def gap_at_def)
  have "map (\<lambda>i. the (rc_wait x (rc_next x + i))) [0..<Suc k] = map (\<lambda>i. cs ! (j + i)) [0..<Suc k]"
    by (rule map_cong [OF refl]) (auto simp: x_def gap_at_def)
  also have "\<dots> = take (Suc k) (drop j cs)" using assms(1) by (intro nth_equalityI) (simp_all del: upt_Suc)
  finally have "deliver ws x = gap_at cs (j + Suc k) 0 None"
    using deliver_run [OF run, of ws] assms(2) take_add [of j "Suc k" cs]
    by (auto simp: x_def gap_at_def fun_eq_iff simp flip: concat_append)
  moreover have "\<not> gap_behind ws (gap_at cs (j + Suc k) 0 None)" by (simp add: gap_behind_def gap_at_def list_ex_iff)
  ultimately have "settle ws x = (gap_at cs (j + Suc k) 0 None, [Ack (3 + j + k)])"
    by (simp add: settle_def Let_def) (simp add: gap_at_def)
  moreover have "(gap_at cs j k (Some (2 + j)))\<lparr>rc_wait := (rc_wait (gap_at cs j k (Some (2 + j))))(2 + j \<mapsto> cs ! j), rc_asked := None\<rparr> = x"
    by (auto simp: x_def gap_at_def fun_eq_iff)
  ultimately show ?thesis
    using assms(2,3) by (auto simp: receive_def gap_at_def Let_def)
qed

section \<open>The client's side\<close>

text \<open>A client that has sent the chunks \<open>j\<close> to \<open>j + k\<close> and heard of none of them.\<close>

definition sent_from :: "bytes list \<Rightarrow> nat \<Rightarrow> nat \<Rightarrow> sender" where
  "sent_from cs j k = \<lparr>sd_lower = 2 + j, sd_next = 3 + j + k,
    sd_held = (\<lambda>m. if 2 + j \<le> m \<and> m \<le> 2 + j + k then Some (data_packet cs (m - 2)) else None)\<rparr>"

lemma control_of_request:
  assumes "n < 4294967296"
  shows "control_of (packet_bytes q FLAG_SREJ (be_bytes32 (word_of_nat n))) = Wanted n"
    "control_of (packet_bytes q FLAG_RR (be_bytes32 (word_of_nat n))) = Acked n"
  using check_packet_bytes [of "be_bytes32 (word_of_nat n)" q FLAG_SREJ] check_packet_bytes [of "be_bytes32 (word_of_nat n)" q FLAG_RR]
    unat_word_of_nat_u32 [OF assms]
  by (simp_all add: control_of_def read_u32_packet_bytes)

lemma post_controls_then:
  assumes s: "stands_for (ri_window info) s" and w: "waiting ms (incoming ns @ Quiet # N) w" "sends w = []"
    and ne: "ms \<noteq> []" "ns \<noteq> []"
  shows "post (iobind (process_controls info t) (\<lambda>r. process_controls (fst r) t)) w
    (\<lambda>r v. stands_for (ri_window (fst r)) (heard (map cut ns) (heard (map cut ms) s)) \<and>
      sent v = sent w @ resent (map cut ms) s @ resent (map cut ns) (heard (map cut ms) s) \<and> net v = N) (\<lambda>_. False)"
proof (rule post_seq)
  show "post (process_controls info t) w (\<lambda>r v. heard_all (map cut ms) (incoming ns @ Quiet # N) s info w (fst r) v) (\<lambda>_. False)"
    by (rule post_mono [OF post_process_controls_hear [OF s w(1) disjI1 [OF ne(1)]]]) (use w(2) in simp_all)
  fix r :: "RcopyInfo \<times> int" and v
  assume h: "heard_all (map cut ms) (incoming ns @ Quiet # N) s info w (fst r) v"
  then have v: "stands_for (ri_window (fst r)) (heard (map cut ms) s)" "waiting ns N v" "sends v = []"
    "sent v = sent w @ resent (map cut ms) s"
    using w(2) by (simp_all add: heard_all_def waiting_def)
  show "post (process_controls (fst r) t) v
    (\<lambda>r v. stands_for (ri_window (fst r)) (heard (map cut ns) (heard (map cut ms) s)) \<and>
      sent v = sent w @ resent (map cut ms) s @ resent (map cut ns) (heard (map cut ms) s) \<and> net v = N) (\<lambda>_. False)"
    by (rule post_mono [OF post_process_controls_hear [OF v(1,2) disjI1 [OF ne(2)]]]) (use v(3,4) in \<open>simp_all add: heard_all_def\<close>)
qed

section \<open>Recovery\<close>

text \<open>C4: recovery from a lost packet. The client has sent the chunks \<open>j\<close> to \<open>j + k\<close>, the packet of chunk \<open>j\<close> is lost
  and the others reach the child, then what either side sends reaches the other: the child asks for the
  missing packet once, the client sends exactly that packet again, the child then has all the chunks in the
  file and acknowledges them, and the client's window is empty.\<close>

theorem lost_packet_recovered:
  assumes cs: "chunks_ok cs" "j + k < length cs" and k: "0 < k" "k < ws" "2 + j + ws < 2 ^ 32" and a: "a \<noteq> Some (2 + j)"
    and child: "represents ws (gap_at cs j 0 a) info w" "sends w = []"
    and client: "stands_for (ri_window cinfo) (sent_from cs j k)" "sends cw = []" "socket_polled cw"
    and srej: "srej = packet_bytes (si_control_seq info) FLAG_SREJ (be_bytes32 (word_of_nat (2 + j)))"
    and rr: "rr = packet_bytes (si_control_seq info + 1) FLAG_RR (be_bytes32 (word_of_nat (3 + j + k)))"
    and net: "net cw = incoming [(c, srej)] @ Quiet # incoming [(c, rr)] @ Quiet # N"
  shows "post (handle_all info (map (data_packet cs) [Suc j..<Suc (j + k)] @ [data_packet cs j])) w
      (\<lambda>i v. sent v = sent w @ map (Pair (si_client info)) [srej, rr] \<and> out_data v = concat (take (j + k + 1) cs)) (\<lambda>_. False)
    \<and> post (iobind (process_controls cinfo t) (\<lambda>r. process_controls (fst r) t)) cw
      (\<lambda>r v. sent v = sent cw @ [(c, data_packet cs j)] \<and> window_empty (ri_window (fst r)) \<and> net v = N) (\<lambda>_. False)"
proof
  let ?ps = "map (data_packet cs) [Suc j..<Suc (j + k)] @ [data_packet cs j]"
  have ws: "2 + j + ws < 4294967296" using k(3) by simp
  have len: "\<forall>p \<in> set ?ps. 7 \<le> length p \<and> length p \<le> SREJ_MAX_PACKET"
    using length_data_packet [OF cs(1)] cs(2) by auto
  have "length (cs ! j) \<le> SREJ_MAX_DATA" using cs by (auto simp: chunks_ok_def)
  then have d: "drop 7 (data_packet cs j) = cs ! j" "packet_number (data_packet cs j) = 2 + j"
    using packet_number_data [OF cs(1), of j] cs(2) by (simp_all add: data_packet_def)
  obtain b where "receive_all ws ?ps (gap_at cs j 0 a) = (gap_at cs (j + Suc k) 0 b, [Ask (2 + j), Ack (3 + j + k)])"
    using receive_all_behind_gap [OF cs k(2) ws a] receive_at_gap [OF cs(2) k(2) ws] k(1)
    by (auto simp: receive_all_append Let_def d simp del: upt_Suc)
  with post_handle_all_refines [OF child(1) len child(2)]
  show "post (handle_all info ?ps) w (\<lambda>i v. sent v = sent w @ map (Pair (si_client info)) [srej, rr] \<and>
      out_data v = concat (take (j + k + 1) cs)) (\<lambda>_. False)"
    by (elim post_mono) (auto simp: handled_def represents_def Let_def srej rr gap_at_def)
next
  let ?s = "sent_from cs j k"
  have n: "2 + j < 4294967296" "3 + j + k < 4294967296" using k by simp_all
  have ctl: "control_of srej = Wanted (2 + j)" "control_of rr = Acked (3 + j + k)"
    unfolding srej rr by (rule control_of_request [OF n(1)] control_of_request [OF n(2)])+
  have c: "cut (c, srej) = (c, srej)" "cut (c, rr) = (c, rr)" by (simp_all add: cut_def srej rr)
  have "waiting [(c, srej)] (incoming [(c, rr)] @ Quiet # N) cw" using client(3) net by (simp add: waiting_def)
  note run = post_controls_then [OF client(1) this client(2) list.distinct(2) list.distinct(2)]
  have h: "resent [(c, srej)] ?s = [(c, data_packet cs j)]" "heard [(c, srej)] ?s = ?s" "resent [(c, rr)] ?s = []"
    "sd_lower (heard [(c, rr)] ?s) = sd_next (heard [(c, rr)] ?s)"
    by (simp_all add: hear_def ctl sent_from_def Let_def)
  show "post (iobind (process_controls cinfo t) (\<lambda>r. process_controls (fst r) t)) cw
      (\<lambda>r v. sent v = sent cw @ [(c, data_packet cs j)] \<and> window_empty (ri_window (fst r)) \<and> net v = N) (\<lambda>_. False)"
    by (rule post_mono [OF run]) (use h in \<open>auto simp: c stands_for_def window_empty_def word_unat_eq_iff\<close>)
qed

text \<open>Two chunks, of which the first is lost; a client with a window of two that has sent both.\<close>

lemma one_sent:
  assumes "win_inv win" and "window_open win" and "length p \<le> SREJ_MAX_PACKET"
  shows "\<exists>win'. win_inv win' \<and> win_lower win' = win_lower win \<and> win_upper win' = win_upper win \<and>
    win_current win' = win_current win + 1 \<and> win_pending win' = (win_pending win)(win_cur win \<mapsto> p)"
proof -
  have "0 \<le> int (length p)" "int (length p) \<le> int SREJ_MAX_PACKET" using assms(3) by simp_all
  from window_add_spec [OF assms(1,2) this order_refl] obtain win' where w: "win_inv win'"
    "win' = win\<lparr>win_entry := win_entry win', win_current := win_current win + 1\<rparr>"
    "win_pending win' = (win_pending win)(win_cur win \<mapsto> p)" by auto
  have "win_lower win' = win_lower win" "win_upper win' = win_upper win" "win_current win' = win_current win + 1"
    by (subst w(2), simp)+
  with w(1,3) show ?thesis by blast
qed

lemma two_sent:
  assumes cs: "chunks_ok cs" "length cs = 2"
  shows "\<exists>win. stands_for win (sent_from cs 0 1)"
proof -
  let ?w = "\<lparr>win_entry = replicate 2 zero_WindowEntry, win_alloc = True, win_size = 2, win_lower = 2, win_current = 2, win_upper = 4\<rparr>"
  have "n mod 2 < (2 :: nat)" for n by simp
  then have e: "win_pending ?w n = None" for n by (simp add: win_pending_def zero_WindowEntry_def Let_def)
  then have w: "win_inv ?w" by (simp add: win_inv_def win_shape_def wslot_ok_def zero_WindowEntry_def)
  have len: "length (data_packet cs 0) \<le> SREJ_MAX_PACKET" "length (data_packet cs 1) \<le> SREJ_MAX_PACKET"
    using length_data_packet [OF cs(1), of 0] length_data_packet [OF cs(1), of 1] cs(2) by auto
  have "window_open ?w" by (simp add: window_open_def)
  from one_sent [OF w this len(1)] obtain w1 where w1: "win_inv w1" "win_lower w1 = 2" "win_upper w1 = 4" "win_current w1 = 3"
    "win_pending w1 = (win_pending ?w)(2 \<mapsto> data_packet cs 0)" by auto
  then have "window_open w1" by (simp add: window_open_def)
  from one_sent [OF w1(1) this len(2)] obtain w2 where w2: "win_inv w2" "win_lower w2 = 2" "win_current w2 = 4"
    "win_pending w2 = (win_pending w1)(3 \<mapsto> data_packet cs 1)" by (auto simp: w1)
  have "data_packet cs (n - 2) \<noteq> []" if "2 \<le> n" "n \<le> 3" for n
  proof -
    have "n - 2 < length cs" using cs(2) that by simp
    from length_data_packet [OF cs(1) this] show ?thesis by auto
  qed
  then have "stands_for w2 (sent_from cs 0 1)"
    using w2 by (auto simp: stands_for_def sent_from_def w1(5) e fun_eq_iff split: if_splits)
  then show ?thesis ..
qed

lemma lost_packet_recovered_witness:
  "let cs = [[7, 8], [9]] :: bytes list;
     srej = packet_bytes 0 FLAG_SREJ (be_bytes32 (word_of_nat 2)); rr = packet_bytes 1 FLAG_RR (be_bytes32 (word_of_nat 4));
     cw = demo_world (incoming [((1, 9), srej)] @ Quiet # incoming [((1, 9), rr)] @ [Quiet]) []
       \<lparr>pollFileDescriptors := [\<lparr>p_fd = 0, p_events = POLLIN, p_revents = 0\<rparr>], maxFileDescriptor := 1\<rparr>
   in \<exists>win. stands_for win (sent_from cs 0 1) \<and>
     post (handle_all demo_child [data_packet cs 1, data_packet cs 0]) (demo_world [] [])
       (\<lambda>_ v. map snd (sent v) = [srej, rr] \<and> out_data v = [7, 8, 9]) (\<lambda>_. False) \<and>
     post (iobind (process_controls (zero_RcopyInfo\<lparr>ri_window := win\<rparr>) POLL_NOW) (\<lambda>r. process_controls (fst r) POLL_NOW)) cw
       (\<lambda>r v. sent v = [((1, 9), data_packet cs 0)] \<and> window_empty (ri_window (fst r))) (\<lambda>_. False)"
proof -
  define cs where "cs = ([[7, 8], [9]] :: bytes list)"
  define srej where "srej = packet_bytes 0 FLAG_SREJ (be_bytes32 (word_of_nat 2))"
  define rr where "rr = packet_bytes 1 FLAG_RR (be_bytes32 (word_of_nat 4))"
  let ?cw = "demo_world (incoming [((1, 9), srej)] @ Quiet # incoming [((1, 9), rr)] @ [Quiet]) []
       \<lparr>pollFileDescriptors := [\<lparr>p_fd = 0, p_events = POLLIN, p_revents = 0\<rparr>], maxFileDescriptor := 1\<rparr>"
  have cs: "chunks_ok cs" "length cs = 2" "concat (take 2 cs) = [7, 8, 9]" by (simp_all add: cs_def chunks_ok_def)
  obtain win where win: "stands_for win (sent_from cs 0 1)" using two_sent [OF cs(1,2)] by blast
  have gap: "gap_at cs 0 0 None = \<lparr>rc_next = 2, rc_wait = (\<lambda>_. None), rc_asked = None, rc_out = []\<rparr>"
    by (auto simp: gap_at_def)
  have child: "represents 2 (gap_at cs 0 0 None) demo_child (demo_world [] [])"
    unfolding gap by (rule demo_child_represents)
  have s: "srej = packet_bytes (si_control_seq demo_child) FLAG_SREJ (be_bytes32 (word_of_nat (2 + 0)))"
    "rr = packet_bytes (si_control_seq demo_child + 1) FLAG_RR (be_bytes32 (word_of_nat (3 + 0 + 1)))"
    by (simp_all add: srej_def rr_def demo_child_def zero_ServerInfo_def)
  have k: "0 + 1 < length cs" "0 < (1 :: nat)" "1 < (2 :: nat)" "2 + 0 + 2 < (2 :: nat) ^ 32" "None \<noteq> Some (2 + 0 :: nat)"
    by (simp_all add: cs(2))
  have w: "sends (demo_world [] []) = []" "stands_for (ri_window (zero_RcopyInfo\<lparr>ri_window := win\<rparr>)) (sent_from cs 0 1)"
    "sends ?cw = []" "socket_polled ?cw" "net ?cw = incoming [((1, 9), srej)] @ Quiet # incoming [((1, 9), rr)] @ Quiet # []"
    using win by (simp_all add: socket_polled_defs demo_world_def)
  have ps: "map (data_packet cs) [Suc 0..<Suc (0 + 1)] @ [data_packet cs 0] = [data_packet cs 1, data_packet cs 0]"
    "0 + 1 + 1 = (2 :: nat)" by simp_all
  note run = lost_packet_recovered [OF cs(1) k child w(1,2,3,4) s w(5), of POLL_NOW]
  have "post (handle_all demo_child [data_packet cs 1, data_packet cs 0]) (demo_world [] [])
       (\<lambda>_ v. map snd (sent v) = [srej, rr] \<and> out_data v = [7, 8, 9]) (\<lambda>_. False)"
    by (rule post_mono [OF conjunct1 [OF run, unfolded ps]]) (simp_all add: demo_world_def cs(3))
  moreover have "post (iobind (process_controls (zero_RcopyInfo\<lparr>ri_window := win\<rparr>) POLL_NOW) (\<lambda>r. process_controls (fst r) POLL_NOW)) ?cw
       (\<lambda>r v. sent v = [((1, 9), data_packet cs 0)] \<and> window_empty (ri_window (fst r))) (\<lambda>_. False)"
    by (rule post_mono [OF conjunct2 [OF run]]) (simp_all add: demo_world_def)
  ultimately show ?thesis using win unfolding Let_def cs_def srej_def rr_def by blast
qed

end
