(* ===== verification/CTypes.thy ===== *)
theory CTypes
  imports Server_Correct
begin

text \<open>
  The fields of type \<open>int\<close> are integers in the models and their arrays are lists. Here it is shown that
  this loses nothing for a child of the server: in every run, whatever arrives, each such field stays
  within the range of a C \<open>int\<close>, each flag is 0 or 1 and each array keeps the length it is declared with.
\<close>

section \<open>Partial correctness\<close>

text \<open>If the computation returns, \<open>P\<close> holds; unlike \<open>post\<close> this says nothing of runs that end early.\<close>

definition returns :: "'a sys \<Rightarrow> world \<Rightarrow> ('a \<Rightarrow> world \<Rightarrow> bool) \<Rightarrow> bool" where
  "returns m w P \<longleftrightarrow> (\<forall>x v. m w = (Inr x, v) \<longrightarrow> P x v)"

lemma returns_bind: "returns m w (\<lambda>x v. returns (f x) v P) \<Longrightarrow> returns (iobind m f) w P"
  by (auto simp: returns_def iobind_def split: prod.splits sum.splits)

lemma returns_ret [simp]: "returns (ret x) w P \<longleftrightarrow> P x w"
  by (simp add: returns_def)

lemma returns_halts [simp]: "returns (halts h) w P"
  by (simp add: returns_def)

lemma returns_lift [simp]: "returns (lift_res r) w P \<longleftrightarrow> (\<forall>x. r = Inr x \<longrightarrow> P x w)"
  by (auto simp: returns_def)

lemma returns_mono: "returns m w P \<Longrightarrow> (\<And>x v. P x v \<Longrightarrow> Q x v) \<Longrightarrow> returns m w Q"
  by (simp add: returns_def)

lemma returns_seq: "returns m w P \<Longrightarrow> (\<And>x v. P x v \<Longrightarrow> returns (f x) v Q) \<Longrightarrow> returns (iobind m f) w Q"
  by (rule returns_bind, rule returns_mono)

section \<open>Types\<close>

definition c_int :: "int \<Rightarrow> bool" where
  "c_int i \<longleftrightarrow> - (2 ^ 31) \<le> i \<and> i < 2 ^ 31"

lemma c_int_sint [simp]: "c_int (sint (v :: u32))"
  using sint_range_size [of v] by (simp add: c_int_def word_size)

definition typed_BufferEntry :: "BufferEntry \<Rightarrow> bool" where
  "typed_BufferEntry e \<longleftrightarrow> c_int (be_data_len e) \<and> be_used e \<in> {0, 1} \<and> length (be_data e) = SREJ_MAX_DATA"

definition typed_Buffer :: "Buffer \<Rightarrow> bool" where
  "typed_Buffer b \<longleftrightarrow> c_int (buf_size b) \<and> c_int (buf_output_file b) \<and> buf_missing_active b \<in> {0, 1} \<and>
    length (buf_entry b) = nat (buf_size b) \<and> list_all typed_BufferEntry (buf_entry b)"

text \<open>The retry counter stays below its limit until the child is done.\<close>

definition typed_ServerInfo :: "STATE \<Rightarrow> ServerInfo \<Rightarrow> bool" where
  "typed_ServerInfo st info \<longleftrightarrow>
    list_all c_int [si_socket_num info, si_output_file info, si_window_size info, si_buffer_size info,
      si_first_packet_len info, si_last_ack_len info] \<and>
    0 \<le> si_retry_count info \<and> si_retry_count info \<le> MAX_TRIES \<and> (st \<noteq> DONE \<longrightarrow> si_retry_count info < MAX_TRIES) \<and>
    length (si_first_packet info) = SREJ_MAX_PACKET \<and> length (si_last_ack info) = SREJ_MAX_PACKET \<and>
    typed_Buffer (si_buffer info)"

definition typed_world :: "world \<Rightarrow> bool" where
  "typed_world w \<longleftrightarrow> list_all c_int (fds w)"

section \<open>System calls\<close>

lemma ret_safeSendto: "typed_world w \<Longrightarrow> (\<And>v. typed_world v \<Longrightarrow> P () v) \<Longrightarrow> returns (safeSendto buf len dst) w P"
  by (auto simp: returns_def safeSendto_def sys_sendto_def iobind_def typed_world_def split: if_splits sum.splits)

lemma ret_safeRecvfrom:
  "typed_world w \<Longrightarrow> (\<And>a m v. typed_world v \<Longrightarrow> length m \<le> nat len \<Longrightarrow> P (a, m) v) \<Longrightarrow> returns (safeRecvfrom len) w P"
  by (auto simp: returns_def safeRecvfrom_def sys_recvfrom_def iobind_def typed_world_def
      split: if_splits sum.splits option.splits arrival.splits)

lemma ret_pollCall: "typed_world w \<Longrightarrow> (\<And>x v. typed_world v \<Longrightarrow> P x v) \<Longrightarrow> returns (pollCall t) w P"
  by (cases "pollCall t w") (auto simp: returns_def typed_world_def dest!: pollCall_frame split: sum.splits)

lemma ret_new_fd: "typed_world w \<Longrightarrow> (\<And>f v. c_int f \<Longrightarrow> typed_world v \<Longrightarrow> P f v) \<Longrightarrow> returns sys_new_fd w P"
  by (auto simp: returns_def sys_new_fd_def typed_world_def c_int_def split: list.splits)

lemma ret_open_trunc: "typed_world w \<Longrightarrow> (\<And>f v. c_int f \<Longrightarrow> typed_world v \<Longrightarrow> P f v) \<Longrightarrow> returns (sys_open_trunc name) w P"
  unfolding sys_open_trunc_def by (rule returns_bind, rule ret_new_fd) (auto simp: returns_def typed_world_def)

lemma ret_createUdpSocket: "typed_world w \<Longrightarrow> (\<And>f v. c_int f \<Longrightarrow> typed_world v \<Longrightarrow> P f v) \<Longrightarrow> returns createUdpSocket w P"
  unfolding createUdpSocket_def by (rule returns_bind, rule ret_new_fd) (auto simp: returns_def typed_world_def split: if_splits)

lemma ret_setupPollSet: "typed_world w \<Longrightarrow> (\<And>v. typed_world v \<Longrightarrow> P () v) \<Longrightarrow> returns setupPollSet w P"
  by (auto simp: returns_def setupPollSet_def sCalloc_def sys_calloc_def iobind_def typed_world_def split: if_splits)

lemma ret_addToPollSet: "typed_world w \<Longrightarrow> (\<And>v. typed_world v \<Longrightarrow> P () v) \<Longrightarrow> returns (addToPollSet junk s) w P"
  by (auto simp: returns_def addToPollSet_def growPollSet_def set_entry_def srealloc_def iobind_def typed_world_def
      split: if_splits sum.splits prod.splits)

section \<open>The buffer\<close>

lemma typed_zero_Buffer: "typed_Buffer zero_Buffer"
  by (simp add: typed_Buffer_def zero_Buffer_def c_int_def)

lemma typed_arr_get: "list_all P xs \<Longrightarrow> arr_get xs i = Inr e \<Longrightarrow> P e"
  by (auto simp: arr_get_def list_all_length split: if_splits)

lemma typed_arr_put: "list_all P xs \<Longrightarrow> P e \<Longrightarrow> arr_put xs i e = Inr ys \<Longrightarrow> list_all P ys \<and> length ys = length xs"
  by (auto simp: arr_put_def list_all_length nth_list_update split: if_splits)

lemma ret_buffer_init:
  assumes w: "typed_world w" and b: "typed_Buffer b" and c: "c_int sz" "c_int fd"
    and P: "\<And>b v. typed_Buffer b \<Longrightarrow> typed_world v \<Longrightarrow> P b v"
  shows "returns (buffer_init b sz seq fd) w P"
  using w b c
  by (auto simp: returns_def buffer_init_def sys_calloc_def iobind_def typed_world_def typed_Buffer_def
      typed_BufferEntry_def zero_BufferEntry_def c_int_def list_all_length intro!: P split: if_splits)

lemma typed_buffer_save:
  assumes b: "typed_Buffer b" and len: "c_int data_len" and s: "buffer_save b seq data data_len = Inr b'"
  shows "typed_Buffer b'"
proof -
  have es: "list_all typed_BufferEntry (buf_entry b)" using b by (simp add: typed_Buffer_def)
  from s consider "b' = b" | spot e d d' es' where "arr_get (buf_entry b) spot = Inr e" "mem_write (be_data e) 0 d = Inr d'"
    "arr_put (buf_entry b) spot (e\<lparr>be_seq := seq, be_data_len := data_len, be_used := 1, be_data := d'\<rparr>) = Inr es'"
    "b' = b\<lparr>buf_entry := es'\<rparr>"
    by (auto simp: buffer_save_def rbind_eq_Inr split: if_splits)
  then show ?thesis
  proof cases
    case 2
    have "typed_BufferEntry (e\<lparr>be_seq := seq, be_data_len := data_len, be_used := 1, be_data := d'\<rparr>)"
      using typed_arr_get [OF es 2(1)] mem_write_length [OF 2(2)] len by (simp add: typed_BufferEntry_def)
    from typed_arr_put [OF es this 2(3)] b show ?thesis by (simp add: 2(4) typed_Buffer_def)
  qed (use b in simp)
qed

lemma typed_clear_reject: "typed_Buffer b \<Longrightarrow> typed_Buffer (buffer_clear_reject b seq)"
  by (simp add: buffer_clear_reject_def typed_Buffer_def)

lemma typed_need_reject: "typed_Buffer b \<Longrightarrow> buffer_need_reject b = (need, b') \<Longrightarrow> typed_Buffer b'"
  by (auto simp: buffer_need_reject_def typed_Buffer_def split: if_splits)

lemma ret_write_ready:
  assumes "typed_Buffer b" and "typed_world w"
    and P: "\<And>b v. typed_Buffer b \<Longrightarrow> typed_world v \<Longrightarrow> P b v"
  shows "returns (buffer_write_ready b) w P"
  using assms(1,2)
proof (induction b w rule: buffer_write_ready.induct)
  case (1 b w)
  have es: "list_all typed_BufferEntry (buf_entry b)" using "1.prems"(1) by (simp add: typed_Buffer_def)
  show ?case
    unfolding returns_def
  proof (intro allI impI)
    fix x v assume run: "buffer_write_ready b w = (Inr x, v)"
    then consider "buffer_has b (buf_expected b) = Inr False" "x = b" "v = w"
      | spot e d wrote w' es where "buffer_has b (buf_expected b) = Inr True"
        "rbind (spot_of (buf_expected b) (buf_size b)) (\<lambda>spot. rbind (arr_get (buf_entry b) spot) (\<lambda>e.
          rbind (mem_read (be_data e) 0 (be_data_len e)) (\<lambda>d. Inr (spot, e, d)))) = Inr (spot, e, d)"
        "sys_write d w = (Inr wrote, w')" "\<not> wrote < 0" "arr_put (buf_entry b) spot (e\<lparr>be_used := 0\<rparr>) = Inr es"
        "buffer_write_ready (b\<lparr>buf_entry := es, buf_expected := buf_expected b + 1\<rparr>) w' = (Inr x, v)"
      unfolding buffer_write_ready.simps [of b w]
      by (auto split: sum.splits bool.splits prod.splits if_splits)
    then show "P x v"
    proof cases
      case 1
      then show ?thesis using "1.prems" P by simp
    next
      case 2
      have "arr_get (buf_entry b) spot = Inr e" using 2(2) by (auto simp: rbind_eq_Inr)
      from typed_arr_get [OF es this] have "typed_BufferEntry (e\<lparr>be_used := 0\<rparr>)" by (simp add: typed_BufferEntry_def)
      from typed_arr_put [OF es this 2(5)] have "typed_Buffer (b\<lparr>buf_entry := es, buf_expected := buf_expected b + 1\<rparr>)"
        using "1.prems"(1) by (simp add: typed_Buffer_def)
      moreover have "typed_world w'" using 2(3) "1.prems"(2) by (auto simp: sys_write_def typed_world_def Let_def)
      ultimately have "returns (buffer_write_ready (b\<lparr>buf_entry := es, buf_expected := buf_expected b + 1\<rparr>)) w' P"
        using 2 by (intro "1.IH") auto
      with 2(6) show ?thesis by (simp add: returns_def)
    qed
  qed
qed

section \<open>The child\<close>

definition typed_child :: "STATE \<Rightarrow> ServerInfo \<Rightarrow> world \<Rightarrow> bool" where
  "typed_child st info w \<longleftrightarrow> typed_ServerInfo st info \<and> typed_world w"

lemma typed_control [simp]: "typed_ServerInfo st (info\<lparr>si_control_seq := q\<rparr>) = typed_ServerInfo st info"
  "typed_ServerInfo st (info\<lparr>si_client := c\<rparr>) = typed_ServerInfo st info"
  by (simp_all add: typed_ServerInfo_def)

lemma typed_put_buffer: "typed_child st info w \<Longrightarrow> typed_Buffer b \<Longrightarrow> typed_world v \<Longrightarrow> typed_child st (info\<lparr>si_buffer := b\<rparr>) v"
  by (simp add: typed_child_def typed_ServerInfo_def)

lemma ret_send_filename_response:
  "typed_child st info w \<Longrightarrow> (\<And>i v. typed_child st i v \<Longrightarrow> P i v) \<Longrightarrow> returns (send_filename_response info x) w P"
  unfolding send_filename_response_def typed_child_def
  by (rule returns_bind) (auto intro!: returns_bind ret_safeSendto)

lemma ret_send_rr: "typed_child st info w \<Longrightarrow> (\<And>i v. typed_child st i v \<Longrightarrow> P i v) \<Longrightarrow> returns (send_rr info) w P"
  unfolding send_rr_def typed_child_def by (auto intro!: returns_bind ret_safeSendto)

lemma ret_send_reject: "typed_child st info w \<Longrightarrow> (\<And>i v. typed_child st i v \<Longrightarrow> P i v) \<Longrightarrow> returns (send_reject info seq) w P"
  unfolding send_reject_def typed_child_def by (auto intro!: returns_bind ret_safeSendto)

lemma typed_make_packet: "make_packet arr seq flag data n = Inr (p, len) \<Longrightarrow> length p = length arr \<and> len = 7 + n"
  by (auto simp: make_packet_def rbind_eq_Inr write_u32_def arr_put_def Let_def dest!: mem_write_length split: if_splits)

lemma ret_send_eof_ack:
  assumes i: "typed_child st info w" and P: "\<And>i v. typed_child st i v \<Longrightarrow> P i v"
  shows "returns (send_eof_ack info) w P"
  unfolding send_eof_ack_def resend_last_ack_def
  using i by (auto intro!: returns_bind ret_safeSendto P dest!: typed_make_packet
      simp: typed_child_def typed_ServerInfo_def c_int_def Let_def)

lemma ret_gap:
  assumes i: "typed_child st info w" and P: "\<And>i v. typed_child st i v \<Longrightarrow> P i v" and b: "typed_Buffer b"
  shows "returns (let (need, b) = buffer_need_reject b; info = info\<lparr>si_buffer := b\<rparr> in
    if need then send_reject info (buffer_expected b) else ret info) w P"
proof -
  obtain need b' where b': "buffer_need_reject b = (need, b')" by fastforce
  have "typed_world w" using i by (simp add: typed_child_def)
  with typed_put_buffer [OF i typed_need_reject [OF b b']] have "typed_child st (info\<lparr>si_buffer := b'\<rparr>) w" by blast
  with ret_send_reject [OF this P] P show ?thesis by (simp add: b' Let_def)
qed

lemma typed_child_buffer: "typed_child st info w \<Longrightarrow> typed_Buffer (si_buffer info) \<and> typed_world w"
  by (simp add: typed_child_def typed_ServerInfo_def)

lemma ret_handle_data_packet:
  assumes i: "typed_child st info w" and len: "c_int (packet_len - 7)" and P: "\<And>i v. typed_child st i v \<Longrightarrow> P i v"
  shows "returns (handle_data_packet info packet packet_len) w P"
proof -
  have rr: "returns (send_rr info) w P" by (rule ret_send_rr [OF i P])
  have arrived: "returns (iobind (buffer_write_ready b) (\<lambda>b.
          iobind (send_rr (info\<lparr>si_buffer := b\<rparr>)) (\<lambda>info.
          iobind (lift_res (buffer_has_later (si_buffer info))) (\<lambda>later.
            if later then
              (let (need, b) = buffer_need_reject (si_buffer info); info = info\<lparr>si_buffer := b\<rparr> in
               if need then send_reject info (buffer_expected b) else ret info)
            else ret info)))) w P" if b: "typed_Buffer b" for b
  proof (rule returns_bind, rule ret_write_ready [OF b])
    show "typed_world w" using i by (simp add: typed_child_def)
    fix b v assume b: "typed_Buffer b" and v: "typed_world v"
    show "returns (iobind (send_rr (info\<lparr>si_buffer := b\<rparr>)) (\<lambda>info.
          iobind (lift_res (buffer_has_later (si_buffer info))) (\<lambda>later.
            if later then
              (let (need, b) = buffer_need_reject (si_buffer info); info = info\<lparr>si_buffer := b\<rparr> in
               if need then send_reject info (buffer_expected b) else ret info)
            else ret info))) v P"
    proof (rule returns_bind, rule ret_send_rr [OF typed_put_buffer [OF i b v]])
      fix j u assume j: "typed_child st j u"
      from ret_gap [OF j P, where b = "si_buffer j"] typed_child_buffer [OF j] P [OF j]
      show "returns (iobind (lift_res (buffer_has_later (si_buffer j))) (\<lambda>later.
            if later then
              (let (need, b) = buffer_need_reject (si_buffer j); info = j\<lparr>si_buffer := b\<rparr> in
               if need then send_reject info (buffer_expected b) else ret info)
            else ret j)) u P"
        by (intro returns_bind) simp
    qed
  qed
  have saved: "returns (if seq = buffer_expected b then
        iobind (buffer_write_ready (buffer_clear_reject b seq)) (\<lambda>b.
          iobind (send_rr (info\<lparr>si_buffer := b\<rparr>)) (\<lambda>info.
          iobind (lift_res (buffer_has_later (si_buffer info))) (\<lambda>later.
            if later then
              (let (need, b) = buffer_need_reject (si_buffer info); info = info\<lparr>si_buffer := b\<rparr> in
               if need then send_reject info (buffer_expected b) else ret info)
            else ret info)))
      else
        (let (need, b) = buffer_need_reject b; info = info\<lparr>si_buffer := b\<rparr> in
         if need then send_reject info (buffer_expected b) else ret info)) w P" if "typed_Buffer b" for b seq
    using arrived [OF typed_clear_reject [OF that]] ret_gap [OF i P that] by simp
  show ?thesis
    unfolding handle_data_packet_def
    using rr saved typed_buffer_save [OF conjunct1 [OF typed_child_buffer [OF i]] len]
    by (auto simp: Let_def intro!: returns_bind)
qed

lemma typed_phase: "typed_child st info w \<Longrightarrow> st \<noteq> DONE \<Longrightarrow> typed_child st' info w"
  by (auto simp: typed_child_def typed_ServerInfo_def)

lemma typed_at: "typed_child st info w \<Longrightarrow> st \<noteq> DONE \<Longrightarrow> typed_world v \<Longrightarrow> typed_child st' info v"
  by (auto simp: typed_child_def typed_ServerInfo_def)

lemma ret_receive:
  assumes "typed_world w" and "\<And>v. typed_world v \<Longrightarrow> returns q v P"
    and "\<And>a m v. typed_world v \<Longrightarrow> length m \<le> SREJ_MAX_PACKET \<Longrightarrow> returns (g (a, m)) v P"
  shows "returns (iobind (pollCall t) (\<lambda>ready. if ready < 0 then q
    else iobind (safeRecvfrom (int SREJ_MAX_PACKET)) g)) w P"
  by (rule returns_bind, rule ret_pollCall [OF assms(1)]) (auto intro!: returns_bind ret_safeRecvfrom assms(2,3))

lemma ret_start_state:
  assumes "typed_child START info w"
  shows "returns (start_state junk info) w (\<lambda>x v. typed_child (fst x) (snd x) v)"
  unfolding start_state_def using assms
  by (auto intro!: returns_bind ret_createUdpSocket ret_setupPollSet ret_addToPollSet
      simp: typed_child_def typed_ServerInfo_def)

lemma ret_filename_state:
  assumes "typed_child FILENAME info w"
  shows "returns (filename_state info) w (\<lambda>x v. typed_child (fst x) (snd x) v)"
proof -
  have opened: "returns (if fd < 0 then iobind (send_filename_response i 1) (\<lambda>info. ret (DONE, info))
      else iobind (send_filename_response i 0) (\<lambda>info.
        iobind (buffer_init (si_buffer info) (si_window_size info) FIRST_DATA_SEQ (si_output_file info)) (\<lambda>b.
        ret (RECV_DATA, info\<lparr>si_buffer := b\<rparr>)))) v (\<lambda>x v. typed_child (fst x) (snd x) v)"
    if i: "typed_child FILENAME i v" for fd :: int and i v
  proof -
    have "returns (buffer_init (si_buffer j) (si_window_size j) FIRST_DATA_SEQ (si_output_file j)) u
        (\<lambda>b v. typed_child RECV_DATA (j\<lparr>si_buffer := b\<rparr>) v)" if j: "typed_child FILENAME j u" for j u
      using j typed_phase [OF j, of RECV_DATA]
      by (intro ret_buffer_init) (auto simp: typed_child_def typed_ServerInfo_def)
    then show ?thesis
      by (auto intro!: returns_bind ret_send_filename_response [OF i] intro: typed_phase)
  qed
  show ?thesis
    unfolding filename_state_def Let_def
    by (intro returns_bind returns_lift [THEN iffD2] allI impI ret_open_trunc opened)
      (use assms in \<open>simp_all add: typed_child_def typed_ServerInfo_def\<close>)
qed

lemma ret_recv_data_state:
  assumes i: "typed_child RECV_DATA info w"
  shows "returns (recv_data_state info) w (\<lambda>x v. typed_child (fst x) (snd x) v)"
proof -
  have arrived: "returns (let info = info\<lparr>si_client := client\<rparr>; packet_len = int (length packet) in
      iobind (lift_res (check_packet packet packet_len)) (\<lambda>ok.
        if \<not> ok then ret (RECV_DATA, info)
        else iobind (lift_res (get_flag packet)) (\<lambda>flag.
          if flag = FLAG_DATA then
            iobind (handle_data_packet info packet packet_len) (\<lambda>info. ret (RECV_DATA, info))
          else if flag = FLAG_EOF then
            iobind (handle_eof_packet info) (\<lambda>info. ret (WAIT_ON_DONE, info))
          else ret (RECV_DATA, info)))) v (\<lambda>x v. typed_child (fst x) (snd x) v)"
    if v: "typed_world v" and len: "length packet \<le> SREJ_MAX_PACKET" for client packet v
  proof -
    let ?i = "info\<lparr>si_client := client\<rparr>"
    have ti: "typed_child RECV_DATA ?i v" using i v by (simp add: typed_child_def)
    have cl: "c_int (int (length packet) - 7)" using len by (simp add: c_int_def)
    have "returns (handle_data_packet ?i packet (int (length packet))) v (\<lambda>i v. typed_child RECV_DATA i v)"
      by (rule ret_handle_data_packet [OF ti cl])
    moreover have "returns (handle_eof_packet ?i) v (\<lambda>i v. typed_child WAIT_ON_DONE i v)"
      unfolding handle_eof_packet_def
      by (rule returns_bind, rule ret_send_eof_ack [OF ti]) (simp add: typed_child_def typed_ServerInfo_def)
    ultimately show ?thesis using ti by (auto simp: Let_def intro!: returns_bind)
  qed
  show ?thesis
    unfolding recv_data_state_def
    by (rule ret_receive) (use i arrived typed_at [OF i] in \<open>auto simp: typed_child_def\<close>)
qed

lemma ret_wait_on_done_state:
  assumes i: "typed_child WAIT_ON_DONE info w"
  shows "returns (wait_on_done_state info) w (\<lambda>x v. typed_child (fst x) (snd x) v)"
proof -
  have n: "0 \<le> si_retry_count info" "si_retry_count info < MAX_TRIES"
    using i by (simp_all add: typed_child_def typed_ServerInfo_def)
  have resend: "returns (resend_last_ack j) v (\<lambda>_ v. typed_child WAIT_ON_DONE j v)"
    if "typed_child WAIT_ON_DONE j v" for j v
    unfolding resend_last_ack_def
    by (rule ret_safeSendto) (use that typed_at [OF that] in \<open>auto simp: typed_child_def\<close>)
  have quiet: "returns (let info = info\<lparr>si_retry_count := si_retry_count info + 1\<rparr> in
      if si_retry_count info \<ge> MAX_TRIES then ret (DONE, info)
      else iobind (resend_last_ack info) (\<lambda>_. ret (WAIT_ON_DONE, info))) v (\<lambda>x v. typed_child (fst x) (snd x) v)"
    if v: "typed_world v" for v
  proof -
    let ?i = "info\<lparr>si_retry_count := si_retry_count info + 1\<rparr>"
    have "typed_child DONE ?i v" "si_retry_count ?i < MAX_TRIES \<Longrightarrow> typed_child WAIT_ON_DONE ?i v"
      using typed_at [OF i _ v] n by (auto simp: typed_child_def typed_ServerInfo_def)
    with resend [of ?i v] show ?thesis by (auto simp: Let_def intro!: returns_bind)
  qed
  have arrived: "returns (let info = info\<lparr>si_client := client\<rparr>; packet_len = int (length packet) in
      iobind (lift_res (check_packet packet packet_len)) (\<lambda>ok.
        if \<not> ok then ret (WAIT_ON_DONE, info)
        else iobind (lift_res (get_flag packet)) (\<lambda>flag.
          if flag = FLAG_DONE then ret (DONE, info)
          else iobind (if flag = FLAG_EOF then resend_last_ack info else ret ()) (\<lambda>_.
            ret (WAIT_ON_DONE, info))))) v (\<lambda>x v. typed_child (fst x) (snd x) v)"
    if v: "typed_world v" for client packet v
  proof -
    let ?i = "info\<lparr>si_client := client\<rparr>"
    have "typed_child WAIT_ON_DONE ?i v" using i v by (simp add: typed_child_def)
    with resend [OF this] typed_phase [OF this, of DONE] show ?thesis by (auto simp: Let_def intro!: returns_bind)
  qed
  show ?thesis
    unfolding wait_on_done_state_def
    by (rule ret_receive) (use i quiet arrived in \<open>auto simp: typed_child_def\<close>)
qed

text \<open>C34: the types of the C declarations hold in every run of a child: from cleared memory with the
  request copied in, and then through every turn of the state machine, each \<open>int\<close> of \<open>ServerInfo\<close> and
  its \<open>Buffer\<close> stays within 32 bits, each flag is 0 or 1, the retry counter stays below its limit
  until the child is done, and each array keeps its length.\<close>

theorem server_child_typed:
  "(length p \<le> SREJ_MAX_PACKET \<longrightarrow>
    typed_ServerInfo START (zero_ServerInfo\<lparr>si_first_packet := p @ replicate (SREJ_MAX_PACKET - length p) 0,
      si_client := client, si_first_packet_len := int (length p), si_control_seq := 1\<rparr>)) \<and>
   (\<forall>x v. typed_ServerInfo st info \<and> typed_world w \<and> server_step junk st info w = (Inr x, v) \<longrightarrow>
    typed_ServerInfo (fst x) (snd x) \<and> typed_world v)"
proof (intro conjI impI allI)
  assume "length p \<le> SREJ_MAX_PACKET"
  then show "typed_ServerInfo START (zero_ServerInfo\<lparr>si_first_packet := p @ replicate (SREJ_MAX_PACKET - length p) 0,
      si_client := client, si_first_packet_len := int (length p), si_control_seq := 1\<rparr>)"
    by (simp add: typed_ServerInfo_def zero_ServerInfo_def typed_zero_Buffer c_int_def)
next
  fix x v
  assume a: "typed_ServerInfo st info \<and> typed_world w \<and> server_step junk st info w = (Inr x, v)"
  then have i: "typed_child st info w" by (simp add: typed_child_def)
  have "returns (server_step junk st info) w (\<lambda>x v. typed_child (fst x) (snd x) v)"
    using i ret_start_state ret_filename_state ret_recv_data_state ret_wait_on_done_state
    by (cases st) (simp_all add: server_step_def)
  with a have "typed_child (fst x) (snd x) v" by (simp add: returns_def)
  then show "typed_ServerInfo (fst x) (snd x)" "typed_world v" by (simp_all add: typed_child_def)
qed

lemma server_child_typed_witness:
  "\<exists>info v. server_step (\<lambda>_. zero_pollfd) START zero_ServerInfo (demo_world [] []) = (Inr (FILENAME, info), v) \<and>
    typed_ServerInfo FILENAME info \<and> typed_world v"
proof -
  let ?run = "server_step (\<lambda>_. zero_pollfd) START zero_ServerInfo (demo_world [] [])"
  have "typed_ServerInfo START zero_ServerInfo \<and> typed_world (demo_world [] [])"
    by (simp add: typed_ServerInfo_def zero_ServerInfo_def typed_zero_Buffer typed_world_def demo_world_def c_int_def)
  moreover have "fst ?run = Inr (FILENAME, zero_ServerInfo\<lparr>si_socket_num := 3\<rparr>)"
    by (simp add: server_step_def start_state_def sys_new_fd_def createUdpSocket_def setupPollSet_def sCalloc_def
      sys_calloc_def addToPollSet_def set_entry_def iobind_def demo_world_def Let_def)
  ultimately show ?thesis
    using server_child_typed [of "[]" "(0, 0)" START zero_ServerInfo "demo_world [] []" "\<lambda>_. zero_pollfd"]
    by (cases ?run) auto
qed

end
