(* ===== verification/CTypes_Client.thy ===== *)
theory CTypes_Client
  imports CTypes Rcopy_Correct
begin

text \<open>
  What \<open>CTypes\<close> shows for a child of the server, for the client: the fields of \<open>RcopyInfo\<close> and of its \<open>Window\<close> stay within their C types in
  every run, whatever the command line, the file and the network give it.
\<close>

section \<open>The window\<close>

definition typed_WindowEntry :: "WindowEntry \<Rightarrow> bool" where
  "typed_WindowEntry e \<longleftrightarrow> c_int (we_packet_len e) \<and> we_used e \<in> {0, 1} \<and> length (we_packet e) = SREJ_MAX_PACKET"

definition typed_Window :: "Window \<Rightarrow> bool" where
  "typed_Window win \<longleftrightarrow> c_int (win_size win) \<and> length (win_entry win) = nat (win_size win) \<and>
    list_all typed_WindowEntry (win_entry win)"

lemma typed_zero_Window: "typed_Window zero_Window"
  by (simp add: typed_Window_def zero_Window_def c_int_def)

lemma typed_Window_edges [simp]: "typed_Window (win\<lparr>win_lower := a\<rparr>) = typed_Window win"
  "typed_Window (win\<lparr>win_upper := b\<rparr>) = typed_Window win" "typed_Window (win\<lparr>win_current := c\<rparr>) = typed_Window win"
  by (simp_all add: typed_Window_def)

lemma typed_put_entry:
  assumes "typed_Window win" and "typed_WindowEntry e" and "arr_put (win_entry win) spot e = Inr es"
  shows "typed_Window (win\<lparr>win_entry := es\<rparr>)"
  using typed_arr_put [of typed_WindowEntry, OF _ assms(2,3)] assms(1) by (simp add: typed_Window_def)

lemma ret_window_init:
  assumes "typed_world w" and "c_int sz" and "\<And>win v. typed_Window win \<Longrightarrow> typed_world v \<Longrightarrow> P win v"
  shows "returns (window_init win sz seq) w P"
  using assms
  by (auto simp: returns_def window_init_def sys_calloc_def iobind_def typed_world_def typed_Window_def
      typed_WindowEntry_def zero_WindowEntry_def c_int_def list_all_length intro!: assms(3) split: if_splits)

lemma typed_window_add:
  assumes win: "typed_Window win" and len: "c_int packet_len" and a: "window_add win seq packet packet_len = Inr win'"
  shows "typed_Window win'"
proof -
  from a obtain spot e p p' es where e: "arr_get (win_entry win) spot = Inr e" and p: "mem_write (we_packet e) 0 p = Inr p'"
    and es: "arr_put (win_entry win) spot (e\<lparr>we_seq := seq, we_packet_len := packet_len, we_used := 1, we_packet := p'\<rparr>) = Inr es"
    and win': "win' = (if seq = win_current win then win\<lparr>win_entry := es, win_current := win_current win + 1\<rparr> else win\<lparr>win_entry := es\<rparr>)"
    by (auto simp: window_add_def rbind_eq_Inr)
  have "typed_WindowEntry e" using win typed_arr_get [of typed_WindowEntry, OF _ e] by (simp add: typed_Window_def)
  then have "typed_WindowEntry (e\<lparr>we_seq := seq, we_packet_len := packet_len, we_used := 1, we_packet := p'\<rparr>)"
    using mem_write_length [OF p] len by (simp add: typed_WindowEntry_def)
  from typed_put_entry [OF win this es] show ?thesis by (simp add: win')
qed

lemma typed_rr_release: "typed_Window win \<Longrightarrow> rr_release win rr_seq seq = Inr win' \<Longrightarrow> typed_Window win'"
proof (induction win rr_seq seq rule: rr_release.induct)
  case (1 win rr_seq seq)
  show ?case
  proof (cases "seq < rr_seq \<and> seq < win_current win")
    case True
    then obtain spot e es where s: "spot_of seq (win_size win) = Inr spot" and e: "arr_get (win_entry win) spot = Inr e"
      and es: "(if we_seq e = seq then arr_put (win_entry win) spot (e\<lparr>we_used := 0\<rparr>) else Inr (win_entry win)) = Inr es"
      and rest: "rr_release (win\<lparr>win_entry := es\<rparr>) rr_seq (seq + 1) = Inr win'"
      using "1.prems"(2) unfolding rr_release.simps [of win rr_seq seq] by (auto simp: rbind_eq_Inr)
    have "typed_WindowEntry (e\<lparr>we_used := 0\<rparr>)"
      using "1.prems"(1) typed_arr_get [of typed_WindowEntry, OF _ e] by (simp add: typed_Window_def typed_WindowEntry_def)
    with es "1.prems"(1) typed_put_entry have "typed_Window (win\<lparr>win_entry := es\<rparr>)" by (auto split: if_splits)
    then show ?thesis using "1.IH" [OF True s e es] rest by blast
  next
    case False
    with "1.prems" show ?thesis by (simp add: rr_release.simps [of win rr_seq seq])
  qed
qed

lemma typed_rr_advance: "typed_Window win \<Longrightarrow> rr_advance win = Inr win' \<Longrightarrow> typed_Window win'"
proof (induction win rule: rr_advance.induct)
  case (1 win)
  show ?case
  proof (cases "win_lower win < win_current win")
    case True
    with "1.prems"(2) obtain entry where e: "window_find win (win_lower win) = Inr entry"
      "(case entry of None \<Rightarrow> rr_advance (win\<lparr>win_lower := win_lower win + 1\<rparr>) | Some _ \<Rightarrow> Inr win) = Inr win'"
      unfolding rr_advance.simps [of win] by (auto simp: rbind_eq_Inr)
    with True "1.prems" "1.IH" [OF True e(1)] show ?thesis by (cases entry) simp_all
  next
    case False
    with "1.prems" show ?thesis by (simp add: rr_advance.simps [of win])
  qed
qed

lemma typed_window_rr:
  assumes "typed_Window win" and "window_rr win rr_seq = Inr win'"
  shows "typed_Window win'"
proof -
  from assms(2) obtain a b where a: "rr_release win rr_seq (win_lower win) = Inr a" and b: "rr_advance a = Inr b"
    and win': "win' = b\<lparr>win_upper := win_lower b + word_of_int (win_size b)\<rparr>"
    by (auto simp: window_rr_def rbind_eq_Inr)
  have "typed_Window b" by (rule typed_rr_advance [OF typed_rr_release [OF assms(1) a] b])
  then show ?thesis by (simp add: win')
qed

section \<open>Control packets\<close>

text \<open>The retry counter stays below its limit until the client is done.\<close>

definition typed_RcopyInfo :: "Rcopy.STATE \<Rightarrow> RcopyInfo \<Rightarrow> bool" where
  "typed_RcopyInfo st info \<longleftrightarrow>
    list_all c_int [ri_socket_num info, ri_input_file info, ri_window_size info, ri_buffer_size info] \<and>
    ri_file_done info \<in> {0, 1} \<and> ri_had_error info \<in> {0, 1} \<and>
    0 \<le> ri_retry_count info \<and> ri_retry_count info \<le> MAX_TRIES \<and> (st \<noteq> Rcopy.DONE \<longrightarrow> ri_retry_count info < MAX_TRIES) \<and>
    typed_Window (ri_window info)"

definition typed_client :: "Rcopy.STATE \<Rightarrow> RcopyInfo \<Rightarrow> world \<Rightarrow> bool" where
  "typed_client st info w \<longleftrightarrow> typed_RcopyInfo st info \<and> typed_world w"

lemma typed_RcopyInfo_update [simp]: "typed_RcopyInfo st (info\<lparr>ri_server := a\<rparr>) = typed_RcopyInfo st info"
  "typed_RcopyInfo st (info\<lparr>ri_control_seq := q\<rparr>) = typed_RcopyInfo st info"
  by (simp_all add: typed_RcopyInfo_def)

lemma typed_client_window: "typed_client st info w \<Longrightarrow> typed_Window win \<Longrightarrow> typed_client st (info\<lparr>ri_window := win\<rparr>) w"
  by (simp add: typed_client_def typed_RcopyInfo_def)

lemma typed_clientD: "typed_client st info w \<Longrightarrow> typed_world w \<and> typed_Window (ri_window info)"
  by (simp add: typed_client_def typed_RcopyInfo_def)

lemma typed_client_world: "typed_client st info w \<Longrightarrow> typed_world v \<Longrightarrow> typed_client st info v"
  by (simp add: typed_client_def)

lemma typed_client_phase: "typed_client st info w \<Longrightarrow> st \<noteq> Rcopy.DONE \<Longrightarrow> typed_client st' info w"
  by (auto simp: typed_client_def typed_RcopyInfo_def)

lemma typed_client_failed: "typed_client st info w \<Longrightarrow> typed_client Rcopy.DONE (info\<lparr>ri_had_error := 1\<rparr>) w"
  by (auto simp: typed_client_def typed_RcopyInfo_def)

lemma handle_rr_cases:
  assumes "handle_rr info p n = Inr i"
  obtains "i = info" | r win where "window_rr (ri_window info) r = Inr win" "info\<lparr>ri_window := win\<rparr> = i"
proof (cases "n < int SREJ_HEADER_LEN + 4")
  case True
  then show thesis using assms that(1) by (simp add: handle_rr_def)
next
  case False
  then show thesis
    using assms that(2) unfolding handle_rr_def if_not_P [OF False] rbind_eq_Inr sum.inject by blast
qed

lemma typed_handle_rr:
  assumes "typed_client st info w" and "handle_rr info p n = Inr i"
  shows "typed_client st i w"
  using assms(2)
proof (cases rule: handle_rr_cases)
  case (2 r win)
  have "typed_Window win" by (rule typed_window_rr [OF _ 2(1)]) (use typed_clientD [OF assms(1)] in simp)
  then show ?thesis unfolding 2(2) [symmetric] by (rule typed_client_window [OF assms(1)])
qed (use assms(1) in simp)

lemma ret_resend_packet:
  assumes i: "typed_client st info w" and P: "\<And>v. typed_client st info v \<Longrightarrow> P () v"
  shows "returns (resend_packet info e) w P"
  unfolding resend_packet_def
  by (rule ret_safeSendto) (use i typed_client_world [OF i] P in \<open>auto dest: typed_clientD\<close>)

lemma ret_handle_reject:
  assumes i: "typed_client st info w" and P: "\<And>v. typed_client st info v \<Longrightarrow> P () v"
  shows "returns (handle_reject info p n) w P"
proof -
  have "returns (resend_packet info e) w P" for e by (rule ret_resend_packet [OF i]) (rule P)
  then show ?thesis
    unfolding handle_reject_def using P [OF i] by (auto intro!: returns_bind split: option.split)
qed

lemma ret_controls_turn:
  assumes i: "typed_client st info w" and P: "\<And>r v. typed_client st (fst r) v \<Longrightarrow> P r v"
  shows "returns (controls_turn info) w P"
  unfolding controls_turn_def
proof (rule returns_bind, rule ret_safeRecvfrom)
  fix a m v
  assume "typed_world v"
  then have j: "typed_client st (info\<lparr>ri_server := a\<rparr>) v" using i by (simp add: typed_client_def)
  show "returns (case (a, m) of (server, packet) \<Rightarrow>
      let info = info\<lparr>ri_server := server\<rparr>; packet_len = int (length packet) in
      iobind (lift_res (check_packet packet packet_len)) (\<lambda>ok.
        if \<not> ok then ret (info, False)
        else iobind (lift_res (get_flag packet)) (\<lambda>flag.
          if flag = FLAG_RR then
            iobind (lift_res (handle_rr info packet packet_len)) (\<lambda>info. ret (info, True))
          else if flag = FLAG_SREJ then
            iobind (handle_reject info packet packet_len) (\<lambda>_. ret (info, True))
          else ret (info, False)))) v P"
    using j typed_handle_rr [OF j] P by (auto simp: Let_def intro!: returns_bind ret_handle_reject [OF j])
qed (use typed_clientD [OF i] in simp)

lemma ret_controls_loop:
  assumes "typed_client st info w" and P: "\<And>r v. typed_client st (fst r) v \<Longrightarrow> P r v"
  shows "returns (controls_loop info ready count) w P"
  using assms(1)
proof (induction info ready count w rule: controls_loop.induct)
  case (1 info ready count w)
  show ?case
    unfolding returns_def
  proof (intro allI impI)
    fix x v
    assume run: "controls_loop info ready count w = (Inr x, v)"
    show "P x v"
    proof (cases "ready \<ge> 0")
      case True
      with run obtain turn u ready' u' where t: "controls_turn info w = (Inr turn, u)"
        "pollCall POLL_NOW u = (Inr ready', u')"
        "controls_loop (fst turn) ready' (if snd turn then count + 1 else count) u' = (Inr x, v)"
        unfolding controls_loop.simps [of info ready count w] by (auto elim!: iobind_Inr_cases)
      have "typed_client st (fst turn) u"
        using ret_controls_turn [OF "1.prems", of "\<lambda>r v. typed_client st (fst r) v"] t(1) by (simp add: returns_def)
      moreover have "typed_world u'"
        using ret_pollCall [of u "\<lambda>_. typed_world"] typed_clientD [OF calculation] t(2) by (auto simp: returns_def)
      ultimately have "returns (controls_loop (fst turn) ready' (if snd turn then count + 1 else count)) u' P"
        using "1.IH" [OF True t(1,2)] typed_client_world by blast
      with t(3) show ?thesis by (simp add: returns_def)
    next
      case False
      with run "1.prems" P show ?thesis by (auto simp: controls_loop.simps [of info ready count w])
    qed
  qed
qed

lemma ret_process_controls:
  assumes i: "typed_client st info w" and P: "\<And>r v. typed_client st (fst r) v \<Longrightarrow> P r v"
  shows "returns (process_controls info t) w P"
  unfolding process_controls_def
proof (rule returns_bind, rule ret_pollCall)
  show "typed_world w" using typed_clientD [OF i] ..
  fix k v assume "typed_world v"
  then show "returns (controls_loop info k 0) v P" by (rule ret_controls_loop [OF typed_client_world [OF i] P])
qed

section \<open>Sending the file\<close>

lemma typed_client_progress: "typed_client st info w \<Longrightarrow> typed_client st (info\<lparr>ri_retry_count := 0\<rparr>) w"
  by (simp add: typed_client_def typed_RcopyInfo_def)

lemma ret_send_chunk:
  assumes i: "typed_client st info w" and n: "int (length bs) = n"
    and P: "\<And>j v. typed_client st j v \<Longrightarrow> P j v"
  shows "returns (send_chunk info bs n) w P"
proof -
  let ?seq = "win_current (ri_window info)"
  have chunk: "returns (iobind (safeSendto packet len (ri_server info)) (\<lambda>_.
      iobind (lift_res (window_add (ri_window info) ?seq packet len)) (\<lambda>win.
      iobind (process_controls (info\<lparr>ri_window := win, ri_retry_count := 0\<rparr>) POLL_NOW) (\<lambda>r. ret (fst r))))) w P"
    if mw: "mem_write (uninit SREJ_MAX_DATA) 0 bs = Inr data"
      and mk: "make_packet (uninit SREJ_MAX_PACKET) ?seq FLAG_DATA data n = Inr (packet, len)" for data packet len
  proof -
    have "length bs \<le> SREJ_MAX_DATA" using mw by (auto simp: mem_write_def split: if_splits)
    then have len: "c_int len" using typed_make_packet [OF mk] n by (simp add: c_int_def)
    show ?thesis
    proof (rule returns_bind, rule ret_safeSendto)
      fix v assume v: "typed_world v"
      have "typed_client st (info\<lparr>ri_window := win, ri_retry_count := 0\<rparr>) v"
        if "window_add (ri_window info) ?seq packet len = Inr win" for win
        using typed_client_progress [OF typed_client_window [OF typed_client_world [OF i v] typed_window_add [OF _ len that]]]
          typed_clientD [OF i] by simp
      then show "returns (iobind (lift_res (window_add (ri_window info) ?seq packet len)) (\<lambda>win.
          iobind (process_controls (info\<lparr>ri_window := win, ri_retry_count := 0\<rparr>) POLL_NOW) (\<lambda>r. ret (fst r)))) v P"
        by (auto intro!: returns_bind ret_process_controls P)
    qed (use typed_clientD [OF i] in simp)
  qed
  then show ?thesis
    unfolding send_chunk_def Let_def by (auto intro!: returns_bind)
qed

lemma sys_read_length: "sys_read n w = (Inr r, v) \<Longrightarrow> 0 < snd r \<Longrightarrow> int (length (fst r)) = snd r"
proof -
  assume r: "sys_read n w = (Inr r, v)" "0 < snd r"
  have "read_amount w n \<le> int (length (in_rest w))"
    by (auto simp: read_amount_def Let_def split: list.split read_answer.split)
  with r show ?thesis by (auto simp: sys_read_def Let_def)
qed

lemma sys_read_typed: "sys_read n w = (Inr r, v) \<Longrightarrow> typed_world w \<Longrightarrow> typed_world v"
  by (auto simp: sys_read_def Let_def typed_world_def)

abbreviation typed_next :: "Rcopy.STATE \<times> RcopyInfo \<Rightarrow> world \<Rightarrow> bool" where
  "typed_next x v \<equiv> typed_client (fst x) (snd x) v"

lemma ret_send_data_loop:
  assumes "typed_client st info w" and "st \<noteq> Rcopy.DONE"
  shows "returns (send_data_loop info) w (\<lambda>(early, j) v. case early of Some q \<Rightarrow> typed_client q j v | None \<Rightarrow> typed_client st j v)"
  using assms(1)
proof (induction info w rule: send_data_loop.induct)
  case (1 info w)
  let ?P = "\<lambda>(early, j) v. case early of Some q \<Rightarrow> typed_client q j v | None \<Rightarrow> typed_client st j v"
  show ?case
  proof (cases "window_open (ri_window info) \<and> ri_file_done info = 0")
    case True
    obtain r v where r: "sys_read (ri_buffer_size info) w = (Inr r, v)" by (auto simp: sys_read_def Let_def)
    have v: "typed_client st info v"
      using typed_client_world [OF "1.prems"] sys_read_typed [OF r] typed_clientD [OF "1.prems"] by blast
    have "returns (iobind (send_chunk info (fst r) (snd r)) (\<lambda>info. send_data_loop info)) v ?P" if "0 < snd r"
    proof -
      have "returns (send_chunk info (fst r) (snd r)) v (\<lambda>j u. typed_client st j u)"
        by (rule ret_send_chunk [OF v sys_read_length [OF r that]])
      moreover have "returns (send_data_loop j) u ?P" if "typed_client st j u" "send_chunk info (fst r) (snd r) v = (Inr j, u)" for j u
        using "1.IH" [OF True r _ _ that(2,1)] \<open>0 < snd r\<close> by simp
      ultimately show ?thesis by (auto simp: returns_def iobind_def split: prod.splits sum.splits)
    qed
    moreover have "typed_client Rcopy.DONE (info\<lparr>ri_had_error := 1\<rparr>) v" "typed_client st (info\<lparr>ri_file_done := 1\<rparr>) v"
      using v by (auto simp: typed_client_def typed_RcopyInfo_def)
    moreover have "send_data_loop info w =
        (if snd r < 0 then (Inr (Some Rcopy.DONE, info\<lparr>ri_had_error := 1\<rparr>), v)
         else if snd r = 0 then (Inr (None, info\<lparr>ri_file_done := 1\<rparr>), v)
         else iobind (send_chunk info (fst r) (snd r)) (\<lambda>info. send_data_loop info) v)"
      unfolding send_data_loop.simps [of info w] if_P [OF True] iobind_def [of "sys_read _"] r by simp
    ultimately show ?thesis by (cases "0 < snd r") (auto simp: returns_def)
  next
    case False
    show ?thesis
      unfolding returns_def send_data_loop.simps [of info w] if_not_P [OF False] using "1.prems" by simp
  qed
qed

lemma ret_send_data_state:
  assumes "typed_client SEND_DATA info w"
  shows "returns (send_data_state info) w typed_next"
  unfolding send_data_state_def
  by (rule returns_bind, rule returns_mono [OF ret_send_data_loop [OF assms]])
    (auto split: option.splits intro: typed_client_phase)

lemma ret_wait_on_ack_state:
  assumes i: "typed_client WAIT_ON_ACK info w"
  shows "returns (wait_on_ack_state info) w typed_next"
  unfolding wait_on_ack_state_def
proof (rule returns_bind, rule ret_process_controls [OF i])
  fix r :: "RcopyInfo \<times> int" and v
  assume r: "typed_client WAIT_ON_ACK (fst r) v"
  let ?i = "(fst r)\<lparr>ri_retry_count := ri_retry_count (fst r) + 1\<rparr>"
  have "typed_client Rcopy.DONE (?i\<lparr>ri_had_error := 1\<rparr>) v" "ri_retry_count ?i < MAX_TRIES \<Longrightarrow> typed_client WAIT_ON_ACK ?i v"
    using r by (auto simp: typed_client_def typed_RcopyInfo_def)
  then show "returns (case r of (info, got_control) \<Rightarrow>
      if got_control > 0 then ret (SEND_DATA, info\<lparr>ri_retry_count := 0\<rparr>)
      else iobind (lift_res (window_lowest (ri_window info))) (\<lambda>entry.
        case entry of
          None \<Rightarrow> ret (SEND_DATA, info)
        | Some e \<Rightarrow>
            let info = info\<lparr>ri_retry_count := ri_retry_count info + 1\<rparr> in
            if ri_retry_count info \<ge> MAX_TRIES then ret (Rcopy.DONE, info\<lparr>ri_had_error := 1\<rparr>)
            else iobind (resend_packet info e) (\<lambda>_. ret (WAIT_ON_ACK, info)))) v typed_next"
    using typed_client_phase [OF r] typed_client_progress
    by (cases r) (auto simp: Let_def split: option.split intro!: returns_bind ret_resend_packet [where st = WAIT_ON_ACK])
qed

section \<open>The first and the last exchange\<close>

lemma ret_ask:
  assumes "typed_world w" and "\<And>v. typed_world v \<Longrightarrow> returns q v P"
    and "\<And>a m v. typed_world v \<Longrightarrow> returns (g (a, m)) v P"
  shows "returns (iobind (safeSendto buf len dst) (\<lambda>_. iobind (pollCall t) (\<lambda>ready. if ready < 0 then q
    else iobind (safeRecvfrom (int SREJ_MAX_PACKET)) g))) w P"
  by (rule returns_bind, rule ret_safeSendto [OF assms(1)], rule ret_receive) (use assms(2,3) in auto)

lemma ret_send_final_done: "typed_world w \<Longrightarrow> (\<And>v. typed_world v \<Longrightarrow> P () v) \<Longrightarrow> returns (send_final_done info) w P"
  unfolding send_final_done_def by (auto intro!: returns_bind ret_safeSendto)

lemma ret_send_eof_loop:
  assumes "typed_client SEND_EOF info w"
  shows "returns (send_eof_loop info packet n tries) w typed_next"
  using assms
proof (induction "nat (10 - tries)" arbitrary: tries info w rule: less_induct)
  case less
  show ?case
  proof (cases "tries < MAX_TRIES")
    case False
    with typed_client_failed [OF less.prems] show ?thesis by (simp add: send_eof_loop.simps [of info packet n tries])
  next
    case True
    have again: "returns (send_eof_loop j packet n (tries + 1)) v typed_next" if "typed_client SEND_EOF j v" for j v
      by (rule less.hyps) (use True that in simp_all)
    show ?thesis
      unfolding send_eof_loop.simps [of info packet n tries] if_P [OF True]
    proof (rule ret_ask)
      show "typed_world w" using typed_clientD [OF less.prems] ..
      show "returns (send_eof_loop info packet n (tries + 1)) v typed_next" if "typed_world v" for v
        by (rule again [OF typed_client_world [OF less.prems that]])
      fix a m v assume v: "typed_world v"
      then have j: "typed_client SEND_EOF (info\<lparr>ri_server := a\<rparr>) v" using less.prems by (simp add: typed_client_def)
      have "returns (send_final_done (info\<lparr>ri_server := a\<rparr>)) v (\<lambda>_ u. typed_client Rcopy.DONE (info\<lparr>ri_server := a\<rparr>) u)"
        by (rule ret_send_final_done [OF v]) (use typed_client_phase [OF typed_client_world [OF j]] in simp)
      with again [OF j] show "returns (case (a, m) of (server, in_packet) \<Rightarrow>
           let info = info\<lparr>ri_server := server\<rparr> in
           iobind (lift_res (check_packet in_packet (int (length in_packet)))) (\<lambda>ok.
           iobind (if ok then lift_res (get_flag in_packet) else ret 0) (\<lambda>flag.
             if ok \<and> flag = FLAG_EOF_ACK then iobind (send_final_done info) (\<lambda>_. ret (Rcopy.DONE, info))
             else send_eof_loop info packet n (tries + 1)))) v typed_next"
        by (auto simp: Let_def intro!: returns_bind)
    qed
  qed
qed

lemma ret_filename_loop:
  assumes "typed_client st info w"
  shows "returns (filename_loop info packet n tries) w (\<lambda>x v. typed_client st (snd x) v)"
  using assms
proof (induction "nat (10 - tries)" arbitrary: tries info w rule: less_induct)
  case less
  let ?P = "\<lambda>x v. typed_client st (snd x) v"
  show ?case
  proof (cases "tries < MAX_TRIES")
    case False
    with less.prems show ?thesis by (simp add: filename_loop.simps [of info packet n tries])
  next
    case True
    have again: "returns (filename_loop j packet n (tries + 1)) v ?P" if "typed_client st j v" for j v
      by (rule less.hyps) (use True that in simp_all)
    show ?thesis
      unfolding filename_loop.simps [of info packet n tries] if_P [OF True]
    proof (rule ret_ask)
      show "typed_world w" using typed_clientD [OF less.prems] ..
      show "returns (filename_loop info packet n (tries + 1)) v ?P" if "typed_world v" for v
        by (rule again [OF typed_client_world [OF less.prems that]])
      fix a m v assume "typed_world v"
      then have j: "typed_client st (info\<lparr>ri_server := a\<rparr>) v" using less.prems by (simp add: typed_client_def)
      then have "typed_client st (info\<lparr>ri_server := a, ri_control_seq := q\<rparr>) v" for q by (simp add: typed_client_def)
      with j again [OF j] show "returns (case (a, m) of (server, in_packet) \<Rightarrow>
           let info = info\<lparr>ri_server := server\<rparr>; in_len = int (length in_packet) in
           iobind (lift_res (check_packet in_packet in_len)) (\<lambda>ok.
           iobind (if ok then lift_res (get_flag in_packet) else ret 0) (\<lambda>flag.
             if ok \<and> flag = FLAG_FILENAME_RESP then
               if in_len < int SREJ_HEADER_LEN + 1 then ret (False, info)
               else iobind (lift_res (arr_get in_packet (int SREJ_HEADER_LEN))) (\<lambda>value.
                 if value \<noteq> 0 then ret (False, info)
                 else ret (True, info\<lparr>ri_control_seq := ri_control_seq info + 1\<rparr>))
             else filename_loop info packet n (tries + 1)))) v ?P"
        by (auto simp: Let_def intro!: returns_bind)
    qed
  qed
qed

lemma ret_filename:
  assumes i: "typed_client FILENAME info w"
  shows "returns (Rcopy.filename_state argv info) w typed_next"
proof -
  have sent: "returns (send_filename_packet name info) w (\<lambda>x v. typed_client FILENAME (snd x) v)" for name
    unfolding send_filename_packet_def Let_def
    by (auto intro!: returns_bind ret_filename_loop [OF i])
  have opened: "returns (iobind (window_init (ri_window j) (ri_window_size j) (ri_control_seq j)) (\<lambda>win.
      ret (SEND_DATA, j\<lparr>ri_window := win\<rparr>))) v typed_next" if j: "typed_client FILENAME j v" for j v
  proof (rule returns_bind, rule ret_window_init)
    show "typed_world v" "c_int (ri_window_size j)" using j by (simp_all add: typed_client_def typed_RcopyInfo_def)
    fix win u assume "typed_Window win" "typed_world u"
    then show "returns (ret (SEND_DATA, j\<lparr>ri_window := win\<rparr>)) u typed_next"
      using typed_client_phase [OF typed_client_window [OF typed_client_world [OF j]], of u win SEND_DATA] by simp
  qed
  show ?thesis
    unfolding Rcopy.filename_state_def
    by (auto intro!: returns_bind returns_mono [OF sent] opened typed_client_failed [where st = FILENAME])
qed

lemma ret_setupUdp:
  assumes "typed_world w" and "\<And>s a v. c_int s \<Longrightarrow> typed_world v \<Longrightarrow> P (s, a) v"
  shows "returns (setupUdpClientToServer port) w P"
  unfolding setupUdpClientToServer_def
proof (rule returns_bind, rule ret_createUdpSocket [OF assms(1)])
  fix s v assume "c_int s" "typed_world v"
  then show "returns (iobind sys_getaddrinfo (\<lambda>ipAddress. case ipAddress of None \<Rightarrow> halts (Exit (- 1))
      | Some ip \<Rightarrow> ret (s, (ip, ntohs (word_of_int port))))) v P"
    using assms(2) by (auto simp: returns_def sys_getaddrinfo_def iobind_def typed_world_def split: list.splits option.splits)
qed

lemma ret_open_input:
  assumes "typed_world w" and "\<And>fd v. c_int fd \<Longrightarrow> typed_world v \<Longrightarrow> P fd v"
  shows "returns (open_input_file name) w P"
  unfolding open_input_file_def sys_open_read_def
  by (intro returns_bind ret_new_fd [OF assms(1)]) (use assms(2) in \<open>auto simp: returns_def typed_world_def\<close>)

lemma c_int_atoi [simp]: "c_int (atoi s)"
  by (simp add: atoi_def)

lemma ret_start:
  assumes i: "typed_client START_STATE info w"
  shows "returns (Rcopy.start_state junk argv info) w typed_next"
proof -
  have "typed_RcopyInfo FILENAME (info\<lparr>ri_window_size := atoi a, ri_buffer_size := atoi b, ri_input_file := fd,
      ri_socket_num := s\<rparr>)" if "c_int fd" "c_int s" for a b fd s
    using i that by (simp add: typed_client_def typed_RcopyInfo_def)
  then show ?thesis
    unfolding Rcopy.start_state_def Let_def
    by (auto simp: typed_client_def intro!: returns_bind ret_open_input ret_setupUdp ret_setupPollSet ret_addToPollSet
        typed_clientD [OF i, THEN conjunct1])
qed

section \<open>The client's types\<close>

text \<open>C33: the types of the C declarations hold in every run of the client, whatever is on its command line, in
  the file and on the network: from cleared memory on, and then through every turn of the state machine,
  each \<open>int\<close> of \<open>RcopyInfo\<close> and its \<open>Window\<close> stays within 32 bits, each flag is 0 or 1, the retry counter
  stays below its limit until the client is done, and each array keeps its length.\<close>

theorem client_typed:
  "typed_RcopyInfo START_STATE zero_RcopyInfo \<and>
   (\<forall>x v. typed_RcopyInfo st info \<and> typed_world w \<and> rcopy_step junk argv st info w = (Inr x, v) \<longrightarrow>
    typed_RcopyInfo (fst x) (snd x) \<and> typed_world v)"
proof (intro conjI impI allI)
  show "typed_RcopyInfo START_STATE zero_RcopyInfo"
    by (simp add: typed_RcopyInfo_def zero_RcopyInfo_def typed_zero_Window c_int_def)
next
  fix x v
  assume a: "typed_RcopyInfo st info \<and> typed_world w \<and> rcopy_step junk argv st info w = (Inr x, v)"
  then have i: "typed_client st info w" by (simp add: typed_client_def)
  have "returns (send_eof_state info) w typed_next" if "st = SEND_EOF"
    unfolding send_eof_state_def using i that by (auto intro!: returns_bind ret_send_eof_loop)
  with i have "returns (rcopy_step junk argv st info) w typed_next"
    using ret_start ret_filename ret_send_data_state ret_wait_on_ack_state
    by (cases st) (simp_all add: rcopy_step_def)
  with a have "typed_next x v" by (simp add: returns_def)
  then show "typed_RcopyInfo (fst x) (snd x)" "typed_world v" by (simp_all add: typed_client_def)
qed

lemma client_typed_witness:
  "\<exists>info v. rcopy_step (\<lambda>_. zero_pollfd) (replicate 8 []) START_STATE zero_RcopyInfo (demo_world [] []) = (Inr (FILENAME, info), v) \<and>
    typed_RcopyInfo FILENAME info \<and> typed_world v"
proof -
  let ?run = "rcopy_step (\<lambda>_. zero_pollfd) (replicate 8 []) START_STATE zero_RcopyInfo (demo_world [] [])"
  have "typed_RcopyInfo START_STATE zero_RcopyInfo \<and> typed_world (demo_world [] [])"
    by (simp add: typed_RcopyInfo_def zero_RcopyInfo_def typed_zero_Window typed_world_def demo_world_def c_int_def)
  moreover have "\<exists>info. fst ?run = Inr (FILENAME, info)"
    by (simp add: rcopy_step_def Rcopy.start_state_def open_input_file_def sys_open_read_def sys_new_fd_def
      setupUdpClientToServer_def createUdpSocket_def sys_getaddrinfo_def setupPollSet_def sCalloc_def
      sys_calloc_def addToPollSet_def set_entry_def iobind_def demo_world_def Let_def)
  ultimately show ?thesis
    using client_typed [of START_STATE zero_RcopyInfo "demo_world [] []" "\<lambda>_. zero_pollfd" "replicate 8 []"]
    by (cases ?run) auto
qed

end
