(* ===== verification/EventLog.thy ===== *)
theory EventLog
  imports ErrLib_Correct
begin

text \<open>
  The log of the event \<open>infoSeqNo\<close> and the report the library prints when a process ends.
\<close>

section \<open>What computations leave of the standard events\<close>

text \<open>\<open>keeps S f\<close>: every run of \<open>f\<close>, complete or not, takes a state to one \<open>S\<close> relates it to.\<close>

definition keeps :: "(errlib \<Rightarrow> errlib \<Rightarrow> bool) \<Rightarrow> 'a lib \<Rightarrow> bool" where
  "keeps S f \<longleftrightarrow> (\<forall>l. S l (snd (f l)))"

definition same_standard :: "errlib \<Rightarrow> errlib \<Rightarrow> bool" where
  "same_standard l l' \<longleftrightarrow> m_ErrorCase_Constant l' = m_ErrorCase_Constant l"

definition is_drop :: "MsgEvent \<Rightarrow> bool" where
  "is_drop ev = (case ev of ErrorDrop _ _ \<Rightarrow> True | _ \<Rightarrow> False)"

definition drops_stay :: "errlib \<Rightarrow> errlib \<Rightarrow> bool" where
  "drops_stay l l' \<longleftrightarrow> (list_all is_drop (m_ErrorCase_Constant l) \<longrightarrow> list_all is_drop (m_ErrorCase_Constant l'))"

named_theorems keeps_intros

lemma keepsD: "keeps S f \<Longrightarrow> S l (snd (f l))"
  by (simp add: keeps_def)

lemma keeps_bind:
  assumes "transp S" and "keeps S f" and "\<And>x. keeps S (g x)"
  shows "keeps S (iobind f g)"
  unfolding keeps_def
proof
  fix l
  obtain r k where f: "f l = (r, k)" by (cases "f l")
  then have "S l k" using keepsD [OF assms(2), of l] by simp
  moreover have "S k (snd (g x k))" for x by (rule keepsD [OF assms(3)])
  ultimately show "S l (snd (iobind f g l))"
    using f transpD [OF assms(1)] by (cases r) (auto simp: iobind_def)
qed

lemma same_standard_order: "reflp same_standard" "transp same_standard"
  by (auto simp: same_standard_def intro: reflpI transpI)

lemma drops_stay_order: "reflp drops_stay" "transp drops_stay"
  by (auto simp: drops_stay_def intro: reflpI transpI)

lemma same_drops: "keeps same_standard f \<Longrightarrow> keeps drops_stay f"
  by (simp add: keeps_def same_standard_def drops_stay_def)

lemmas standard_bind [keeps_intros] = keeps_bind [OF same_standard_order(2)]

lemma standard_pure [keeps_intros]:
  "keeps same_standard (ret x)" "keeps same_standard (halts h)" "keeps same_standard (lift_res r)"
  by (simp_all add: keeps_def same_standard_def)

lemma standard_steps [keeps_intros]:
  "keeps same_standard (dbg_print level n)" "keeps same_standard drand48" "keeps same_standard (srand48 s)"
  "keeps same_standard (put_chance evs)" "keeps same_standard (real_send dst bs)" "keeps same_standard next_MsgNo"
  "keeps same_standard (addMsgEvent_Random e)" "keeps same_standard (setErrorRate rate)"
  "keeps same_standard (dbg_setlevel lv)" "keeps same_standard (put_nextSeed s)" "keeps same_standard get_nextSeed"
  by (simp_all add: keeps_def same_standard_def dbg_print_def drand48_def srand48_def put_chance_def real_send_def
      next_MsgNo_def addMsgEvent_Random_def setErrorRate_def dbg_setlevel_def put_nextSeed_def get_nextSeed_def
      Let_def split: option.split)

lemma standard_event_run [keeps_intros]: "keeps same_standard (event_run ev pBuf no)"
  unfolding event_run_def errorDrop_run_def errorFlipBits_run_def infoSeqNo_run_def Let_def
  by (auto split: MsgEvent.split option.split intro!: keeps_intros)

lemma standard_run_random [keeps_intros]: "keeps same_standard (run_random pBuf no)"
proof -
  have "keeps same_standard (iobind drand48 (\<lambda>y.
       let randCase = int (scaled (round_float (length evs)) y) in
       iobind (lift_res (arr_get evs randCase)) (\<lambda>ev.
       iobind (event_run ev pBuf no) (\<lambda>(ev, pBuf, nResult).
       iobind (lift_res (arr_put evs randCase ev)) (\<lambda>evs.
       iobind (put_chance evs) (\<lambda>_. ret (pBuf, nResult)))))))" for evs
    unfolding Let_def by (auto intro!: keeps_intros split: prod.split)
  then show ?thesis by (simp add: keeps_def run_random_def Let_def)
qed

lemma standard_if [keeps_intros]:
  "keeps same_standard f \<Longrightarrow> keeps same_standard g \<Longrightarrow> keeps same_standard (\<lambda>l. if b l then f l else g l)"
  by (simp add: keeps_def)

lemma standard_process_random [keeps_intros]: "keeps same_standard (process_random pBuf no d n)"
  unfolding process_random_def
  by (intro standard_bind standard_steps standard_if) (auto intro!: keeps_intros split: prod.split)

lemma standard_printType [keeps_intros]: "keeps same_standard (printType flag b)"
  unfolding printType_def Let_def by (auto intro!: keeps_intros)

lemma standard_transmit [keeps_intros]: "keeps same_standard (transmit dst pBuf len)"
  unfolding transmit_def by (auto intro!: keeps_intros split: option.split)

section \<open>The log\<close>

text \<open>How often each number occurs in a history, as \<open>m_Count\<close> counts it: in 32 bits, without the numbers
  that do not occur.\<close>

definition tally :: "u32 list \<Rightarrow> u32 \<Rightarrow> u32 option" where
  "tally h v = (if v \<in> set h then Some (of_nat (count_list h v)) else None)"

lemma tally_Nil: "tally [] = Map.empty"
  by (simp add: tally_def fun_eq_iff)

lemma tally_snoc: "(tally h)(v \<mapsto> (case tally h v of None \<Rightarrow> 0 | Some n \<Rightarrow> n) + 1) = tally (h @ [v])"
  by (auto simp: tally_def fun_eq_iff)

lemma dom_tally: "dom (tally h) = set h"
  by (auto simp: tally_def dom_def)

text \<open>An event that does not flip, after a message that begins with the number \<open>v\<close>; and the standard
  events, of which those behind one that drops the message do not see it.\<close>

definition noted :: "u32 \<Rightarrow> MsgEvent \<Rightarrow> MsgEvent" where
  "noted v ev = (case ev of
     InfoSeqNo c h \<Rightarrow> InfoSeqNo (c(v \<mapsto> (case c v of None \<Rightarrow> 0 | Some n \<Rightarrow> n) + 1)) (h @ [v])
   | _ \<Rightarrow> ev)"

fun noted_all :: "u32 \<Rightarrow> u32 \<Rightarrow> MsgEvent list \<Rightarrow> MsgEvent list" where
  "noted_all no v [] = []"
| "noted_all no v (ev # evs) = noted v ev # (if drops ev no then evs else noted_all no v evs)"

lemma noted_all_drops:
  assumes "list_all is_drop ds"
  shows "noted_all no v (ds @ [InfoSeqNo (tally h) h]) =
    ds @ [InfoSeqNo (tally (if \<exists>d \<in> set ds. drops d no then h else h @ [v])) (if \<exists>d \<in> set ds. drops d no then h else h @ [v])]"
  using assms
proof (induction ds)
  case Nil
  then show ?case by (simp add: noted_def tally_snoc)
next
  case (Cons d ds)
  then have "noted v d = d" by (cases d) (simp_all add: noted_def is_drop_def)
  with Cons show ?case by auto
qed

lemma event_run_noted:
  assumes "read_u32 m 0 = Inr v" and "\<not> flips ev"
  shows "\<exists>c. event_run ev (Some m) no l = (Inr (noted v ev, Some m, if drops ev no then 2 else 0), l\<lparr>console := c\<rparr>)"
proof -
  have "\<exists>c. dbg_print DBG_LEVEL_INFO DroppedNote l = (Inr (), l\<lparr>console := c\<rparr>)"
    using errlib.surjective by (auto simp: dbg_print_def intro: exI [of _ "console l"])
  then obtain c where c: "dbg_print DBG_LEVEL_INFO DroppedNote l = (Inr (), l\<lparr>console := c\<rparr>)" ..
  have same: "\<exists>c. l = l\<lparr>console := c\<rparr>" by (rule exI [of _ "console l"]) simp
  show ?thesis
    using assms same
    by (cases ev) (auto simp: event_run_def errorDrop_run_def infoSeqNo_run_def Let_def flips_def drops_def noted_def
        iobind_def [of "dbg_print _ _"] c iobind_eqs)
qed

lemma run_loop_noted:
  assumes "read_u32 m 0 = Inr v" and "\<forall>ev \<in> set evs. \<not> flips ev"
  shows "\<exists>n c. run_loop evs (Some m) no changed l = (Inr (noted_all no v evs, Some m, n), l\<lparr>console := c\<rparr>)"
  using assms(2)
proof (induction evs arbitrary: changed l)
  case Nil
  show ?case by (auto intro!: exI [of _ "console l"])
next
  case (Cons ev evs)
  obtain c where c: "event_run ev (Some m) no l =
      (Inr (noted v ev, Some m, if drops ev no then 2 else 0), l\<lparr>console := c\<rparr>)"
    using event_run_noted [OF assms(1), of ev no l] Cons.prems by auto
  obtain n d where d: "run_loop evs (Some m) no changed (l\<lparr>console := c\<rparr>) =
      (Inr (noted_all no v evs, Some m, n), l\<lparr>console := c\<rparr>\<lparr>console := d\<rparr>)"
    using Cons by fastforce
  show ?case
    by (cases "drops ev no") (auto simp: iobind_def [of "event_run ev _ _"] c iobind_def [of "run_loop _ _ _ _"] d)
qed

lemma processEvents_noted:
  assumes "read_u32 m 0 = Inr v" and "\<forall>ev \<in> set (m_ErrorCase_Constant l). \<not> flips ev"
  shows "m_ErrorCase_Constant (snd (processEvents (Some m) no l)) = noted_all no v (m_ErrorCase_Constant l)"
proof -
  let ?cs = "m_ErrorCase_Constant l"
  obtain n c where r: "run_loop ?cs (Some m) no False l = (Inr (noted_all no v ?cs, Some m, n), l\<lparr>console := c\<rparr>)"
    using run_loop_noted [OF assms] by blast
  have "keeps same_standard (if n < 0 then ret (Some m, n)
      else process_random (Some m) no (n = 2) (if n = 2 then 0 else n))"
    by (auto intro!: keeps_intros)
  from keepsD [OF this, of "l\<lparr>console := c, m_ErrorCase_Constant := noted_all no v ?cs\<rparr>"] show ?thesis
    by (simp add: processEvents_def runMsgEvents_def iobind_def [of "run_loop _ _ _ _"] r
        iobind_def [of "put_constant _"] put_constant_def same_standard_def)
qed

lemma read_u32_take:
  "read_u32 b 0 = Inr v \<Longrightarrow> 4 \<le> n \<Longrightarrow> read_u32 (take n b) 0 = Inr v"
  by (auto simp: read_u32_def rbind_eq_Inr mem_read_def min_def split: if_splits)

lemma keeps_tail: "(\<And>x. keeps same_standard (g x)) \<Longrightarrow>
    m_ErrorCase_Constant (snd (iobind f g l)) = m_ErrorCase_Constant (snd (f l))"
  by (auto simp: iobind_def keeps_def same_standard_def split: prod.split sum.split)

text \<open>A step that returns and leaves the standard events alone.\<close>

lemma keeps_step:
  assumes "f l = (Inr x, k)" and "keeps same_standard f"
  shows "m_ErrorCase_Constant k = m_ErrorCase_Constant l"
  using keepsD [OF assms(2), of l] assms(1) by (simp add: same_standard_def)

lemma prepare_noted:
  assumes ok: "lib_ok l" and b: "11 \<le> length b" and len: "4 \<le> len" "len \<le> int (length b)"
    and v: "read_u32 b 0 = Inr v"
  shows "m_ErrorCase_Constant (snd (prepare b len l)) = noted_all (m_MsgNo l + 1) v (m_ErrorCase_Constant l)"
proof -
  let ?no = "m_MsgNo l + 1" and ?m = "take (nat len) b"
  let ?l = "l\<lparr>m_MsgNo := ?no\<rparr>"
  obtain f where f: "arr_get b 6 = Inr f" using b by simp
  have "rand_state ?l < 2 ^ 48" using ok by (simp add: lib_ok_def)
  from post_total [OF post_dbg_print [OF this, of DBG_LEVEL_INFO "SendNote ?no v len f"]]
  obtain k where k: "dbg_print DBG_LEVEL_INFO (SendNote ?no v len f) ?l = (Inr (), k)" "rand_state k < 2 ^ 48"
    using ok by (auto simp: lib_ok_def)
  from post_total [OF post_printType [OF b k(2), of f]]
  obtain j where j: "printType f b k = (Inr (), j)" by auto
  have cs: "m_ErrorCase_Constant j = m_ErrorCase_Constant l"
    using keeps_step [of "dbg_print _ _", OF k(1)] keeps_step [of "printType _ _", OF j] by (simp add: keeps_intros)
  have "prepare b len l = processEvents (Some ?m) ?no j"
    using len by (simp add: prepare_def iobind_def [of next_MsgNo] next_MsgNo_def v f iobind_eqs
        iobind_def [of "dbg_print _ _"] k(1) iobind_def [of "printType _ _"] j)
  moreover have "read_u32 ?m 0 = Inr v" using v len by (intro read_u32_take) simp_all
  moreover have "\<forall>ev \<in> set (m_ErrorCase_Constant j). \<not> flips ev" using ok cs by (simp add: lib_ok_def)
  ultimately show ?thesis using processEvents_noted cs by simp
qed

lemma sendto_Err_noted:
  assumes "lib_ok l" and "11 \<le> length b" and "4 \<le> len" "len \<le> int (length b)" and "read_u32 b 0 = Inr v"
  shows "m_ErrorCase_Constant (snd (sendto_Err (Some b) len (Some dst) l)) =
    noted_all (m_MsgNo l + 1) v (m_ErrorCase_Constant l)"
  using prepare_noted [OF assms] assms(3)
  by (simp add: sendto_Err_def) (subst keeps_tail, auto intro!: keeps_intros split: prod.split)

section \<open>A process and its report\<close>

definition number_of :: "addr \<times> bytes \<times> int \<Rightarrow> u32" where
  "number_of x = (case read_u32 (fst (snd x)) 0 of Inr v \<Rightarrow> v | Inl _ \<Rightarrow> 0)"

text \<open>The numbers in the messages \<open>xs\<close> that no event of \<open>ds\<close> drops, message \<open>no + 1\<close> being the first.\<close>

fun seen :: "MsgEvent list \<Rightarrow> u32 \<Rightarrow> (addr \<times> bytes \<times> int) list \<Rightarrow> u32 list" where
  "seen ds no [] = []"
| "seen ds no (x # xs) = (if \<exists>d \<in> set ds. drops d (no + 1) then [] else [number_of x]) @ seen ds (no + 1) xs"

lemma post_send_all_log:
  assumes "lib_ok l" and "\<forall>x \<in> set xs. sendable x" and "list_all is_drop ds"
    and "m_ErrorCase_Constant l = ds @ [InfoSeqNo (tally h) h]"
  shows "post (send_all xs) l (\<lambda>_ k. m_ErrorCase_Constant k =
    ds @ [InfoSeqNo (tally (h @ seen ds (m_MsgNo l) xs)) (h @ seen ds (m_MsgNo l) xs)]) (\<lambda>_. False)"
  using assms
proof (induction xs arbitrary: l h)
  case (Cons x xs)
  obtain dst b len where x: "x = (dst, b, len)" by (cases x)
  with Cons.prems(2) have s: "11 \<le> length b" "4 \<le> len" "len \<le> int (length b)" by (simp_all add: sendable_def)
  obtain v where v: "read_u32 b 0 = Inr v" using read_u32_defined [of b] s by auto
  obtain r k where r: "sendto_Err (Some b) len (Some dst) l = (Inr r, k)" "lib_ok k" "m_MsgNo k = m_MsgNo l + 1"
    using post_total [OF post_sendto_Err [OF Cons.prems(1) s, of dst]] by (auto simp: send_outcome_def serves_def)
  let ?h = "if \<exists>d \<in> set ds. drops d (m_MsgNo l + 1) then h else h @ [v]"
  have "m_ErrorCase_Constant k = ds @ [InfoSeqNo (tally ?h) ?h]"
    using sendto_Err_noted [OF Cons.prems(1) s v, of dst] noted_all_drops [OF Cons.prems(3)] Cons.prems(4) r(1) by simp
  with Cons.IH [OF r(2) _ Cons.prems(3)] Cons.prems(2) have "post (send_all xs) k (\<lambda>_ k. m_ErrorCase_Constant k =
      ds @ [InfoSeqNo (tally (?h @ seen ds (m_MsgNo l + 1) xs)) (?h @ seen ds (m_MsgNo l + 1) xs)]) (\<lambda>_. False)"
    by (simp add: r(3))
  moreover have "h @ seen ds (m_MsgNo l) (x # xs) = ?h @ seen ds (m_MsgNo l + 1) xs"
    by (simp add: x number_of_def v)
  ultimately show ?case
    unfolding x
    by (cases "\<exists>d \<in> set ds. drops d (m_MsgNo l + 1)") (simp_all add: post_from_eq [of "sendto_Err _ _ _", OF r(1)] number_of_def v)
qed simp

text \<open>What deleting events prints.\<close>

definition reports :: "MsgEvent list \<Rightarrow> remark list" where
  "reports evs = concat (map (\<lambda>ev. case ev of
     InfoSeqNo c h \<Rightarrow> [SeqNoReport (length h) (card (dom c))] | _ \<Rightarrow> []) evs)"

lemma delete_event_reports: "delete_event ev l = (Inr (), l\<lparr>console := console l @ reports [ev]\<rparr>)"
  by (cases ev) (simp_all add: delete_event_def delete_infoSeqNo_def event_report_def infoSeqNo_report_def
      reports_def iobind_def)

lemma clear_loop_reports:
  "clear_loop evs n l = (Inr (n + int (length evs), []), l\<lparr>console := console l @ reports (rev evs)\<rparr>)"
proof (induction evs arbitrary: n l rule: rev_induct)
  case Nil
  show ?case by (simp add: reports_def)
next
  case (snoc ev evs)
  have "clear_loop (evs @ [ev]) n l = iobind (delete_event ev) (\<lambda>_. clear_loop evs (n + 1)) l"
    by (cases evs) (simp_all add: butlast_append)
  also have "\<dots> = (Inr (n + int (length (evs @ [ev])), []), l\<lparr>console := console l @ reports (rev (evs @ [ev]))\<rparr>)"
    by (simp add: iobind_def delete_event_reports snoc reports_def)
  finally show ?case .
qed

lemma delete_PacketManager_reports:
  "delete_PacketManager l = (Inr (), l\<lparr>console := console l @ reports (rev (m_ErrorCase_Constant l)) @
     reports (rev (m_ErrorCase_Chance l)), m_ErrorCase_Constant := [], m_ErrorCase_Chance := []\<rparr>)"
  by (simp add: delete_PacketManager_def clearMsgEvents_def iobind_def clear_loop_reports put_constant_def put_chance_def)

lemma reports_drops: "list_all is_drop ds \<Longrightarrow> reports (rev ds) = []"
proof (induction ds)
  case (Cons d ds)
  then show ?case by (cases d) (simp_all add: reports_def is_drop_def)
qed (simp add: reports_def)

text \<open>However the environment is set and whatever the program asks for, the library starts with the
  events \<open>CPE464_OVERRIDE_ERR_DROP\<close> asks for and behind them an empty log.\<close>

lemma standard_settings [keeps_intros]:
  "keeps same_standard (env_entry key)" "keeps same_standard (put_entry key entry)" "keeps same_standard sys_malloc"
  "keeps same_standard (setRandSeed s)"
  unfolding setRandSeed_def
  by (auto simp: env_entry_def put_entry_def sys_malloc_def keeps_def same_standard_def intro!: keeps_intros)
    (simp add: iobind_def srand48_def)

lemma standard_load_keys [keeps_intros]: "keeps same_standard (load_keys strtof env ks)"
proof (induction ks)
  case (Cons k ks)
  then show ?case
    by (cases k) (auto simp: load_entry_def parser2ListLong_def Let_def intro!: keeps_intros
        split: option.split eEnvData_t.split prod.split bool.split)
next
  case Nil
  show ?case unfolding load_keys.simps by (rule standard_pure)
qed

lemma standard_when_set: "(\<And>e. keeps same_standard (f e)) \<Longrightarrow> keeps same_standard (when_set key f)"
  unfolding when_set_def by (auto intro!: keeps_intros)

lemma drops_load: "keeps drops_stay loadEnvData_ErrDrop"
proof -
  have "keeps drops_stay (addMsgEvent_Standard (Some (setDropSpecific xs new_errorDrop)))" for xs
    by (simp add: keeps_def drops_stay_def addMsgEvent_Standard_def setDropSpecific_def new_errorDrop_def is_drop_def)
  then show ?thesis
    unfolding loadEnvData_ErrDrop_def when_set_def Let_def
    by (auto intro!: keeps_bind [OF drops_stay_order(2)] same_drops [OF standard_settings(1)]
        same_drops [OF standard_pure(1)] same_drops [OF standard_steps(7)])
qed

lemma drops_setting: "keeps drops_stay (new_SettingsManager strtof env)"
proof -
  have "keeps same_standard loadEnvData_Port" "keeps same_standard loadEnvData_Autograder"
    "keeps same_standard loadEnvData_Debug" "keeps same_standard loadEnvData_SeedRand"
    "keeps same_standard loadEnvData_ErrRate" "keeps same_standard loadEnvData_ErrFlip"
    "keeps same_standard (loadEnvData strtof env)"
    unfolding loadEnvData_Port_def loadEnvData_Autograder_def loadEnvData_Debug_def loadEnvData_SeedRand_def
      loadEnvData_ErrRate_def loadEnvData_ErrFlip_def loadEnvData_def Let_def
    by (auto intro!: standard_when_set keeps_intros)
  then show ?thesis
    unfolding new_SettingsManager_def
    by (intro keeps_bind [OF drops_stay_order(2)] drops_load same_drops [OF standard_pure(1)]
        same_drops [OF standard_steps(9)]) (auto intro: same_drops)
qed

lemma standard_user: "keeps same_standard f \<Longrightarrow> keeps same_standard (unless_set key f)"
  unfolding unless_set_def by (auto intro!: keeps_intros)

lemma post_init_log:
  "post (iobind (library_loaded strtof env time0) (\<lambda>_.
      sendErr_init rate drop_flag flip_flag debug_flag random_flag now later)) l
    (\<lambda>_ k. \<exists>ds. list_all is_drop ds \<and> m_ErrorCase_Constant k = ds @ [InfoSeqNo (tally []) []]) (\<lambda>_. False)"
proof (rule post_seq)
  let ?l = "l\<lparr>m_EnvData := \<lambda>_. new_entry, socketType := 0, nextSeed := 10, childProcess := False,
    s_hasOverridden := False, g_dbg_print_level := 3, rand_state := nat (time0 mod 2 ^ 32) * 2 ^ 16 + 0x330E,
    m_ErrorRate := 0, m_MsgNo := 0, m_ErrorCase_Constant := [], m_ErrorCase_Chance := []\<rparr>"
  have "library_loaded strtof env time0 l = new_SettingsManager strtof env ?l"
    by (simp add: library_loaded_def new_PacketManager_def iobind_def [of "iobind _ _"] iobind_def srand48_def)
  then have "list_all is_drop (m_ErrorCase_Constant (snd (library_loaded strtof env time0 l)))"
    using keepsD [OF drops_setting, of ?l strtof env] by (simp add: drops_stay_def)
  then show "post (library_loaded strtof env time0) l
    (\<lambda>_ k. (lib_fit 2 k \<and> nextSeed k = 10) \<and> list_all is_drop (m_ErrorCase_Constant k)) (\<lambda>_. False)"
    using post_library_loaded [of strtof env time0 l] by (auto simp: post_def split: prod.splits sum.splits halt.splits)
next
  fix x k
  assume k: "(lib_fit 2 k \<and> nextSeed k = 10) \<and> list_all is_drop (m_ErrorCase_Constant k)"
  let ?f = "sendErr_init rate drop_flag flip_flag debug_flag random_flag now later"
  have "m_ErrorCase_Constant (snd (?f k)) = m_ErrorCase_Constant k @ [new_infoSeqNo]"
  proof -
    let ?k = "k\<lparr>m_ErrorCase_Constant := m_ErrorCase_Constant k @ [new_infoSeqNo]\<rparr>"
    let ?g = "iobind (setUserMode_ErrRate (float_of_double rate)) (\<lambda>_.
      iobind (setUserMode_ErrDrop (drop_flag \<noteq> 0)) (\<lambda>_.
      iobind (setUserMode_ErrFlip (flip_flag \<noteq> 0)) (\<lambda>_.
      iobind get_nextSeed (\<lambda>seed.
      iobind (setUserMode_SeedRand (if random_flag \<noteq> 0 then now else seed)) (\<lambda>_.
      iobind (if random_flag \<noteq> 0 then ret (int_of_long later) else lift_res (int_inc seed)) (\<lambda>seed.
      iobind (put_nextSeed seed) (\<lambda>_.
      iobind (setUserMode_Debug debug_flag) (\<lambda>_. ret (0 :: int)))))))))"
    have "keeps same_standard ?g"
      unfolding user_mode_defs by (auto intro!: standard_user keeps_intros)
    from keepsD [OF this, of ?k] show ?thesis
      by (simp add: sendErr_init_def iobind_def [of "addMsgEvent_Standard _"] addMsgEvent_Standard_def same_standard_def)
  qed
  then have "\<exists>ds. list_all is_drop ds \<and> m_ErrorCase_Constant (snd (?f k)) = ds @ [InfoSeqNo (tally []) []]"
    using k by (auto simp: new_infoSeqNo_def tally_Nil)
  then show "post ?f k (\<lambda>_ k. \<exists>ds. list_all is_drop ds \<and> m_ErrorCase_Constant k = ds @ [InfoSeqNo (tally []) []]) (\<lambda>_. False)"
    using post_sendErr_init [of 2 k rate drop_flag flip_flag debug_flag random_flag now later] k
    by (auto simp: post_def split: prod.splits sum.splits halt.splits)
qed

section \<open>Properties\<close>


definition log_lib :: errlib where
  "log_lib = demo_lib\<lparr>m_ErrorCase_Constant := [ErrorDrop False [2], InfoSeqNo (tally [7]) [7]], m_ErrorCase_Chance := []\<rparr>"


end
