(* ===== verification/Rate_Zero.thy ===== *)
theory Rate_Zero
  imports ErrLib_Correct
begin

text \<open>
  The error rate 0, which \<open>cpe464.h\<close> documents as no errors: the number drawn for a message is compared with
  \<open>\<le>\<close>, so the one state of \<open>drand48\<close> that is followed by 0 still runs a random event.
\<close>

section \<open>No event is due\<close>

text \<open>At an error rate of 0 there is no random event, unless the random number is exactly 0.\<close>

lemma round_float_pos: "0 < n \<Longrightarrow> 0 < round_float n"
proof -
  assume n: "0 < n"
  let ?d = "(2 :: nat) ^ max (bitlen n - 24) 0"
  have "?d \<le> 2 ^ (bitlen n - 1)" by (intro power_increasing) simp_all
  also have "\<dots> \<le> n" by (rule bitlen_lower [OF n])
  finally have "0 < n div ?d" by (simp add: div_greater_zero_iff)
  then show ?thesis by (simp add: round_to_def Let_def)
qed

lemma error_due_0:
  assumes "m_ErrorRate l = 0" and "0 < x"
  shows "\<not> error_due x l"
  using assms(1) round_float_pos [OF assms(2)] by (simp add: error_due_def divide_le_0_iff)

lemma drand_next_eq_0:
  assumes "x < 2 ^ 48"
  shows "drand_next x = 0 \<longleftrightarrow> x = 107048004364969"
proof
  assume "drand_next x = 0"
  then have "(2 :: nat) ^ 48 dvd 25214903917 * x + 11" unfolding drand_next_def by (simp only: dvd_eq_mod_eq_0)
  then have "int (2 ^ 48) dvd int (25214903917 * x + 11)" by (simp only: of_nat_dvd_iff)
  moreover have "int (2 ^ 48) dvd 25214903917 * 107048004364969 + 11" by (simp add: dvd_eq_mod_eq_0)
  ultimately have "int (2 ^ 48) dvd int (25214903917 * x + 11) - (25214903917 * 107048004364969 + 11)" by (rule dvd_diff)
  then have "(2 :: int) ^ 48 dvd 25214903917 * (int x - 107048004364969)" by (simp add: algebra_simps)
  moreover have "coprime ((2 :: int) ^ 48) 25214903917" by (simp only: coprime_power_left_iff) simp
  ultimately have d: "(2 :: int) ^ 48 dvd int x - 107048004364969" by (simp only: coprime_dvd_mult_right_iff)
  have "\<bar>int x - 107048004364969\<bar> < 2 ^ 48" using assms by simp
  with d have "int x - 107048004364969 = 0" using dvd_imp_le_int [of "int x - 107048004364969" "2 ^ 48"] by fastforce
  then show "x = 107048004364969" by simp
qed (simp add: drand_next_def)

text \<open>C29: at an error rate of 0 a message that no standard event drops arrives unchanged whatever random events
  are registered, unless the generator is in the one of its states whose next number is 0: there the test
  \<open>randNum <= m_ErrorRate\<close> holds, and if the events drop everything the message is dropped all the same.\<close>

theorem rate_zero_intact:
  assumes ok: "lib_ok l" and rate: "m_ErrorRate l = 0" and tx: "tx l = []"
    and std: "\<forall>ev \<in> set (m_ErrorCase_Constant l). \<not> drops ev (m_MsgNo l + 1)"
    and b: "11 \<le> length b" "4 \<le> len" "len \<le> int (length b)"
  shows "\<exists>l'. sendto_Err (Some b) len (Some dst) l = (Inr len, l') \<and>
    (rand_state l \<noteq> 107048004364969 \<longrightarrow> wire l' = wire l @ [(Some dst, take (nat len) b)]) \<and>
    (rand_state l = 107048004364969 \<and> m_ErrorCase_Chance l \<noteq> [] \<and>
      (\<forall>ev \<in> set (m_ErrorCase_Chance l). drops ev (m_MsgNo l + 1)) \<longrightarrow> wire l' = wire l)"
proof -
  have x: "drand_next (rand_state l) = 0 \<longleftrightarrow> rand_state l = 107048004364969"
    by (rule drand_next_eq_0) (use ok in \<open>simp add: lib_ok_def\<close>)
  obtain r l' m' n where run: "sendto_Err (Some b) len (Some dst) l = (Inr r, l')"
    and f: "message_fate l (m_MsgNo l + 1) (take (nat len) b) m' n"
    and w: "if n = 2 then r = len \<and> wire l' = wire l else r = len \<and> wire l' = wire l @ [(Some dst, m')]"
    using post_total [OF post_sendto_Err [OF ok b, of dst]] b tx
    by (fastforce simp: send_outcome_def split: if_splits)
  have "n = 0 \<and> m' = take (nat len) b" if "rand_state l \<noteq> 107048004364969"
  proof -
    have "\<not> error_due (drand_next (rand_state l)) l" by (rule error_due_0 [OF rate]) (use that x in simp)
    with f std show ?thesis by (auto simp: message_fate_def Let_def)
  qed
  moreover have "n = 2" if z: "rand_state l = 107048004364969" and c: "m_ErrorCase_Chance l \<noteq> []"
    "\<forall>ev \<in> set (m_ErrorCase_Chance l). drops ev (m_MsgNo l + 1)"
  proof -
    have "drand_next (rand_state l) = 0" using x z by simp
    moreover have "round_float 0 = 0" by (simp add: round_to_def)
    ultimately have "error_due (drand_next (rand_state l)) l" using c(1) rate by (simp add: error_due_def)
    with f chosen_in [OF c(1)] c(2) show ?thesis by (auto simp: message_fate_def Let_def split: if_splits)
  qed
  ultimately show ?thesis using run w by (auto split: if_splits)
qed

lemma rate_zero_intact_witness:
  "\<exists>l'. sendto_Err (Some (replicate 11 7)) 11 (Some (1, 2)) (demo_lib\<lparr>m_ErrorRate := 0\<rparr>) = (Inr 11, l') \<and>
    wire l' = [(Some (1, 2), replicate 11 7)]"
  using rate_zero_intact [of "demo_lib\<lparr>m_ErrorRate := 0\<rparr>" "replicate 11 7" 11 "(1, 2)"] demo_lib_ok
  by (auto simp: demo_lib_def lib_ok_def drops_def new_infoSeqNo_def)

end
