(* ===== verification/AddrText.thy ===== *)
theory AddrText
  imports CText
begin

text \<open>
  The C library's text forms of numbers and of network addresses: \<open>%d\<close>, \<open>%x\<close> and \<open>inet_ntop\<close>,
  which writes an IPv6 address in the compressed form of RFC 5952 (the first longest run of at
  least two zero groups becomes \<open>::\<close>, a mapped or compatible IPv4 address ends in dotted
  decimal). A text is the list of its bytes without the NUL.
\<close>

section \<open>Numbers\<close>

definition digit_text :: "nat \<Rightarrow> u8" where
  "digit_text d = word_of_nat (if d < 10 then 48 + d else 87 + d)"

fun text_in :: "nat \<Rightarrow> nat \<Rightarrow> bytes" where
  "text_in b n = (if n < b \<or> b < 2 then [digit_text n] else text_in b (n div b) @ [digit_text (n mod b)])"

declare text_in.simps [simp del]

lemma text_in_not_Nil [simp]: "text_in b n \<noteq> []"
  by (simp add: text_in.simps [of b n])

lemma length_text_in: "2 \<le> b \<Longrightarrow> 0 < k \<Longrightarrow> n < b ^ k \<Longrightarrow> length (text_in b n) \<le> k"
proof (induction k arbitrary: n)
  case (Suc k)
  show ?case
  proof (cases "n < b")
    case False
    with Suc.prems have "n div b < b ^ k" by (simp add: less_mult_imp_div_less mult.commute)
    moreover from this False Suc.prems(1) have "0 < k"
      by (cases k) (auto simp: div_eq_0_iff)
    ultimately show ?thesis using Suc.IH [of "n div b"] Suc.prems(1) False by (simp add: text_in.simps [of b n])
  qed (simp add: text_in.simps [of b n])
qed simp

lemma unat_digit_text: "d < 10 \<Longrightarrow> unat (digit_text d) = 48 + d"
proof -
  assume d: "d < 10"
  then have "unat (word_of_nat (48 + d) :: u8) = 48 + d" unfolding unat_of_nat by simp
  with d show ?thesis by (simp only: digit_text_def if_True)
qed

lemma uint_digit_text: "d < 10 \<Longrightarrow> uint (digit_text d) = 48 + int d"
  by (simp add: uint_nat unat_digit_text)

text \<open>What \<open>strtol\<close> reads back from a decimal text is the number.\<close>

lemma digits_value_snoc: "digits_value (ds @ [d]) = 10 * digits_value ds + (uint d - 48)"
  by (simp add: digits_value_def)

lemma digits_value_text: "digits_value (text_in 10 n) = int n"
proof (induction "10 :: nat" n rule: text_in.induct)
  case (1 n)
  show ?case
  proof (cases "n < 10")
    case True
    then show ?thesis by (simp add: text_in.simps [of 10 n] digits_value_def uint_digit_text)
  next
    case False
    then have "digits_value (text_in 10 n) = 10 * int (n div 10) + int (n mod 10)"
      using 1 by (simp add: text_in.simps [of 10 n] digits_value_snoc uint_digit_text)
    also have "\<dots> = int (10 * (n div 10) + n mod 10)" by (simp only: of_nat_add of_nat_mult of_nat_numeral)
    also have "10 * (n div 10) + n mod 10 = n" by (rule mult_div_mod_eq)
    finally show ?thesis .
  qed
qed

lemma text_in_digits: "c \<in> set (text_in 10 n) \<Longrightarrow> is_digit c"
proof (induction "10 :: nat" n rule: text_in.induct)
  case (1 n)
  have "is_digit (digit_text d)" if "d < 10" for d
    using that by (simp add: is_digit_def word_le_nat_alt unat_digit_text)
  with 1 show ?case by (auto simp: text_in.simps [of 10 n] split: if_splits)
qed

section \<open>Addresses\<close>

abbreviation (input) AF_INET :: int where "AF_INET \<equiv> 2"
abbreviation (input) AF_INET6 :: int where "AF_INET6 \<equiv> 10"
abbreviation (input) INET6_ADDRSTRLEN :: nat where "INET6_ADDRSTRLEN \<equiv> 46"

fun joined :: "u8 \<Rightarrow> bytes list \<Rightarrow> bytes" where
  "joined sep [] = []"
| "joined sep [t] = t"
| "joined sep (t # ts) = t @ sep # joined sep ts"

definition inet_ntop4 :: "bytes \<Rightarrow> bytes" where
  "inet_ntop4 src = joined 46 (map (\<lambda>b. text_in 10 (unat b)) src)"

fun groups :: "bytes \<Rightarrow> nat list" where
  "groups (a # b # bs) = (256 * unat a + unat b) # groups bs"
| "groups _ = []"

text \<open>The first longest run of zero groups: its start and its length.\<close>

fun best_run :: "nat \<Rightarrow> nat list \<Rightarrow> nat \<times> nat \<Rightarrow> nat \<times> nat" where
  "best_run i [] best = best"
| "best_run i (w # ws) best =
    (let n = length (takeWhile (\<lambda>v. v = 0) (w # ws)) in
     best_run (Suc i) ws (if snd best < n then (i, n) else best))"

definition inet_ntop6 :: "bytes \<Rightarrow> bytes" where
  "inet_ntop6 src =
    (let ws = groups src; (p, n) = best_run 0 ws (0, 0); hex = map (text_in 16) in
     if n < 2 then joined 58 (hex ws)
     else if p = 0 \<and> (n = 6 \<or> (n = 5 \<and> ws ! 5 = 0xFFFF)) then
       [58, 58] @ (if n = 6 then [] else text_in 16 0xFFFF @ [58]) @ inet_ntop4 (drop 12 src)
     else joined 58 (hex (take p ws)) @ [58, 58] @ joined 58 (hex (drop (p + n) ws)))"

text \<open>\<open>inet_ntop (family, src, dst, len)\<close>: the text, or \<open>None\<close> when the family is unknown or the text
  and its NUL do not fit.\<close>

definition inet_ntop :: "int \<Rightarrow> bytes \<Rightarrow> int \<Rightarrow> bytes option res" where
  "inet_ntop family src len =
    rbind (mem_read src 0 (if family = AF_INET then 4 else if family = AF_INET6 then 16 else 0)) (\<lambda>a.
      if family \<noteq> AF_INET \<and> family \<noteq> AF_INET6 then Inr None
      else let t = (if family = AF_INET then inet_ntop4 a else inet_ntop6 a) in
        Inr (if int (length t) < len then Some t else None))"

section \<open>Bounds and round trip\<close>

lemma length_joined: "(\<And>t. t \<in> set ts \<Longrightarrow> length t \<le> k) \<Longrightarrow> length (joined sep ts) \<le> Suc k * length ts"
proof (induction sep ts rule: joined.induct)
  case (3 sep t u ts)
  then have "length (joined sep (u # ts)) \<le> Suc k * length (u # ts)" "length t \<le> k" by simp_all
  then show ?case by simp
qed simp_all

lemma length_inet_ntop4: "length src = 4 \<Longrightarrow> length (inet_ntop4 src) \<le> 16"
proof -
  assume l: "length src = 4"
  have "length t \<le> 3" if "t \<in> set (map (\<lambda>b :: u8. text_in 10 (unat b)) src)" for t
  proof -
    from that obtain b :: u8 where t: "t = text_in 10 (unat b)" by auto
    have "unat b < 10 ^ 3" using unat_u8_le [of b] by simp
    then show ?thesis unfolding t by (intro length_text_in) simp_all
  qed
  then have "length (inet_ntop4 src) \<le> Suc 3 * length (map (\<lambda>b :: u8. text_in 10 (unat b)) src)"
    unfolding inet_ntop4_def by (rule length_joined)
  with l show ?thesis by simp
qed

lemma groups_less: "v \<in> set (groups src) \<Longrightarrow> v < 16 ^ 4"
proof (induction src rule: groups.induct)
  case (1 a b bs)
  then show ?case using unat_u8_le [of a] unat_u8_le [of b] by auto
qed simp_all

lemma length_groups: "length (groups src) = length src div 2"
  by (induction src rule: groups.induct) simp_all

lemma length_hex_groups: "t \<in> text_in 16 ` set (groups src) \<Longrightarrow> length t \<le> 4"
  by (auto intro!: length_text_in dest: groups_less)

lemma length_inet_ntop6:
  assumes "length src = 16"
  shows "length (inet_ntop6 src) \<le> 45"
proof -
  have ws: "length (groups src) = 8" using assms by (simp add: length_groups)
  have le: "length (joined 58 (map (text_in 16) vs)) \<le> 5 * length vs" if "set vs \<subseteq> set (groups src)" for vs
    using length_joined [of "map (text_in 16) vs" 4 58] that length_hex_groups [of _ src] by auto
  obtain p n where b: "best_run 0 (groups src) (0, 0) = (p, n)" by fastforce
  have "length (joined 58 (map (text_in 16) (take p (groups src)))) \<le> 5 * length (take p (groups src))"
    "length (joined 58 (map (text_in 16) (drop (p + n) (groups src)))) \<le> 5 * length (drop (p + n) (groups src))"
    "length (joined 58 (map (text_in 16) (groups src))) \<le> 5 * length (groups src)"
    by (rule le; simp add: set_take_subset set_drop_subset)+
  moreover have "length (inet_ntop4 (drop 12 src)) \<le> 16" by (rule length_inet_ntop4) (simp add: assms)
  moreover have "length (text_in 16 0xFFFF) \<le> 4" by (rule length_text_in) simp_all
  ultimately show ?thesis
    unfolding inet_ntop6_def b Let_def prod.case using ws by auto
qed

text \<open>No text holds a NUL.\<close>

lemma text_in_no_NUL: "2 \<le> b \<Longrightarrow> b \<le> 16 \<Longrightarrow> 0 \<notin> set (text_in b n)"
proof (induction b n rule: text_in.induct)
  case (1 b n)
  have "digit_text d \<noteq> 0" if "d < 16" for d
  proof -
    have "unat (word_of_nat (if d < 10 then 48 + d else 87 + d) :: u8) \<noteq> 0"
      using that by (subst unat_of_nat) simp
    then show ?thesis unfolding digit_text_def by (metis unat_0)
  qed
  moreover have "n mod b < 16" using 1(2,3) by (meson less_le_trans mod_less_divisor zero_less_numeral)
  ultimately show ?case using 1 by (auto simp: text_in.simps [of b n])
qed

lemma joined_no_NUL: "sep \<noteq> 0 \<Longrightarrow> (\<And>t. t \<in> set ts \<Longrightarrow> 0 \<notin> set t) \<Longrightarrow> 0 \<notin> set (joined sep ts)"
  by (induction sep ts rule: joined.induct) auto

lemma inet_ntop4_no_NUL: "0 \<notin> set (inet_ntop4 src)"
  unfolding inet_ntop4_def by (intro joined_no_NUL) (auto dest: text_in_no_NUL [THEN notE, rotated 2])

lemma inet_ntop6_no_NUL: "0 \<notin> set (inet_ntop6 src)"
proof -
  have j: "0 \<notin> set (joined 58 (map (text_in 16) ws))" for ws
    by (rule joined_no_NUL) (auto dest: text_in_no_NUL [THEN notE, rotated 2])
  have "0 \<notin> set (text_in 16 0xFFFF)" by (rule text_in_no_NUL) simp_all
  with j inet_ntop4_no_NUL [of "drop 12 src"] show ?thesis
    by (simp add: inet_ntop6_def Let_def split: prod.split)
qed

text \<open>Every address fits into an array of \<open>INET6_ADDRSTRLEN\<close> bytes.\<close>

lemma inet_ntop_fits:
  assumes "family = AF_INET \<and> 4 \<le> length src \<or> family = AF_INET6 \<and> 16 \<le> length src"
  obtains t where "inet_ntop family src 46 = Inr (Some t)" "length t \<le> 45"
    "t = (if family = AF_INET then inet_ntop4 (take 4 src) else inet_ntop6 (take 16 src))"
proof -
  have "length (inet_ntop4 (take 4 src)) \<le> 45" if "4 \<le> length src"
    using length_inet_ntop4 [of "take 4 src"] that by simp
  moreover have "length (inet_ntop6 (take 16 src)) \<le> 45" if "16 \<le> length src"
    using length_inet_ntop6 [of "take 16 src"] that by simp
  ultimately show thesis using assms that by (auto simp: inet_ntop_def Let_def)
qed

text \<open>An IPv4 text splits at its dots into the four bytes.\<close>

lemma tokens_joined:
  "(\<And>t. t \<in> set ts \<Longrightarrow> t \<noteq> [] \<and> sep \<notin> set t) \<Longrightarrow> tokens sep (joined sep ts) = ts"
proof (induction sep ts rule: joined.induct)
  case (1 sep)
  then show ?case by (simp add: tokens.simps)
next
  case (2 sep t)
  then have t: "t \<noteq> []" "sep \<notin> set t" by auto
  then have "takeWhile (\<lambda>b. b \<noteq> sep) t = t" "dropWhile (\<lambda>b. b \<noteq> sep) t = []"
    by (auto simp: takeWhile_eq_all_conv dropWhile_eq_Nil_conv)
  moreover have "dropWhile (\<lambda>b. b = sep) t = t" using t by (cases t) auto
  ultimately have "tokens sep t = t # tokens sep []" using t(1) by (simp only: tokens.simps [of sep t] Let_def if_False)
  then show ?case by (simp add: tokens.simps [of sep "[]"])
next
  case (3 sep t u us)
  let ?r = "joined sep (u # us)"
  have t: "t \<noteq> []" "sep \<notin> set t" using "3.prems" [of t] by auto
  have "dropWhile (\<lambda>b. b = sep) (t @ sep # ?r) = t @ sep # ?r" using t by (cases t) auto
  moreover have "takeWhile (\<lambda>b. b \<noteq> sep) (t @ sep # ?r) = t" "dropWhile (\<lambda>b. b \<noteq> sep) (t @ sep # ?r) = sep # ?r"
    using t(2) by (subst takeWhile_append2 dropWhile_append2; auto)+
  moreover have "tokens sep (sep # ?r) = tokens sep ?r"
    by (simp add: tokens.simps [of sep "sep # ?r"] tokens.simps [of sep ?r])
  ultimately have "tokens sep (t @ sep # ?r) = t # tokens sep ?r"
    using t by (simp add: tokens.simps [of sep "t @ sep # ?r"] Let_def)
  with 3 show ?case by simp
qed

lemma inet_ntop4_round_trip: "map digits_value (tokens 46 (inet_ntop4 src)) = map uint src"
proof -
  have dot: "46 \<notin> set (text_in 10 n)" for n
    using text_in_digits [of 46 n] by (auto simp: is_digit_def)
  have "t \<noteq> [] \<and> 46 \<notin> set t" if t: "t \<in> set (map (\<lambda>b :: u8. text_in 10 (unat b)) src)" for t
  proof -
    from t obtain b :: u8 where "t = text_in 10 (unat b)" by auto
    with dot show ?thesis by simp
  qed
  then have "tokens 46 (inet_ntop4 src) = map (\<lambda>b. text_in 10 (unat b)) src"
    unfolding inet_ntop4_def by (rule tokens_joined)
  then show ?thesis by (simp add: digits_value_text comp_def)
qed

end
