(* ===== verification/Resolver.thy ===== *)
theory Resolver
  imports Networks AddrText
begin

text \<open>
  Name lookup and the text of addresses (\<open>udpCode_spring26_v3/gethostbyname.c\<close>).

  \<open>getaddrinfo\<close> is a parameter: for a host name, \<open>ai_flags\<close> and \<open>ai_family\<close> it gives an error
  number or the list of addresses. The static arrays of the functions are part of the state, and
  so are the address lists not yet freed and what has been printed. A pointer to an address that
  may be NULL is an option; what the functions return is \<open>ipAddress\<close> itself, so a caller's
  pointer sees the array as it is when it is read.
\<close>

section \<open>Data\<close>

record sockaddr_in =
  sin_family :: int
  sin_port :: u16
  sin_addr :: bytes

record sockaddr_in6 =
  sin6_family :: int
  sin6_port :: u16
  sin6_addr :: bytes

text \<open>A \<open>struct sockaddr_storage\<close> by the structure that lies in it.\<close>

datatype sockaddr = Sa4 sockaddr_in | Sa6 sockaddr_in6

type_synonym getaddrinfo = "bytes \<Rightarrow> int \<Rightarrow> int \<Rightarrow> int + sockaddr list"

text \<open>A call of \<open>printf\<close>, \<open>fprintf\<close> or \<open>perror\<close>: its format, its texts and its numbers.\<close>

datatype stdio = Printf string "bytes list" "int list" | Fprintf string "bytes list" "int list" | Perror string

datatype socket_call =
    Socket int int | Bind int sockaddr_in6 | Getsockname int | Listen int int | Accept int | Connect int sockaddr_in6

text \<open>
  Next to the static arrays: the calls made on sockets, in order, and what they will answer - the
  descriptors of \<open>socket\<close> and \<open>accept\<close>, whether a call succeeds (an exhausted list means success),
  the name a socket is bound to, the address of a client.
\<close>

record netio =
  ipAddress :: bytes
  ipString46 :: bytes
  ipString :: bytes
  infos :: nat
  printed :: "stdio list"
  calls :: "socket_call list"
  new_fds :: "int list"
  answers :: "bool list"
  own_name :: sockaddr_in6
  peer_name :: sockaddr_in6

type_synonym 'a net = "(netio, 'a) io"

definition out :: "stdio \<Rightarrow> unit net" where
  "out x s = (Inr (), s\<lparr>printed := printed s @ [x]\<rparr>)"

abbreviation (input) AI_V4MAPPED :: int where "AI_V4MAPPED \<equiv> 8"
abbreviation (input) AI_ALL :: int where "AI_ALL \<equiv> 16"

definition in_addr :: "sockaddr \<Rightarrow> bytes res" where
  "in_addr a = (case a of Sa4 b \<Rightarrow> mem_read (sin_addr b) 0 4 | Sa6 _ \<Rightarrow> Inl Trap)"

definition in6_addr :: "sockaddr \<Rightarrow> bytes res" where
  "in6_addr a = (case a of Sa4 _ \<Rightarrow> Inl Trap | Sa6 b \<Rightarrow> mem_read (sin6_addr b) 0 16)"

definition put_in_addr :: "sockaddr \<Rightarrow> bytes \<Rightarrow> sockaddr res" where
  "put_in_addr a ip = (case a of
     Sa4 b \<Rightarrow> rbind (mem_write (sin_addr b) 0 ip) (\<lambda>m. Inr (Sa4 (b\<lparr>sin_addr := m\<rparr>)))
   | Sa6 _ \<Rightarrow> Inl Trap)"

definition put_in6_addr :: "sockaddr \<Rightarrow> bytes \<Rightarrow> sockaddr res" where
  "put_in6_addr a ip = (case a of
     Sa4 _ \<Rightarrow> Inl Trap
   | Sa6 b \<Rightarrow> rbind (mem_write (sin6_addr b) 0 ip) (\<lambda>m. Inr (Sa6 (b\<lparr>sin6_addr := m\<rparr>))))"

section \<open>Lookup\<close>

definition put_ipAddress :: "bytes \<Rightarrow> unit net" where
  "put_ipAddress ip s =
    (case mem_write (ipAddress s) 0 ip of Inl h \<Rightarrow> (Inl h, s) | Inr m \<Rightarrow> (Inr (), s\<lparr>ipAddress := m\<rparr>))"

definition took_infos :: "unit net" where
  "took_infos s = (Inr (), s\<lparr>infos := Suc (infos s)\<rparr>)"

definition freeaddrinfo :: "unit net" where
  "freeaddrinfo s = (if infos s = 0 then (Inl Trap, s) else (Inr (), s\<lparr>infos := infos s - 1\<rparr>))"

text \<open>The structure as it is afterwards, and whether the result is \<open>ipAddress\<close> and not NULL.\<close>

definition getIPAddress46 :: "getaddrinfo \<Rightarrow> bytes \<Rightarrow> sockaddr \<Rightarrow> int \<Rightarrow> (sockaddr \<times> bool) net" where
  "getIPAddress46 gai hostName aSockaddr addressFamily =
    (let (ai_flags, ai_family) =
      (if addressFamily = AF_INET then (0, AF_INET) else (AI_V4MAPPED + AI_ALL, AF_INET6)) in
     case gai hostName ai_flags ai_family of
       Inl addrError \<Rightarrow>
         iobind (out (Fprintf ''Error getaddrinfo (host: %s): %s'' [hostName] [addrError])) (\<lambda>_.
         ret (aSockaddr, False))
     | Inr hostInfo \<Rightarrow>
         iobind took_infos (\<lambda>_.
         iobind (lift_res (arr_get hostInfo 0)) (\<lambda>ai_addr.
         iobind
           (if addressFamily = AF_INET then
              iobind (lift_res (rbind (in_addr ai_addr) (put_in_addr aSockaddr))) (\<lambda>aSockaddr.
              iobind (lift_res (in_addr aSockaddr)) (\<lambda>ip.
              iobind (put_ipAddress ip) (\<lambda>_. ret aSockaddr)))
            else
              iobind (lift_res (rbind (in6_addr ai_addr) (put_in6_addr aSockaddr))) (\<lambda>aSockaddr.
              iobind (lift_res (in6_addr aSockaddr)) (\<lambda>ip.
              iobind (put_ipAddress ip) (\<lambda>_. ret aSockaddr)))) (\<lambda>aSockaddr.
         iobind freeaddrinfo (\<lambda>_.
         ret (aSockaddr, True))))))"

text \<open>The temporary structures hold whatever was on the stack.\<close>

definition temp_in :: sockaddr_in where
  "temp_in = \<lparr>sin_family = 0, sin_port = 0xAAAA, sin_addr = uninit 4\<rparr>"

definition temp_in6 :: sockaddr_in6 where
  "temp_in6 = \<lparr>sin6_family = 0, sin6_port = 0xAAAA, sin6_addr = uninit 16\<rparr>"

definition gethostbyname4 :: "getaddrinfo \<Rightarrow> bytes \<Rightarrow> sockaddr_in option \<Rightarrow> (sockaddr_in option \<times> bool) net" where
  "gethostbyname4 gai hostName aSockaddr =
    iobind (getIPAddress46 gai hostName (Sa4 (case aSockaddr of None \<Rightarrow> temp_in | Some a \<Rightarrow> a)) AF_INET)
      (\<lambda>(sa, found). ret (case (aSockaddr, sa) of (Some _, Sa4 a) \<Rightarrow> Some a | _ \<Rightarrow> None, found))"

definition gethostbyname6 :: "getaddrinfo \<Rightarrow> bytes \<Rightarrow> sockaddr_in6 option \<Rightarrow> (sockaddr_in6 option \<times> bool) net" where
  "gethostbyname6 gai hostName aSockaddr6 =
    iobind (getIPAddress46 gai hostName (Sa6 (case aSockaddr6 of None \<Rightarrow> temp_in6 | Some a \<Rightarrow> a)) AF_INET6)
      (\<lambda>(sa, found). ret (case (aSockaddr6, sa) of (Some _, Sa6 a) \<Rightarrow> Some a | _ \<Rightarrow> None, found))"

section \<open>The text of an address\<close>

text \<open>A text and its NUL at the start of an array.\<close>

definition put_text :: "bytes \<Rightarrow> bytes \<Rightarrow> bytes res" where
  "put_text arr t = mem_write arr 0 (t @ [0])"

text \<open>The result is the static array's string.\<close>

definition getIPAddressString46 :: "bytes option \<Rightarrow> int \<Rightarrow> bytes net" where
  "getIPAddressString46 ip addressFamily s =
    iobind (lift_res (case ip of
        Some a \<Rightarrow> rbind (inet_ntop addressFamily a (int INET6_ADDRSTRLEN)) (\<lambda>r.
          case r of Some t \<Rightarrow> put_text (ipString46 s) t | None \<Rightarrow> Inr (ipString46 s))
      | None \<Rightarrow> put_text (ipString46 s) [40, 73, 80, 32, 110, 111, 116, 32, 102, 111, 117, 110, 100, 41]))
      (\<lambda>m s. (c_string m 0, s\<lparr>ipString46 := m\<rparr>)) s"

definition getIPAddressString4 :: "bytes option \<Rightarrow> bytes net" where
  "getIPAddressString4 ip = getIPAddressString46 ip AF_INET"

definition getIPAddressString6 :: "bytes option \<Rightarrow> bytes net" where
  "getIPAddressString6 ip = getIPAddressString46 ip AF_INET6"

definition ipAddressToString :: "sockaddr_in6 \<Rightarrow> bytes net" where
  "ipAddressToString ipAddressStruct s =
    iobind (lift_res (rbind (inet_ntop AF_INET6 (sin6_addr ipAddressStruct) (int INET6_ADDRSTRLEN)) (\<lambda>r.
        case r of Some t \<Rightarrow> put_text (ipString s) t | None \<Rightarrow> Inr (ipString s))))
      (\<lambda>m s. (c_string m 0, s\<lparr>ipString := m\<rparr>)) s"

text \<open>What \<open>%d\<close> prints of a port.\<close>

definition port_number :: "u16 \<Rightarrow> int" where
  "port_number p = int (unat (ntohs p))"

definition printIPInfo :: "sockaddr_in6 \<Rightarrow> unit net" where
  "printIPInfo ipAddressStruct =
    iobind (ipAddressToString ipAddressStruct) (\<lambda>ip.
    out (Printf ''IP: %s Port: %d'' [ip] [port_number (sin6_port ipAddressStruct)]))"

section \<open>The test functions\<close>

definition found_ip :: "bytes net" where
  "found_ip s = (Inr (ipAddress s), s)"

definition gethostbyname_test_lookup :: "getaddrinfo \<Rightarrow> bytes \<Rightarrow> unit net" where
  "gethostbyname_test_lookup gai hostname =
    iobind (gethostbyname6 gai hostname None) (\<lambda>(_, found).
    iobind (if found then
        iobind found_ip (\<lambda>ip. iobind (getIPAddressString6 (Some ip)) (\<lambda>t.
        out (Printf ''IPV6 Host: %s IP: %s'' [hostname, t] [])))
      else ret ()) (\<lambda>_.
    iobind (gethostbyname4 gai hostname None) (\<lambda>(_, found).
    iobind (if found then
        iobind found_ip (\<lambda>ip. iobind (getIPAddressString4 (Some ip)) (\<lambda>t.
        out (Printf ''IPv4 Host: %s IP: %s'' [hostname, t] [])))
      else ret ()) (\<lambda>_.
    out (Printf '''' [] [])))))"

text \<open>The four names \<open>gethostbyname_test\<close> looks up.\<close>

definition test_names :: "bytes list" where
  "test_names = map (map (\<lambda>c. word_of_nat (of_char c)))
    [''www.google.com'', ''ipv6.google.com'', ''my.calpoly.edu'', ''does not exist'']"

fun lookup_all :: "getaddrinfo \<Rightarrow> bytes list \<Rightarrow> unit net" where
  "lookup_all gai [] = ret ()"
| "lookup_all gai (n # ns) = iobind (gethostbyname_test_lookup gai n) (\<lambda>_. lookup_all gai ns)"

definition gethostbyname_test :: "getaddrinfo \<Rightarrow> unit net" where
  "gethostbyname_test gai = lookup_all gai test_names"

section \<open>What they do\<close>

text \<open>What is documented of \<open>getaddrinfo\<close>: on success the list is not empty and its addresses are
  of the family asked for.\<close>

definition of_family :: "int \<Rightarrow> sockaddr \<Rightarrow> bool" where
  "of_family fam a = (case a of
     Sa4 b \<Rightarrow> fam = AF_INET \<and> length (sin_addr b) = 4
   | Sa6 b \<Rightarrow> fam = AF_INET6 \<and> length (sin6_addr b) = 16)"

definition answers_ok :: "getaddrinfo \<Rightarrow> bool" where
  "answers_ok gai \<longleftrightarrow> (\<forall>h fl fam as. gai h fl fam = Inr as \<longrightarrow> as \<noteq> [] \<and> list_all (of_family fam) as)"

definition statics_ok :: "netio \<Rightarrow> bool" where
  "statics_ok s \<longleftrightarrow> length (ipAddress s) = INET6_ADDRSTRLEN \<and> length (ipString46 s) = INET6_ADDRSTRLEN \<and>
    length (ipString s) = INET6_ADDRSTRLEN"

text \<open>The address a lookup stands for: the first of the list.\<close>

definition resolve4 :: "getaddrinfo \<Rightarrow> bytes \<Rightarrow> bytes option" where
  "resolve4 gai h = (case gai h 0 AF_INET of Inr (Sa4 a # _) \<Rightarrow> Some (sin_addr a) | _ \<Rightarrow> None)"

definition resolve6 :: "getaddrinfo \<Rightarrow> bytes \<Rightarrow> bytes option" where
  "resolve6 gai h = (case gai h 24 AF_INET6 of Inr (Sa6 a # _) \<Rightarrow> Some (sin6_addr a) | _ \<Rightarrow> None)"

lemma answers_okD:
  assumes "answers_ok gai" and "gai h fl fam = Inr as"
  obtains a bs where "as = a # bs" "of_family fam a"
  using assms by (cases as) (fastforce simp: answers_ok_def)+

lemma temp_lengths [simp]: "length (sin_addr temp_in) = 4" "length (sin6_addr temp_in6) = 16"
  by (simp_all add: temp_in_def temp_in6_def)

lemmas lookup_defs = getIPAddress46_def out_def took_infos_def freeaddrinfo_def put_ipAddress_def
  in_addr_def put_in_addr_def in6_addr_def put_in6_addr_def iobind_def Let_def

lemma gethostbyname4_error:
  "gai h 0 AF_INET = Inl e \<Longrightarrow> gethostbyname4 gai h p s =
    (Inr (p, False), s\<lparr>printed := printed s @ [Fprintf ''Error getaddrinfo (host: %s): %s'' [h] [e]]\<rparr>)"
  by (cases p) (simp_all add: gethostbyname4_def lookup_defs)

lemma gethostbyname6_error:
  "gai h 24 AF_INET6 = Inl e \<Longrightarrow> gethostbyname6 gai h p s =
    (Inr (p, False), s\<lparr>printed := printed s @ [Fprintf ''Error getaddrinfo (host: %s): %s'' [h] [e]]\<rparr>)"
  by (cases p) (simp_all add: gethostbyname6_def lookup_defs)

lemma gethostbyname4_found:
  assumes ok: "answers_ok gai" "statics_ok s" and g: "gai h 0 AF_INET = Inr as"
    and p: "\<And>a. p = Some a \<Longrightarrow> length (sin_addr a) = 4"
  shows "\<exists>ip. resolve4 gai h = Some ip \<and> length ip = 4 \<and> gethostbyname4 gai h p s =
    (Inr (map_option (\<lambda>a. a\<lparr>sin_addr := ip\<rparr>) p, True), s\<lparr>ipAddress := ip @ drop 4 (ipAddress s)\<rparr>)"
proof -
  obtain a bs where as: "as = a # bs" "of_family AF_INET a" by (rule answers_okD [OF ok(1) g])
  then obtain b where b: "a = Sa4 b" "length (sin_addr b) = 4" by (cases a) (simp_all add: of_family_def)
  let ?t = "case p of None \<Rightarrow> temp_in | Some x \<Rightarrow> x"
  have "length (sin_addr ?t) = 4" using p by (cases p) simp_all
  then have "gethostbyname4 gai h p s =
      (Inr (map_option (\<lambda>a. a\<lparr>sin_addr := sin_addr b\<rparr>) p, True), s\<lparr>ipAddress := sin_addr b @ drop 4 (ipAddress s)\<rparr>)"
    using g as b ok(2) by (cases p) (simp_all add: gethostbyname4_def lookup_defs statics_ok_def)
  moreover have "resolve4 gai h = Some (sin_addr b)" using g as b by (simp add: resolve4_def)
  ultimately show ?thesis using b(2) by blast
qed

lemma gethostbyname6_found:
  assumes ok: "answers_ok gai" "statics_ok s" and g: "gai h 24 AF_INET6 = Inr as"
    and p: "\<And>a. p = Some a \<Longrightarrow> length (sin6_addr a) = 16"
  shows "\<exists>ip. resolve6 gai h = Some ip \<and> length ip = 16 \<and> gethostbyname6 gai h p s =
    (Inr (map_option (\<lambda>a. a\<lparr>sin6_addr := ip\<rparr>) p, True), s\<lparr>ipAddress := ip @ drop 16 (ipAddress s)\<rparr>)"
proof -
  obtain a bs where as: "as = a # bs" "of_family AF_INET6 a" by (rule answers_okD [OF ok(1) g])
  then obtain b where b: "a = Sa6 b" "length (sin6_addr b) = 16" by (cases a) (simp_all add: of_family_def)
  let ?t = "case p of None \<Rightarrow> temp_in6 | Some x \<Rightarrow> x"
  have "length (sin6_addr ?t) = 16" using p by (cases p) simp_all
  then have "gethostbyname6 gai h p s =
      (Inr (map_option (\<lambda>a. a\<lparr>sin6_addr := sin6_addr b\<rparr>) p, True), s\<lparr>ipAddress := sin6_addr b @ drop 16 (ipAddress s)\<rparr>)"
    using g as b ok(2) by (cases p) (simp_all add: gethostbyname6_def lookup_defs statics_ok_def)
  moreover have "resolve6 gai h = Some (sin6_addr b)" using g as b by (simp add: resolve6_def)
  ultimately show ?thesis using b(2) by blast
qed

text \<open>A text without a NUL that fits is what is read back from the array.\<close>

lemma c_string_put_text:
  assumes "length t < length arr" and "0 \<notin> set t"
  obtains m where "put_text arr t = Inr m" "length m = length arr" "c_string m 0 = Inr t"
proof -
  let ?m = "t @ 0 # drop (Suc (length t)) arr"
  have "put_text arr t = Inr ?m" using assms(1) by (simp add: put_text_def)
  moreover have "takeWhile (\<lambda>b. b \<noteq> 0) ?m = t" using assms(2) by (subst takeWhile_append2) auto
  then have "c_string ?m 0 = Inr t" by (simp add: c_string_def)
  moreover have "length ?m = length arr" using assms(1) by simp
  ultimately show thesis using that by blast
qed

lemma getIPAddressString46_text:
  assumes st: "statics_ok s"
    and a: "fam = AF_INET \<and> 4 \<le> length a \<or> fam = AF_INET6 \<and> 16 \<le> length a"
  obtains m where "getIPAddressString46 (Some a) fam s =
      (Inr (if fam = AF_INET then inet_ntop4 (take 4 a) else inet_ntop6 (take 16 a)), s\<lparr>ipString46 := m\<rparr>)"
    "length m = INET6_ADDRSTRLEN"
proof -
  obtain t where t: "inet_ntop fam a 46 = Inr (Some t)" "length t \<le> 45"
    "t = (if fam = AF_INET then inet_ntop4 (take 4 a) else inet_ntop6 (take 16 a))"
    using inet_ntop_fits [OF a] by blast
  have "0 \<notin> set t" unfolding t(3) using inet_ntop4_no_NUL inet_ntop6_no_NUL by auto
  moreover have "length t < length (ipString46 s)" using t(2) st by (simp add: statics_ok_def)
  ultimately obtain m where "put_text (ipString46 s) t = Inr m" "length m = length (ipString46 s)" "c_string m 0 = Inr t"
    using c_string_put_text by blast
  with t(1,3) st show thesis
    by (intro that [of m]) (simp_all add: getIPAddressString46_def iobind_def statics_ok_def)
qed

lemma ipAddressToString_text:
  assumes st: "statics_ok s" and a: "length (sin6_addr a) = 16"
  obtains m where "ipAddressToString a s = (Inr (inet_ntop6 (sin6_addr a)), s\<lparr>ipString := m\<rparr>)"
    "length m = INET6_ADDRSTRLEN"
proof -
  obtain t where t: "inet_ntop AF_INET6 (sin6_addr a) 46 = Inr (Some t)" "length t \<le> 45" "t = inet_ntop6 (sin6_addr a)"
    using inet_ntop_fits [of AF_INET6 "sin6_addr a"] a by auto
  have "0 \<notin> set t" unfolding t(3) using inet_ntop6_no_NUL by auto
  moreover have "length t < length (ipString s)" using t(2) st by (simp add: statics_ok_def)
  ultimately obtain m where "put_text (ipString s) t = Inr m" "length m = length (ipString s)" "c_string m 0 = Inr t"
    using c_string_put_text by blast
  with t(1,3) st show thesis
    by (intro that [of m]) (simp_all add: ipAddressToString_def iobind_def statics_ok_def)
qed

lemma printIPInfo_prints:
  assumes "statics_ok s" and "length (sin6_addr a) = 16"
  shows "\<exists>s'. printIPInfo a s = (Inr (), s') \<and> statics_ok s' \<and>
    printed s' = printed s @ [Printf ''IP: %s Port: %d'' [inet_ntop6 (sin6_addr a)] [port_number (sin6_port a)]]"
proof -
  obtain m where "ipAddressToString a s = (Inr (inet_ntop6 (sin6_addr a)), s\<lparr>ipString := m\<rparr>)" "length m = INET6_ADDRSTRLEN"
    by (rule ipAddressToString_text [OF assms])
  with assms(1) show ?thesis by (simp add: printIPInfo_def iobind_def out_def statics_ok_def)
qed

text \<open>The two halves of \<open>gethostbyname_test_lookup\<close>, and what each prints.\<close>

definition line6 :: "getaddrinfo \<Rightarrow> bytes \<Rightarrow> stdio" where
  "line6 gai h = (case gai h 24 AF_INET6 of
     Inl e \<Rightarrow> Fprintf ''Error getaddrinfo (host: %s): %s'' [h] [e]
   | Inr _ \<Rightarrow> Printf ''IPV6 Host: %s IP: %s'' [h, inet_ntop6 (the (resolve6 gai h))] [])"

definition line4 :: "getaddrinfo \<Rightarrow> bytes \<Rightarrow> stdio" where
  "line4 gai h = (case gai h 0 AF_INET of
     Inl e \<Rightarrow> Fprintf ''Error getaddrinfo (host: %s): %s'' [h] [e]
   | Inr _ \<Rightarrow> Printf ''IPv4 Host: %s IP: %s'' [h, inet_ntop4 (the (resolve4 gai h))] [])"

definition said :: "netio \<Rightarrow> stdio list \<Rightarrow> netio \<Rightarrow> bool" where
  "said s xs s' \<longleftrightarrow> statics_ok s' \<and> infos s' = infos s \<and> printed s' = printed s @ xs"

lemma post_half6:
  assumes ok: "answers_ok gai" "statics_ok s"
  shows "post (iobind (gethostbyname6 gai h None) (\<lambda>(_, found). if found then
        iobind found_ip (\<lambda>ip. iobind (getIPAddressString6 (Some ip)) (\<lambda>t.
        out (Printf ''IPV6 Host: %s IP: %s'' [h, t] []))) else ret ())) s
    (\<lambda>_. said s [line6 gai h]) (\<lambda>_. False)"
proof (cases "gai h 24 AF_INET6")
  case (Inl e)
  with ok(2) show ?thesis
    by (simp add: post_def iobind_def gethostbyname6_error said_def statics_ok_def line6_def)
next
  case (Inr as)
  from gethostbyname6_found [OF ok Inr, of None] obtain ip where ip: "resolve6 gai h = Some ip" "length ip = 16"
    "gethostbyname6 gai h None s = (Inr (None, True), s\<lparr>ipAddress := ip @ drop 16 (ipAddress s)\<rparr>)" by auto
  let ?s = "s\<lparr>ipAddress := ip @ drop 16 (ipAddress s)\<rparr>"
  have "statics_ok ?s" using ok(2) ip(2) by (simp add: statics_ok_def)
  then obtain m where "getIPAddressString46 (Some (ipAddress ?s)) AF_INET6 ?s =
      (Inr (inet_ntop6 ip), ?s\<lparr>ipString46 := m\<rparr>)" "length m = INET6_ADDRSTRLEN"
    using getIPAddressString46_text [of ?s AF_INET6 "ipAddress ?s"] ip(2) by auto
  with ip ok(2) Inr show ?thesis
    by (simp add: post_def iobind_def found_ip_def getIPAddressString6_def out_def said_def statics_ok_def line6_def)
qed

lemma post_half4:
  assumes ok: "answers_ok gai" "statics_ok s"
  shows "post (iobind (gethostbyname4 gai h None) (\<lambda>(_, found). if found then
        iobind found_ip (\<lambda>ip. iobind (getIPAddressString4 (Some ip)) (\<lambda>t.
        out (Printf ''IPv4 Host: %s IP: %s'' [h, t] []))) else ret ())) s
    (\<lambda>_. said s [line4 gai h]) (\<lambda>_. False)"
proof (cases "gai h 0 AF_INET")
  case (Inl e)
  with ok(2) show ?thesis
    by (simp add: post_def iobind_def gethostbyname4_error said_def statics_ok_def line4_def)
next
  case (Inr as)
  from gethostbyname4_found [OF ok Inr, of None] obtain ip where ip: "resolve4 gai h = Some ip" "length ip = 4"
    "gethostbyname4 gai h None s = (Inr (None, True), s\<lparr>ipAddress := ip @ drop 4 (ipAddress s)\<rparr>)" by auto
  let ?s = "s\<lparr>ipAddress := ip @ drop 4 (ipAddress s)\<rparr>"
  have "statics_ok ?s" using ok(2) ip(2) by (simp add: statics_ok_def)
  then obtain m where "getIPAddressString46 (Some (ipAddress ?s)) AF_INET ?s =
      (Inr (inet_ntop4 ip), ?s\<lparr>ipString46 := m\<rparr>)" "length m = INET6_ADDRSTRLEN"
    using getIPAddressString46_text [of ?s AF_INET "ipAddress ?s"] ip(2) by auto
  with ip ok(2) Inr show ?thesis
    by (simp add: post_def iobind_def found_ip_def getIPAddressString4_def out_def said_def statics_ok_def line4_def)
qed

lemma iobind_assoc: "iobind (iobind m f) g = iobind m (\<lambda>x. iobind (f x) g)"
  by (simp add: fun_eq_iff iobind_def split: prod.split sum.split)

text \<open>C32: looking a name up never reads or writes outside an array, frees every address list it is given,
  and prints the text of the IPv6 and of the IPv4 address the resolver answers, or its error, in this
  order.\<close>

theorem gethostbyname_test_lookup_prints:
  assumes "answers_ok gai" and "statics_ok s"
  shows "\<exists>s'. gethostbyname_test_lookup gai h s = (Inr (), s') \<and> statics_ok s' \<and> infos s' = infos s \<and>
    printed s' = printed s @ [line6 gai h, line4 gai h, Printf '''' [] []]"
proof -
  let ?six = "iobind (gethostbyname6 gai h None) (\<lambda>(_, found). if found then
        iobind found_ip (\<lambda>ip. iobind (getIPAddressString6 (Some ip)) (\<lambda>t.
        out (Printf ''IPV6 Host: %s IP: %s'' [h, t] []))) else ret ())"
  let ?four = "iobind (gethostbyname4 gai h None) (\<lambda>(_, found). if found then
        iobind found_ip (\<lambda>ip. iobind (getIPAddressString4 (Some ip)) (\<lambda>t.
        out (Printf ''IPv4 Host: %s IP: %s'' [h, t] []))) else ret ())"
  have eq: "gethostbyname_test_lookup gai h = iobind ?six (\<lambda>_. iobind ?four (\<lambda>_. out (Printf '''' [] [])))"
    unfolding gethostbyname_test_lookup_def by (simp add: iobind_assoc split_def)
  have "post (gethostbyname_test_lookup gai h) s
    (\<lambda>_. said s [line6 gai h, line4 gai h, Printf '''' [] []]) (\<lambda>_. False)"
    unfolding eq
  proof (rule post_seq [OF post_half6 [OF assms]])
    fix u :: unit and v :: netio
    assume v: "said s [line6 gai h] v"
    then have "statics_ok v" by (simp add: said_def)
    from post_half4 [OF assms(1) this, of h]
    show "post (iobind ?four (\<lambda>_. out (Printf '''' [] []))) v
      (\<lambda>_. said s [line6 gai h, line4 gai h, Printf '''' [] []]) (\<lambda>_. False)"
      by (rule post_seq) (use v in \<open>simp add: post_def out_def said_def statics_ok_def\<close>)
  qed
  from post_total [OF this] show ?thesis by (auto simp: said_def)
qed

text \<open>A resolver that knows one name, as an IPv4 and as a mapped IPv6 address.\<close>

definition demo_gai :: getaddrinfo where
  "demo_gai h flags fam =
    (if h \<noteq> [104] then Inl (- 2)
     else if fam = AF_INET then Inr [Sa4 \<lparr>sin_family = 2, sin_port = 0, sin_addr = [10, 0, 0, 7]\<rparr>]
     else if fam = AF_INET6 then
       Inr [Sa6 \<lparr>sin6_family = 10, sin6_port = 0, sin6_addr = [0, 0, 0, 0, 0, 0, 0, 0, 0, 0, 255, 255, 10, 0, 0, 7]\<rparr>]
     else Inl (- 6))"

definition demo_netio :: netio where
  "demo_netio = \<lparr>ipAddress = replicate 46 0, ipString46 = replicate 46 0, ipString = replicate 46 0, infos = 0,
    printed = [], calls = [], new_fds = [3], answers = [],
    own_name = \<lparr>sin6_family = 10, sin6_port = 0x901F, sin6_addr = replicate 16 0\<rparr>,
    peer_name = \<lparr>sin6_family = 10, sin6_port = 0x901F, sin6_addr = replicate 16 0\<rparr>\<rparr>"

lemma demo_gai_ok: "answers_ok demo_gai"
  by (auto simp: answers_ok_def demo_gai_def of_family_def split: if_splits)

lemma demo_netio_ok: "statics_ok demo_netio"
  by (simp add: statics_ok_def demo_netio_def)

text \<open>The addresses read \<open>::ffff:10.0.0.7\<close> and \<open>10.0.0.7\<close>.\<close>

lemma demo_texts:
  "text_in 10 10 = [49, 48]" "text_in 10 0 = [48]" "text_in 10 7 = [55]" "text_in 16 65535 = [102, 102, 102, 102]"
  by (simp_all add: text_in.simps digit_text_def)

lemma demo_ntop:
  "inet_ntop4 [10, 0, 0, 7] = [49, 48, 46, 48, 46, 48, 46, 55]"
  "inet_ntop6 [0, 0, 0, 0, 0, 0, 0, 0, 0, 0, 255, 255, 10, 0, 0, 7] =
    [58, 58, 102, 102, 102, 102, 58, 49, 48, 46, 48, 46, 48, 46, 55]"
  by (simp_all add: inet_ntop6_def inet_ntop4_def demo_texts)

lemma demo_lines:
  "line6 demo_gai [104] = Printf ''IPV6 Host: %s IP: %s''
    [[104], [58, 58, 102, 102, 102, 102, 58, 49, 48, 46, 48, 46, 48, 46, 55]] []"
  "line4 demo_gai [104] = Printf ''IPv4 Host: %s IP: %s'' [[104], [49, 48, 46, 48, 46, 48, 46, 55]] []"
  by (simp_all add: line6_def line4_def demo_gai_def resolve6_def resolve4_def demo_ntop)

lemma gethostbyname_test_lookup_prints_witness:
  "\<exists>s'. gethostbyname_test_lookup demo_gai [104] demo_netio = (Inr (), s') \<and> infos s' = 0 \<and>
    printed s' =
      [Printf ''IPV6 Host: %s IP: %s'' [[104], [58, 58, 102, 102, 102, 102, 58, 49, 48, 46, 48, 46, 48, 46, 55]] [],
       Printf ''IPv4 Host: %s IP: %s'' [[104], [49, 48, 46, 48, 46, 48, 46, 55]] [],
       Printf '''' [] []]"
proof -
  have "infos demo_netio = 0" "printed demo_netio = []" by (simp_all add: demo_netio_def)
  with gethostbyname_test_lookup_prints [OF demo_gai_ok demo_netio_ok, of "[104]"] show ?thesis
    unfolding demo_lines by auto
qed

end
