(* ===== verification/Sockets.thy ===== *)
theory Sockets
  imports Resolver
begin

text \<open>
  The functions of \<open>udpCode_spring26_v3/networks.c\<close> in detail, on the state of \<open>Resolver\<close>: every call on
  a socket is recorded with its arguments, and the answers are part of the state. The UDP functions
  are shown to refine those of \<open>Networks\<close>, on which the models of the two programs rest.
\<close>

abbreviation (input) SOCK_STREAM :: int where "SOCK_STREAM \<equiv> 1"
abbreviation (input) SOCK_DGRAM :: int where "SOCK_DGRAM \<equiv> 2"
abbreviation (input) LISTEN_BACKLOG :: int where "LISTEN_BACKLOG \<equiv> 10"

section \<open>Calls on sockets\<close>

definition called :: "socket_call \<Rightarrow> netio \<Rightarrow> netio" where
  "called c s = s\<lparr>calls := calls s @ [c]\<rparr>"

text \<open>\<open>socket\<close> and \<open>accept\<close> give a descriptor, or -1 when none is left.\<close>

definition sys_fd :: "socket_call \<Rightarrow> int net" where
  "sys_fd c s = (case new_fds s of
     [] \<Rightarrow> (Inr (- 1), called c s)
   | f # fs \<Rightarrow> (Inr f, called c (s\<lparr>new_fds := fs\<rparr>)))"

text \<open>The other calls give 0, or -1 on failure.\<close>

definition sys_ok :: "socket_call \<Rightarrow> int net" where
  "sys_ok c s =
    (if answers s \<noteq> [] \<and> \<not> hd (answers s) then (Inr (- 1), called c (s\<lparr>answers := tl (answers s)\<rparr>))
     else (Inr 0, called c (s\<lparr>answers := tl (answers s)\<rparr>)))"

text \<open>\<open>perror (what)\<close> and \<open>exit (code)\<close>.\<close>

definition fails :: "string \<Rightarrow> int \<Rightarrow> 'a net" where
  "fails what code = iobind (out (Perror what)) (\<lambda>_. halts (Exit code))"

text \<open>A cleared address structure with the family set.\<close>

definition new_sockaddr_in6 :: "u16 \<Rightarrow> sockaddr_in6" where
  "new_sockaddr_in6 port = \<lparr>sin6_family = AF_INET6, sin6_port = port, sin6_addr = replicate 16 0\<rparr>"

definition bound_name :: "sockaddr_in6 net" where
  "bound_name s = (Inr (own_name s), s)"

definition client_name :: "sockaddr_in6 net" where
  "client_name s = (Inr (peer_name s), s)"

section \<open>The functions\<close>

definition tcpServerSetup :: "int \<Rightarrow> int net" where
  "tcpServerSetup serverPort =
    iobind (sys_fd (Socket AF_INET6 SOCK_STREAM)) (\<lambda>mainServerSocket.
      if mainServerSocket < 0 then fails ''socket call'' 1
      else
        let serverAddress = new_sockaddr_in6 (htons (word_of_int serverPort)) in
        iobind (sys_ok (Bind mainServerSocket serverAddress)) (\<lambda>r.
        if r < 0 then fails ''bind call'' (- 1)
        else iobind (sys_ok (Getsockname mainServerSocket)) (\<lambda>r.
        if r < 0 then fails ''getsockname call'' (- 1)
        else iobind bound_name (\<lambda>serverAddress.
        iobind (sys_ok (Listen mainServerSocket LISTEN_BACKLOG)) (\<lambda>r.
        if r < 0 then fails ''listen call'' (- 1)
        else iobind (out (Printf ''Server Port Number %d'' [] [port_number (sin6_port serverAddress)])) (\<lambda>_.
        ret mainServerSocket))))))"

definition tcpAccept :: "int \<Rightarrow> int \<Rightarrow> int net" where
  "tcpAccept mainServerSocket debugFlag =
    iobind (sys_fd (Accept mainServerSocket)) (\<lambda>client_socket.
      if client_socket < 0 then fails ''accept call'' (- 1)
      else iobind client_name (\<lambda>clientAddress.
      iobind
        (if debugFlag \<noteq> 0 then
           iobind (getIPAddressString6 (Some (sin6_addr clientAddress))) (\<lambda>ip.
           out (Printf ''Client accepted.  Client IP: %s Client Port Number: %d'' [ip] [port_number (sin6_port clientAddress)]))
         else ret ()) (\<lambda>_.
      ret client_socket)))"

definition tcpClientSetup :: "getaddrinfo \<Rightarrow> bytes \<Rightarrow> bytes \<Rightarrow> int \<Rightarrow> int net" where
  "tcpClientSetup gai serverName serverPort debugFlag =
    iobind (sys_fd (Socket AF_INET6 SOCK_STREAM)) (\<lambda>socket_num.
      if socket_num < 0 then fails ''socket call'' (- 1)
      else
        let serverAddress = new_sockaddr_in6 (htons (word_of_int (atoi serverPort))) in
        iobind (gethostbyname6 gai serverName (Some serverAddress)) (\<lambda>(serverAddress, found).
        if \<not> found then halts (Exit (- 1))
        else iobind (sys_ok (Connect socket_num (case serverAddress of Some a \<Rightarrow> a | None \<Rightarrow> temp_in6))) (\<lambda>r.
        if r < 0 then fails ''connect call'' (- 1)
        else iobind
          (if debugFlag \<noteq> 0 then
             iobind found_ip (\<lambda>ip.
             iobind (getIPAddressString6 (Some ip)) (\<lambda>t.
             out (Printf ''Connected to %s IP: %s Port Number: %d'' [serverName, t] [atoi serverPort])))
           else ret ()) (\<lambda>_.
        ret socket_num))))"

definition createUdpSocket :: "int net" where
  "createUdpSocket =
    iobind (sys_fd (Socket AF_INET6 SOCK_DGRAM)) (\<lambda>socketNum.
      if socketNum < 0 then fails ''socket() call error'' (- 1) else ret socketNum)"

text \<open>The result of \<open>getsockname\<close> is ignored: when it fails, the port printed is the one asked for.\<close>

definition udpServerSetup :: "int \<Rightarrow> int net" where
  "udpServerSetup serverPort =
    iobind createUdpSocket (\<lambda>socketNum.
      let serverAddress = new_sockaddr_in6 (htons (word_of_int serverPort)) in
      iobind (sys_ok (Bind socketNum serverAddress)) (\<lambda>r.
      if r < 0 then fails ''bind() call error'' (- 1)
      else iobind (sys_ok (Getsockname socketNum)) (\<lambda>r.
      iobind bound_name (\<lambda>name.
      iobind (out (Printf ''Server using Port #: %d'' []
          [port_number (sin6_port (if r < 0 then serverAddress else name))])) (\<lambda>_.
      ret socketNum)))))"

text \<open>The socket and \<open>*serverAddress\<close>; \<open>ipString\<close> is a local array.\<close>

definition setupUdpClientToServer :: "getaddrinfo \<Rightarrow> bytes \<Rightarrow> int \<Rightarrow> (int \<times> sockaddr_in6) net" where
  "setupUdpClientToServer gai hostName serverPort =
    iobind createUdpSocket (\<lambda>socketNum.
      let serverAddress = new_sockaddr_in6 (ntohs (word_of_int serverPort)) in
      iobind (gethostbyname6 gai hostName (Some serverAddress)) (\<lambda>(serverAddress, found).
      if \<not> found then halts (Exit (- 1))
      else iobind found_ip (\<lambda>ipAddress.
      iobind (lift_res (rbind (inet_ntop AF_INET6 ipAddress (int INET6_ADDRSTRLEN)) (\<lambda>r.
          case r of Some t \<Rightarrow> put_text (uninit INET6_ADDRSTRLEN) t | None \<Rightarrow> Inr (uninit INET6_ADDRSTRLEN)))) (\<lambda>ipString.
      iobind (lift_res (c_string ipString 0)) (\<lambda>t.
      iobind (out (Printf ''Server info - IP: %s Port: %d'' [t] [serverPort])) (\<lambda>_.
      ret (socketNum, case serverAddress of Some a \<Rightarrow> a | None \<Rightarrow> temp_in6)))))))"

section \<open>What they do\<close>

lemma fails_apply [simp]: "fails what code s = (Inl (Exit code), s\<lparr>printed := printed s @ [Perror what]\<rparr>)"
  by (simp add: fails_def iobind_def out_def)

lemmas tcp_defs = sys_ok_def sys_fd_def called_def bound_name_def client_name_def out_def iobind_def Let_def

text \<open>The calls of \<open>tcpServerSetup\<close> in their order.\<close>

definition server_calls :: "int \<Rightarrow> int \<Rightarrow> socket_call list" where
  "server_calls fd port = [Socket AF_INET6 SOCK_STREAM, Bind fd (new_sockaddr_in6 (htons (word_of_int port))),
    Getsockname fd, Listen fd LISTEN_BACKLOG]"

text \<open>\<open>tcpServerSetup\<close> returns a descriptor that the system gave it, bound to the port on every local
  address and listening, after printing the port it is bound to; otherwise it stops at the first
  call that fails, says which, and exits with 1 for \<open>socket\<close> and -1 for the others.\<close>

theorem tcpServerSetup_contract:
  "case tcpServerSetup port s of
     (Inr fd, s') \<Rightarrow> 0 \<le> fd \<and> new_fds s = fd # new_fds s' \<and> calls s' = calls s @ server_calls fd port \<and>
       printed s' = printed s @ [Printf ''Server Port Number %d'' [] [port_number (sin6_port (own_name s))]]
   | (Inl h, s') \<Rightarrow> \<exists>k fd. 0 < k \<and> k \<le> 4 \<and> h = Exit (if k = 1 then 1 else - 1) \<and>
       calls s' = calls s @ take k (server_calls fd port) \<and>
       printed s' = printed s @ [Perror ([''socket call'', ''bind call'', ''getsockname call'', ''listen call''] ! (k - 1))]"
proof -
  consider "new_fds s = []" | fd fs where "new_fds s = fd # fs" "fd < 0" | fd fs where "new_fds s = fd # fs" "0 \<le> fd"
    by (metis neq_Nil_conv not_less)
  then show ?thesis
  proof cases
    case 1
    then show ?thesis by (auto simp: tcpServerSetup_def tcp_defs server_calls_def intro!: exI [of _ 1])
  next
    case 2
    then show ?thesis by (auto simp: tcpServerSetup_def tcp_defs server_calls_def intro!: exI [of _ 1])
  next
    case 3
    let ?no = "\<lambda>bs. bs \<noteq> [] \<and> \<not> hd bs" and ?a = "answers s"
    consider (bind) "?no ?a" | (name) "\<not> ?no ?a" "?no (tl ?a)"
      | (listen) "\<not> ?no ?a" "\<not> ?no (tl ?a)" "?no (tl (tl ?a))"
      | (good) "\<not> ?no ?a" "\<not> ?no (tl ?a)" "\<not> ?no (tl (tl ?a))" by blast
    then show ?thesis
    proof cases
      case bind
      with 3 show ?thesis by (auto simp: tcpServerSetup_def tcp_defs server_calls_def intro!: exI [of _ 2] exI [of _ fd])
    next
      case name
      with 3 show ?thesis by (auto simp: tcpServerSetup_def tcp_defs server_calls_def intro!: exI [of _ 3] exI [of _ fd])
    next
      case listen
      with 3 show ?thesis by (auto simp: tcpServerSetup_def tcp_defs server_calls_def intro!: exI [of _ 4] exI [of _ fd])
    next
      case good
      with 3 show ?thesis by (auto simp: tcpServerSetup_def tcp_defs server_calls_def)
    qed
  qed
qed

lemma fetched_string:
  assumes "statics_ok s" and "16 \<le> length a"
  obtains t s' where "getIPAddressString6 (Some a) s = (Inr t, s')" "statics_ok s'" "infos s' = infos s" "calls s' = calls s"
    "printed s' = printed s" "t = inet_ntop6 (take 16 a)" "new_fds s' = new_fds s"
proof -
  obtain m where "getIPAddressString46 (Some a) AF_INET6 s = (Inr (inet_ntop6 (take 16 a)), s\<lparr>ipString46 := m\<rparr>)"
    "length m = INET6_ADDRSTRLEN"
    using getIPAddressString46_text [of s AF_INET6 a] assms by auto
  then have "getIPAddressString6 (Some a) s = (Inr (inet_ntop6 (take 16 a)), s\<lparr>ipString46 := m\<rparr>)"
    by (simp add: getIPAddressString6_def)
  from this show thesis
    by (rule that) (use assms(1) \<open>length m = INET6_ADDRSTRLEN\<close> in \<open>simp_all add: statics_ok_def\<close>)
qed

text \<open>What \<open>tcpAccept\<close> returns is the descriptor of a client that was accepted.\<close>

lemma tcpAccept_accepts:
  assumes st: "statics_ok s" and l: "length (sin6_addr (peer_name s)) = 16"
  shows "post (tcpAccept fd debugFlag) s
    (\<lambda>r s'. 0 \<le> r \<and> new_fds s = r # new_fds s' \<and> calls s' = calls s @ [Accept fd] \<and> statics_ok s')
    (\<lambda>s'. calls s' = calls s @ [Accept fd] \<and> printed s' = printed s @ [Perror ''accept call''])"
proof (cases "new_fds s = [] \<or> hd (new_fds s) < 0")
  case True
  then show ?thesis
    by (cases "new_fds s") (auto simp: post_def tcpAccept_def tcp_defs)
next
  case False
  then obtain f fs where f: "new_fds s = f # fs" "0 \<le> f" by (cases "new_fds s") auto
  let ?v = "called (Accept fd) (s\<lparr>new_fds := fs\<rparr>)"
  have v: "statics_ok ?v" "peer_name ?v = peer_name s" "calls ?v = calls s @ [Accept fd]" "new_fds ?v = fs"
    using st by (simp_all add: statics_ok_def called_def)
  have fd: "sys_fd (Accept fd) s = (Inr f, ?v)" using f by (simp add: sys_fd_def)
  obtain t u where "getIPAddressString6 (Some (sin6_addr (peer_name s))) ?v = (Inr t, u)" "statics_ok u"
    "calls u = calls ?v" "new_fds u = new_fds ?v"
    by (rule fetched_string [OF v(1), of "sin6_addr (peer_name s)"]) (simp add: l)
  with f fd v show ?thesis
    by (auto simp: post_def tcpAccept_def iobind_def client_name_def out_def statics_ok_def)
qed

text \<open>\<open>tcpClientSetup\<close> returns only with a socket connected to the first address the resolver gives for
  the server, at the port of the command line; every other way it exits with -1, and in no case is
  an address list left unfreed or an array overrun.\<close>

theorem tcpClientSetup_connects:
  assumes ok: "answers_ok gai" and st: "statics_ok s"
  shows "post (tcpClientSetup gai serverName serverPort debugFlag) s
    (\<lambda>fd s'. 0 \<le> fd \<and> infos s' = infos s \<and> (\<exists>ip. resolve6 gai serverName = Some ip \<and>
      calls s' = calls s @ [Socket AF_INET6 SOCK_STREAM,
        Connect fd ((new_sockaddr_in6 (htons (word_of_int (atoi serverPort))))\<lparr>sin6_addr := ip\<rparr>)]))
    (\<lambda>s'. infos s' = infos s)"
proof (cases "new_fds s = [] \<or> hd (new_fds s) < 0")
  case True
  then show ?thesis
    by (cases "new_fds s") (auto simp: post_def tcpClientSetup_def tcp_defs)
next
  case False
  then obtain f fs where f: "new_fds s = f # fs" "0 \<le> f" by (cases "new_fds s") auto
  let ?a = "new_sockaddr_in6 (htons (word_of_int (atoi serverPort)))"
  let ?v = "called (Socket AF_INET6 SOCK_STREAM) (s\<lparr>new_fds := fs\<rparr>)"
  have v: "statics_ok ?v" "infos ?v = infos s" "calls ?v = calls s @ [Socket AF_INET6 SOCK_STREAM]"
    using st by (simp_all add: statics_ok_def called_def)
  have fd: "sys_fd (Socket AF_INET6 SOCK_STREAM) s = (Inr f, ?v)" using f by (simp add: sys_fd_def)
  show ?thesis
  proof (cases "gai serverName 24 AF_INET6")
    case (Inl e)
    with f fd v show ?thesis
      by (simp add: post_def tcpClientSetup_def iobind_def Let_def gethostbyname6_error)
  next
    case (Inr as)
    have "length (sin6_addr ?a) = 16" by (simp add: new_sockaddr_in6_def)
    with gethostbyname6_found [OF ok v(1) Inr, of "Some ?a"] obtain ip where ip: "resolve6 gai serverName = Some ip"
      "length ip = 16" "gethostbyname6 gai serverName (Some ?a) ?v =
        (Inr (Some (?a\<lparr>sin6_addr := ip\<rparr>), True), ?v\<lparr>ipAddress := ip @ drop 16 (ipAddress ?v)\<rparr>)" by auto
    let ?w = "?v\<lparr>ipAddress := ip @ drop 16 (ipAddress ?v)\<rparr>"
    let ?c = "Connect f (?a\<lparr>sin6_addr := ip\<rparr>)"
    have w: "statics_ok ?w" "infos ?w = infos s" using v ip(2) by (simp_all add: statics_ok_def)
    let ?u = "called ?c (?w\<lparr>answers := tl (answers ?w)\<rparr>)"
    have u: "statics_ok ?u" "infos ?u = infos s" "16 \<le> length (ipAddress ?u)"
      "calls ?u = calls s @ [Socket AF_INET6 SOCK_STREAM, ?c]"
      using w v(3) by (simp_all add: statics_ok_def called_def)
    obtain t x where x: "getIPAddressString6 (Some (ipAddress ?u)) ?u = (Inr t, x)" "infos x = infos ?u" "calls x = calls ?u"
      by (rule fetched_string [OF u(1,3)])
    have r: "sys_ok ?c ?w = (Inr (if answers ?w \<noteq> [] \<and> \<not> hd (answers ?w) then - 1 else 0), ?u)"
      by (simp add: sys_ok_def)
    show ?thesis
      unfolding tcpClientSetup_def Let_def post_def iobind_def fd
      using f ip x r u by (simp add: iobind_def found_ip_def out_def)
  qed
qed

lemma tcpClientSetup_connects_witness:
  "\<exists>s'. tcpClientSetup demo_gai [104] [56, 48] 0 demo_netio = (Inr 3, s') \<and> infos s' = 0 \<and>
    calls s' = [Socket 10 1, Connect 3 \<lparr>sin6_family = 10, sin6_port = 0x5000,
      sin6_addr = [0, 0, 0, 0, 0, 0, 0, 0, 0, 0, 255, 255, 10, 0, 0, 7]\<rparr>]"
proof -
  have a: "atoi [56, 48] = 80" by (simp add: atoi_def strtol10_def digits_value_def is_digit_def is_space_def)
  obtain s' where run: "tcpClientSetup demo_gai [104] [56, 48] 0 demo_netio = (Inr 3, s')"
    by (simp add: tcpClientSetup_def tcp_defs gethostbyname6_def lookup_defs demo_gai_def demo_netio_def
        new_sockaddr_in6_def eval_nat_numeral)
  from tcpClientSetup_connects [OF demo_gai_ok demo_netio_ok, of "[104]" "[56, 48]" 0] run show ?thesis
    by (simp add: post_def a resolve6_def demo_gai_def demo_netio_def new_sockaddr_in6_def htons_def)
qed

section \<open>The programs' view of the UDP functions\<close>

text \<open>Reading back a text that was just written into the local array.\<close>

lemma ntop_local:
  assumes "16 \<le> length a"
  obtains m where "rbind (inet_ntop AF_INET6 a (int INET6_ADDRSTRLEN)) (\<lambda>r.
      case r of Some t \<Rightarrow> put_text (uninit INET6_ADDRSTRLEN) t | None \<Rightarrow> Inr (uninit INET6_ADDRSTRLEN)) = Inr m"
    "c_string m 0 = Inr (inet_ntop6 (take 16 a))"
proof -
  obtain t where t: "inet_ntop AF_INET6 a 46 = Inr (Some t)" "length t \<le> 45" "t = inet_ntop6 (take 16 a)"
    using inet_ntop_fits [of AF_INET6 a] assms by auto
  have "0 \<notin> set t" "length t < length (uninit INET6_ADDRSTRLEN)"
    using t(2) inet_ntop6_no_NUL by (auto simp: t(3))
  from c_string_put_text [OF this(2,1)] obtain m where
    "put_text (uninit INET6_ADDRSTRLEN) t = Inr m" "c_string m 0 = Inr t" by blast
  with t(1,3) show thesis by (intro that [of m]) simp_all
qed

text \<open>C31: \<open>setupUdpClientToServer\<close> as the client's model uses it, where name lookup is an answer of the system,
  is what the code does with the resolver: the same socket, the address the resolver gives for the
  name and the same port, or the same exit.\<close>

theorem setupUdpClientToServer_refines:
  assumes ok: "answers_ok gai" and st: "statics_ok s"
    and w: "fds w = new_fds s" "hosts w = [map_option enc (resolve6 gai hostName)]"
  shows "fst (Networks.setupUdpClientToServer serverPort w) =
    map_sum id (\<lambda>(fd, sa). (fd, (enc (sin6_addr sa), sin6_port sa)))
      (fst (setupUdpClientToServer gai hostName serverPort s))"
proof (cases "new_fds s = [] \<or> hd (new_fds s) < 0")
  case True
  with w(1) show ?thesis
    by (cases "new_fds s")
      (auto simp: Networks.setupUdpClientToServer_def Networks.createUdpSocket_def sys_new_fd_def
        setupUdpClientToServer_def createUdpSocket_def tcp_defs)
next
  case False
  then obtain f fs where f: "new_fds s = f # fs" "0 \<le> f" by (cases "new_fds s") auto
  let ?a = "new_sockaddr_in6 (ntohs (word_of_int serverPort))"
  let ?v = "called (Socket AF_INET6 SOCK_DGRAM) (s\<lparr>new_fds := fs\<rparr>)"
  have fd: "createUdpSocket s = (Inr f, ?v)" using f by (simp add: createUdpSocket_def sys_fd_def iobind_def)
  have nw: "Networks.setupUdpClientToServer serverPort w =
      (case map_option enc (resolve6 gai hostName) of
         None \<Rightarrow> (Inl (Exit (- 1)), w\<lparr>fds := fs, udp_fd := f, hosts := []\<rparr>)
       | Some ip \<Rightarrow> (Inr (f, (ip, ntohs (word_of_int serverPort))), w\<lparr>fds := fs, udp_fd := f, hosts := []\<rparr>))"
    using f w by (simp add: Networks.setupUdpClientToServer_def Networks.createUdpSocket_def sys_new_fd_def
        sys_getaddrinfo_def iobind_def split: option.split)
  show ?thesis
  proof (cases "gai hostName 24 AF_INET6")
    case (Inl e)
    then have "resolve6 gai hostName = None" by (simp add: resolve6_def)
    with Inl fd nw show ?thesis
      by (simp add: setupUdpClientToServer_def iobind_def Let_def gethostbyname6_error)
  next
    case (Inr as)
    have v: "statics_ok ?v" using st by (simp add: statics_ok_def called_def)
    have "length (sin6_addr ?a) = 16" by (simp add: new_sockaddr_in6_def)
    with gethostbyname6_found [OF ok v Inr, of "Some ?a"] obtain ip where ip: "resolve6 gai hostName = Some ip"
      "length ip = 16" "gethostbyname6 gai hostName (Some ?a) ?v =
        (Inr (Some (?a\<lparr>sin6_addr := ip\<rparr>), True), ?v\<lparr>ipAddress := ip @ drop 16 (ipAddress ?v)\<rparr>)" by auto
    have "16 \<le> length (ip @ drop 16 (ipAddress ?v))" using ip(2) by simp
    then obtain m where m: "rbind (inet_ntop AF_INET6 (ip @ drop 16 (ipAddress ?v)) (int INET6_ADDRSTRLEN)) (\<lambda>r.
        case r of Some t \<Rightarrow> put_text (uninit INET6_ADDRSTRLEN) t | None \<Rightarrow> Inr (uninit INET6_ADDRSTRLEN)) = Inr m"
      "c_string m 0 = Inr (inet_ntop6 (take 16 (ip @ drop 16 (ipAddress ?v))))" by (rule ntop_local)
    have "fst (setupUdpClientToServer gai hostName serverPort s) = Inr (f, ?a\<lparr>sin6_addr := ip\<rparr>)"
      unfolding setupUdpClientToServer_def Let_def
      using fd ip(3) m by (simp add: iobind_def found_ip_def out_def)
    with nw ip(1) show ?thesis by (simp add: new_sockaddr_in6_def)
  qed
qed

lemma setupUdpClientToServer_refines_witness:
  "fst (Networks.setupUdpClientToServer 80 ((demo_world [] [])\<lparr>fds := [3], hosts := [Some 77]\<rparr>)) =
    map_sum id (\<lambda>(fd, sa). (fd, (77, sin6_port sa))) (fst (setupUdpClientToServer demo_gai [104] 80 demo_netio)) \<and>
   fst (Networks.setupUdpClientToServer 80 ((demo_world [] [])\<lparr>fds := [3], hosts := [Some 77]\<rparr>)) = Inr (3, (77, 0x5000))"
proof
  show "fst (Networks.setupUdpClientToServer 80 ((demo_world [] [])\<lparr>fds := [3], hosts := [Some 77]\<rparr>)) =
    map_sum id (\<lambda>(fd, sa). (fd, (77, sin6_port sa))) (fst (setupUdpClientToServer demo_gai [104] 80 demo_netio))"
    by (rule setupUdpClientToServer_refines [OF demo_gai_ok demo_netio_ok, where enc = "\<lambda>_. 77"])
      (simp_all add: demo_netio_def resolve6_def demo_gai_def)
  show "fst (Networks.setupUdpClientToServer 80 ((demo_world [] [])\<lparr>fds := [3], hosts := [Some 77]\<rparr>)) = Inr (3, (77, 0x5000))"
    by (simp add: Networks.setupUdpClientToServer_def Networks.createUdpSocket_def sys_new_fd_def sys_getaddrinfo_def
        iobind_def demo_world_def ntohs_def)
qed

text \<open>The server's socket is bound to the port of the command line on every local address, and the port it
  ends up with is printed.\<close>

lemma udpServerSetup_binds:
  "post (udpServerSetup serverPort) s
    (\<lambda>fd s'. 0 \<le> fd \<and> calls s' = calls s @ [Socket AF_INET6 SOCK_DGRAM,
        Bind fd (new_sockaddr_in6 (htons (word_of_int serverPort))), Getsockname fd])
    (\<lambda>s'. length (calls s') \<le> length (calls s) + 2)"
proof (cases "new_fds s = [] \<or> hd (new_fds s) < 0")
  case True
  then show ?thesis
    by (cases "new_fds s") (auto simp: post_def udpServerSetup_def createUdpSocket_def tcp_defs)
next
  case False
  then obtain f fs where "new_fds s = f # fs" "0 \<le> f" by (cases "new_fds s") auto
  then show ?thesis
    by (auto simp: post_def udpServerSetup_def createUdpSocket_def tcp_defs)
qed

end
