(* ===== verification/Hooks.thy ===== *)
theory Hooks
  imports ErrLib_Correct
begin

text \<open>
  The hook for \<open>select\<close> (\<open>libcpe464/network-hooks.c\<close>) and the checked stream calls of
  \<open>udpCode_spring26_v3/safeUtil.c\<close>, which go through the hooks for \<open>send\<close> and \<open>recv\<close>; what the hooks
  leave of the call they replace.
\<close>

section \<open>select\<close>

text \<open>
  A \<open>struct timeval\<close> is a pair of seconds and microseconds. The system's \<open>select\<close> is a parameter: from
  the number of descriptors, the three sets and the time limit it gives its result, the sets and
  the time left.
\<close>

type_synonym timeval = "int \<times> int"

definition is_child :: "bool lib" where
  "is_child l = (Inr (childProcess l), l)"

definition selectMod ::
  "(int \<Rightarrow> 'f \<Rightarrow> timeval option \<Rightarrow> int \<times> 'f \<times> timeval option) \<Rightarrow>
    int \<Rightarrow> 'f \<Rightarrow> timeval option \<Rightarrow> (int \<times> 'f \<times> timeval option) lib" where
  "selectMod select nfds sets timeout =
    iobind
      (case timeout of
         None \<Rightarrow> dbg_print DBG_LEVEL_INFO SelectNullNote
       | Some (sec, usec) \<Rightarrow>
           if (sec \<noteq> 0 \<and> sec \<noteq> 1 \<and> sec \<noteq> 10) \<or> usec \<noteq> 0 then
             iobind (dbg_print DBG_LEVEL_INFO (SelectValueNote sec usec)) (\<lambda>_.
             dbg_print DBG_LEVEL_INFO SelectAdviceNote)
           else ret ()) (\<lambda>_.
    let (nResult, sets', left) = select nfds sets timeout in
    iobind
      (case timeout of
         None \<Rightarrow> ret ()
       | Some (sec, usec) \<Rightarrow>
           if nResult = 0 \<and> (sec \<noteq> 0 \<or> usec \<noteq> 0) then
             iobind is_child (\<lambda>child.
             iobind (if child then dbg_print DBG_LEVEL_INFO ChildNote else ret ()) (\<lambda>_.
             iobind (dbg_print DBG_LEVEL_INFO SelectTimeoutNote) (\<lambda>_.
             dbg_print DBG_LEVEL_INFO (SelectWaitNote sec usec))))
           else ret ()) (\<lambda>_.
    ret (nResult, sets', left)))"

section \<open>Checked stream calls\<close>

definition safeSend :: "bytes option \<Rightarrow> int \<Rightarrow> int lib" where
  "safeSend buf len =
    iobind (sendErr buf len) (\<lambda>r.
      let returnValue = int_of_long r in
      if returnValue < 0 then halts (Exit (- 1)) else ret returnValue)"

definition safeRecv :: "bytes \<Rightarrow> int \<Rightarrow> (bytes \<times> int) lib" where
  "safeRecv buf len =
    iobind (recvErr buf (len mod 2 ^ 64)) (\<lambda>(buf, r).
      let returnValue = int_of_long r in
      if returnValue < 0 then halts (Exit (- 1)) else ret (buf, returnValue))"

section \<open>What the hooks change\<close>

text \<open>\<open>selectMod\<close> hands the caller's arguments to \<open>select\<close>, gives back its results, and changes nothing
  but what is on the console.\<close>

lemma dbg_print_total: "dbg_print lvl x l = (Inr (), l\<lparr>console := console (snd (dbg_print lvl x l))\<rparr>)"
  by (simp add: dbg_print_def)

definition quiet :: "'a lib \<Rightarrow> 'a \<Rightarrow> bool" where
  "quiet m x \<longleftrightarrow> (\<forall>l. m l = (Inr x, l\<lparr>console := console (snd (m l))\<rparr>))"

lemma quiet_ret [simp]: "quiet (ret x) x"
  by (simp add: quiet_def)

lemma quiet_print [simp]: "quiet (dbg_print lvl x) ()"
  unfolding quiet_def using dbg_print_total by blast

lemma quiet_bind:
  assumes "quiet m x" and "quiet (f x) y"
  shows "quiet (iobind m f) y"
  unfolding quiet_def
proof
  fix l
  obtain c where c: "m l = (Inr x, l\<lparr>console := c\<rparr>)" using assms(1) unfolding quiet_def by metis
  obtain d where "f x (l\<lparr>console := c\<rparr>) = (Inr y, l\<lparr>console := c\<rparr>\<lparr>console := d\<rparr>)"
    using assms(2) unfolding quiet_def by metis
  with c show "iobind m f l = (Inr y, l\<lparr>console := console (snd (iobind m f l))\<rparr>)"
    by (simp add: iobind_def)
qed

lemma quiet_child: "(\<And>b. quiet (f b) y) \<Longrightarrow> quiet (iobind is_child f) y"
  by (simp add: quiet_def iobind_def is_child_def)

lemma selectMod_transparent: "quiet (selectMod select nfds sets timeout) (select nfds sets timeout)"
  unfolding selectMod_def Let_def
  by (intro quiet_bind [where x = "()"])
    (auto split: option.split prod.split intro!: quiet_bind [where x = "()"] quiet_child)

text \<open>A \<open>select\<close> that ran into its time limit is reported, with the time it was given.\<close>

lemma selectMod_reports_timeout:
  assumes "fst (select nfds sets (Some (sec, usec))) = 0" and "sec \<noteq> 0 \<or> usec \<noteq> 0" and "1 \<le> g_dbg_print_level l"
  shows "\<exists>before. console (snd (selectMod select nfds sets (Some (sec, usec)) l)) =
    before @ (if childProcess l then [ChildNote] else []) @ [SelectTimeoutNote, SelectWaitNote sec usec]"
proof -
  obtain a b where sel: "select nfds sets (Some (sec, usec)) = (0, a, b)" using assms(1) by (metis fst_conv prod.exhaust)
  let ?advice = "if (sec \<noteq> 0 \<and> sec \<noteq> 1 \<and> sec \<noteq> 10) \<or> usec \<noteq> 0 then [SelectValueNote sec usec, SelectAdviceNote] else []"
  have "console (snd (selectMod select nfds sets (Some (sec, usec)) l)) = console l @ ?advice @
    (if childProcess l then [ChildNote] else []) @ [SelectTimeoutNote, SelectWaitNote sec usec]"
    using assms(2,3) by (auto simp: selectMod_def sel iobind_def is_child_def dbg_print_def)
  then show ?thesis by (intro exI [of _ "console l @ ?advice"]) simp
qed

text \<open>\<open>safeSend\<close> and \<open>safeRecv\<close> never return an error: a negative result of the hook ends the process.\<close>

lemma safeSend_no_error: "safeSend buf len l = (Inr r, l') \<Longrightarrow> 0 \<le> r"
  by (auto simp: safeSend_def iobind_def Let_def split: prod.splits sum.splits if_splits)

lemma safeRecv_no_error: "safeRecv buf len l = (Inr (b, r), l') \<Longrightarrow> 0 \<le> r"
  by (auto simp: safeRecv_def iobind_def Let_def split: prod.splits sum.splits if_splits)

end
