(* ===== verification/PDU.thy ===== *)
theory PDU
  imports Packet
begin

text \<open>
  The alternative packet builder (\<open>udpCode_spring26_v3/PDU.c\<close>), linked into both programs and
  called by neither. Unlike \<open>make_packet\<close> it does not clear the checksum field before it
  computes the checksum over it.
\<close>

section \<open>The code\<close>

text \<open>\<open>memcpy\<close> returns its first argument, so the code's branch for NULL is never taken.\<close>

definition createPDU :: "bytes \<Rightarrow> u32 \<Rightarrow> u8 \<Rightarrow> bytes \<Rightarrow> int \<Rightarrow> (bytes \<times> int) res" where
  "createPDU pduBuffer sequenceNumber flag playload payload_len =
    (let header_len = 7 in
     rbind (mem_write pduBuffer 0 (le_bytes32 (htonl sequenceNumber))) (\<lambda>p.
     rbind (mem_write p 6 [flag]) (\<lambda>p.
     rbind (mem_read playload 0 payload_len) (\<lambda>d.
     rbind (mem_write p 7 d) (\<lambda>p.
     rbind (in_cksum p (header_len + payload_len)) (\<lambda>checksum.
     rbind (mem_write p 4 (le_bytes16 checksum)) (\<lambda>p.
     Inr (p, payload_len + header_len))))))))"

text \<open>The three numbers printed: the sequence number as an \<open>int\<close>, the checksum field as stored
  read as \<open>int16_t\<close>, the flag.\<close>

definition printPDU :: "bytes \<Rightarrow> (int \<times> int \<times> int) res" where
  "printPDU buffer =
    rbind (read_u32 buffer 0) (\<lambda>seq_num.
    rbind (arr_get buffer 4) (\<lambda>c0.
    rbind (arr_get buffer 5) (\<lambda>c1.
    rbind (arr_get buffer 6) (\<lambda>flag.
    Inr (sint seq_num, sint (le16 c0 c1), uint flag)))))"

section \<open>What it builds\<close>

lemma createPDU_eq:
  assumes "0 \<le> n" and "n \<le> int (length data)" and "7 + n \<le> int (length packet)" and "7 + n \<le> 65536"
  shows "\<exists>k. in_cksum (be_bytes32 seq @ [packet ! 4, packet ! 5] @ flag # take (nat n) data) (7 + n) = Inr k \<and>
    createPDU packet seq flag data n =
      Inr (be_bytes32 seq @ le_bytes16 k @ flag # take (nat n) data @ drop (nat (7 + n)) packet, n + 7)"
proof -
  let ?d = "take (nat n) data"
  obtain p0 p1 p2 p3 p4 p5 p6 ps where p: "packet = p0 # p1 # p2 # p3 # p4 # p5 # p6 # ps"
    using assms by (elim list7_cases [rotated]) linarith
  obtain s0 s1 s2 s3 where s: "be_bytes32 seq = [s0, s1, s2, s3]"
    by (simp add: be_bytes32_def le_bytes32_def)
  have l: "length ?d = nat n" using assms by simp
  have nn: "nat (7 + n) = 7 + nat n" using assms(1) by (simp add: nat_add_distrib)
  have r: "drop (nat (7 + n)) packet = drop (nat n) ps" unfolding nn p by (rule drop7)
  let ?f = "be_bytes32 seq @ [p4, p5] @ flag # ?d"
  obtain k where k: "in_cksum ?f (7 + n) = Inr k"
    using internet.defined [of "7 + n" ?f] assms l by auto
  have "in_cksum (?f @ drop (nat n) ps) (7 + n) = in_cksum (take (nat (7 + n)) (?f @ drop (nat n) ps)) (7 + n)"
    by (rule internet.prefix) (use assms l in simp_all)
  also have "take (nat (7 + n)) (?f @ drop (nat n) ps) = ?f" 
    using append_eq_conv_conj [of ?f "drop (nat n) ps" "?f @ drop (nat n) ps"] l nn by simp
  finally have k': "in_cksum (?f @ drop (nat n) ps) (7 + n) = Inr k" using k by (rule trans)
  have "createPDU packet seq flag data n =
      Inr (be_bytes32 seq @ le_bytes16 k @ flag # ?d @ drop (nat (7 + n)) packet, n + 7)"
    using assms l k' [unfolded s] unfolding r
    by (simp add: createPDU_def Let_def p htonl_bytes s mem_write_def le_bytes16_def drop7)
  with k show ?thesis by (auto simp: p)
qed


section \<open>Properties\<close>

text \<open>On a buffer whose checksum field is 0, \<open>createPDU\<close> is \<open>make_packet\<close>.\<close>

theorem createPDU_eq_make_packet:
  assumes "packet ! 4 = 0" and "packet ! 5 = 0"
    and "0 \<le> n" and "n \<le> int (length data)" and "7 + n \<le> int (length packet)" and "7 + n \<le> 65536"
  shows "createPDU packet seq flag data n = make_packet packet seq flag data n"
proof -
  let ?d = "take (nat n) data"
  have nn: "7 + n = int (7 + length ?d)" using assms by simp
  obtain k where k: "in_cksum (be_bytes32 seq @ [0, 0] @ flag # ?d) (7 + n) = Inr k"
    "createPDU packet seq flag data n =
      Inr (be_bytes32 seq @ le_bytes16 k @ flag # ?d @ drop (nat (7 + n)) packet, n + 7)"
    using createPDU_eq [OF assms(3-6), of seq flag] assms(1,2) by auto
  then have "packet_bytes seq flag ?d = be_bytes32 seq @ le_bytes16 k @ flag # ?d"
    unfolding nn by (simp add: packet_bytes_def)
  with k(2) show ?thesis using make_packet_eq [OF assms(3-6), of seq flag] by (simp add: add.commute)
qed

lemma createPDU_eq_make_packet_witness:
  "createPDU (replicate 10 0) 5 3 [1, 2] 2 = make_packet (replicate 10 0) 5 3 [1, 2] 2"
  by (rule createPDU_eq_make_packet) simp_all

text \<open>Overwriting the field with a checksum that counted its old value leaves the checksum wrong.\<close>

lemma wrong_seal:
  assumes "0 < v" and "v < 65535" and "k = 65535 - ones_sum (R + v)"
  shows "\<not> 65535 dvd R + k"
proof -
  have sum: "ones_sum (R + v) + k = 65535" using assms(3) ones_sum_le [of "R + v"] by simp
  have "(R + v + k) mod 65535 = (ones_sum (R + v) + k) mod 65535"
    by (metis mod_add_left_eq ones_sum_mod)
  then have "65535 dvd R + k + v" using sum by (simp add: dvd_eq_mod_eq_0 ac_simps)
  then show ?thesis using assms(1,2) by (metis dvd_add_right_iff nat_dvd_not_less)
qed

text \<open>C40: on a buffer that held a packet before, whose checksum field is neither 0 nor 0xFFFF, the
  packet \<open>createPDU\<close> builds is refused by \<open>check_packet\<close>: the old field counts in the new
  checksum and is then overwritten.\<close>

theorem createPDU_dirty_buffer_refused:
  assumes dirty: "le16 (packet ! 4) (packet ! 5) \<noteq> 0" "le16 (packet ! 4) (packet ! 5) \<noteq> 0xFFFF"
    and n: "0 \<le> n" "n \<le> int (length data)" "7 + n \<le> int (length packet)" "7 + n \<le> 65536"
  shows "\<exists>p. createPDU packet seq flag data n = Inr (p, n + 7) \<and> check_packet p (n + 7) = Inr False"
proof -
  let ?d = "take (nat n) data" and ?v = "le16 (packet ! 4) (packet ! 5)"
  let ?rest = "drop (nat (7 + n)) packet"
  obtain k where k: "in_cksum (be_bytes32 seq @ [packet ! 4, packet ! 5] @ flag # ?d) (7 + n) = Inr k"
    and c: "createPDU packet seq flag data n = Inr (be_bytes32 seq @ le_bytes16 k @ flag # ?d @ ?rest, n + 7)"
    using createPDU_eq [OF n, of seq flag] by auto
  have l: "length ?d = nat n" using n by simp
  define R where "R = word_sum (be_bytes32 seq) + word_sum (flag # ?d)"
  have s1: "word_sum (be_bytes32 seq @ [packet ! 4, packet ! 5] @ flag # ?d) = R + unat ?v"
    by (simp add: word_sum_append R_def unat_le16)
  have s2: "word_sum (be_bytes32 seq @ le_bytes16 k @ flag # ?d) = R + unat k"
    by (simp add: word_sum_append word_sum_le_bytes16 R_def)
  have nn: "nat (7 + n) = 7 + nat n" using n(1) by (simp add: nat_add_distrib)
  define f where "f = be_bytes32 seq @ [packet ! 4, packet ! 5] @ flag # ?d"
  have "length f = nat (7 + n)" unfolding nn f_def using l by simp
  moreover have "word_sum f = R + unat ?v" using s1 by (simp only: f_def)
  moreover have "in_cksum f (7 + n) = Inr k" using k by (simp only: f_def)
  ultimately have kv: "unat k = 65535 - ones_sum (R + unat ?v)"
    using in_cksum_value [of "7 + n" f] n by auto
  have v: "0 < unat ?v" "unat ?v < 65535"
  proof -
    show "0 < unat ?v" using dirty(1) by (simp add: unat_gt_0)
    have "unat ?v \<noteq> unat (0xFFFF :: u16)" using dirty(2) by (simp only: word_unat_eq_iff) simp
    then have "unat ?v \<noteq> 65535" by simp
    moreover have "unat ?v < 65536" using unsigned_less [of ?v] by simp
    ultimately show "unat ?v < 65535" by simp
  qed
  have "\<not> 65535 dvd R + unat k" by (rule wrong_seal [OF v kv])
  moreover have "take (nat (7 + n)) (be_bytes32 seq @ le_bytes16 k @ flag # ?d @ ?rest) = be_bytes32 seq @ le_bytes16 k @ flag # ?d"
    unfolding nn using l append_eq_conv_conj [of "be_bytes32 seq @ le_bytes16 k @ flag # ?d" ?rest] by simp
  ultimately have "in_cksum (be_bytes32 seq @ le_bytes16 k @ flag # ?d @ ?rest) (7 + n) \<noteq> Inr 0"
    using in_cksum_zero_iff [of "7 + n" "be_bytes32 seq @ le_bytes16 k @ flag # ?d @ ?rest"] n l s2 by simp
  moreover obtain b where "check_packet (be_bytes32 seq @ le_bytes16 k @ flag # ?d @ ?rest) (n + 7) = Inr b"
    using check_packet_defined [of "n + 7" "be_bytes32 seq @ le_bytes16 k @ flag # ?d @ ?rest"] n l by auto
  ultimately have "check_packet (be_bytes32 seq @ le_bytes16 k @ flag # ?d @ ?rest) (n + 7) = Inr False"
    by (auto simp: check_packet_def rbind_eq_Inr add.commute split: if_splits)
  with c show ?thesis by blast
qed

lemma createPDU_dirty_buffer_refused_witness:
  "\<exists>p. createPDU [0, 0, 0, 1, 0x12, 0x34, 3, 9] 2 3 [8] 1 = Inr (p, 8) \<and> check_packet p 8 = Inr False"
  using createPDU_dirty_buffer_refused [of "[0, 0, 0, 1, 0x12, 0x34, 3, 9]" 1 "[8]" 2 3]
  by (simp add: le16_def)

text \<open>What \<open>printPDU\<close> shows of a packet are its sequence number and its flag.\<close>

lemma printPDU_fields:
  assumes "fits data"
  shows "\<exists>c. printPDU (packet_bytes seq flag data) = Inr (sint seq, c, uint flag)"
proof -
  let ?p = "packet_bytes seq flag data"
  have "read_u32 ?p 0 = Inr seq" using get_seq_packet_bytes [OF assms, of seq flag] by (simp add: get_seq_def)
  moreover have "arr_get ?p 6 = Inr flag" using get_flag_packet_bytes [OF assms, of seq flag] by (simp add: get_flag_def)
  ultimately show ?thesis using assms by (simp add: printPDU_def)
qed

lemma printPDU_fields_witness: "\<exists>c. printPDU (packet_bytes 7 3 [1]) = Inr (7, c, 3)"
  using printPDU_fields [of "[1]" 7 3] by simp

end
