(* ===== verification/Course_Examples.thy ===== *)
theory Course_Examples
  imports Complex_Main CText
begin

text \<open>
  The two sketches of the course (\<open>example/server-example.c\<close>, \<open>example/rcopy-example.c\<close>): the state
  machines of a stop-and-wait server and its client. The files declare the functions of the states
  but do not define them, so these are parameters: a function on a state \<open>'s\<close> that holds
  everything they can reach, with the local variables whose address they are given passed in and
  out. A value of an \<open>enum\<close> that names no constant is \<open>S_Other\<close> or \<open>R_Other\<close>. The constants the
  files take from headers that are not there (\<open>CRC_ERROR\<close>, \<open>START_SEQ_NUM\<close>, \<open>MAX_LEN\<close>) are parameters too.
\<close>

section \<open>The server\<close>

datatype S_State = S_START | S_DONE | S_FILENAME | S_SEND_DATA | S_WAIT_ON_ACK | S_TIMEOUT_ON_ACK
  | S_WAIT_ON_EOF_ACK | S_TIMEOUT_ON_EOF_ACK | S_Other int

text \<open>\<open>'c\<close> is a pointer to a connection, \<open>'b\<close> one to a buffer.\<close>

record ('s, 'c, 'b) server_ops =
  op_filename :: "'c \<Rightarrow> 'b \<Rightarrow> int \<Rightarrow> int \<Rightarrow> int \<Rightarrow> ('s, S_State \<times> int \<times> int) io"
  op_send_data :: "'c \<Rightarrow> bytes \<Rightarrow> int \<Rightarrow> int \<Rightarrow> int \<Rightarrow> u32 \<Rightarrow> ('s, S_State \<times> bytes \<times> int \<times> u32) io"
  op_wait_on_ack :: "'c \<Rightarrow> ('s, S_State) io"
  op_timeout_on_ack :: "'c \<Rightarrow> bytes \<Rightarrow> int \<Rightarrow> ('s, S_State \<times> bytes) io"
  op_wait_on_eof_ack :: "'c \<Rightarrow> ('s, S_State) io"
  op_timeout_on_eof_ack :: "'c \<Rightarrow> bytes \<Rightarrow> int \<Rightarrow> ('s, S_State \<times> bytes) io"
  op_recv_buf :: "'b \<Rightarrow> int \<Rightarrow> int \<Rightarrow> 'c \<Rightarrow> u8 \<Rightarrow> u32 \<Rightarrow> ('s, int \<times> u8 \<times> u32) io"
  op_fork :: "('s, int) io"
  op_signal :: "('s, unit) io"
  op_print :: "string \<Rightarrow> ('s, unit) io"
  op_new_client :: "('s, 'c) io"
  op_processArgs :: "bytes list \<Rightarrow> ('s, int) io"
  op_sendtoErr_init :: "rat \<Rightarrow> int \<Rightarrow> int \<Rightarrow> int \<Rightarrow> int \<Rightarrow> ('s, unit) io"
  op_udpServerSetup :: "int \<Rightarrow> ('s, int) io"
  op_CRC_ERROR :: int
  op_MAX_LEN :: int
  op_START_SEQ_NUM :: u32

text \<open>The local variables of \<open>process_client\<close>.\<close>

record client_locals =
  l_data_file :: int
  l_packet_len :: int
  l_packet :: bytes
  l_buf_size :: int
  l_seq_num :: u32

text \<open>The body of the loop: one \<open>switch\<close>.\<close>

definition client_switch ::
  "('s, 'c, 'b) server_ops \<Rightarrow> 'b \<Rightarrow> int \<Rightarrow> 'c \<Rightarrow> S_State \<Rightarrow> client_locals \<Rightarrow> ('s, S_State \<times> client_locals) io" where
  "client_switch ops buf recv_len client state v =
    (case state of
       S_START \<Rightarrow> ret (S_FILENAME, v)
     | S_FILENAME \<Rightarrow>
         iobind (op_filename ops client buf recv_len (l_data_file v) (l_buf_size v)) (\<lambda>(state, data_file, buf_size).
         ret (state, v\<lparr>l_data_file := data_file, l_buf_size := buf_size\<rparr>))
     | S_SEND_DATA \<Rightarrow>
         iobind (op_send_data ops client (l_packet v) (l_packet_len v) (l_data_file v) (l_buf_size v) (l_seq_num v))
           (\<lambda>(state, packet, packet_len, seq_num).
         ret (state, v\<lparr>l_packet := packet, l_packet_len := packet_len, l_seq_num := seq_num\<rparr>))
     | S_WAIT_ON_ACK \<Rightarrow> iobind (op_wait_on_ack ops client) (\<lambda>state. ret (state, v))
     | S_TIMEOUT_ON_ACK \<Rightarrow>
         iobind (op_timeout_on_ack ops client (l_packet v) (l_packet_len v)) (\<lambda>(state, packet).
         ret (state, v\<lparr>l_packet := packet\<rparr>))
     | S_WAIT_ON_EOF_ACK \<Rightarrow> iobind (op_wait_on_eof_ack ops client) (\<lambda>state. ret (state, v))
     | S_TIMEOUT_ON_EOF_ACK \<Rightarrow>
         iobind (op_timeout_on_eof_ack ops client (l_packet v) (l_packet_len v)) (\<lambda>(state, packet).
         ret (state, v\<lparr>l_packet := packet\<rparr>))
     | S_DONE \<Rightarrow> ret (S_DONE, v)
     | S_Other _ \<Rightarrow>
         iobind (op_print ops ''In default and you should not be here!!!!'') (\<lambda>_. ret (S_DONE, v)))"

text \<open>\<open>while (state != DONE)\<close>; \<open>None\<close> is a loop that does not end.\<close>

partial_function (option) client_loop ::
  "('s, 'c, 'b) server_ops \<Rightarrow> 'b \<Rightarrow> int \<Rightarrow> 'c \<Rightarrow> S_State \<Rightarrow> client_locals \<Rightarrow> 's \<Rightarrow> (unit res \<times> 's) option" where
  "client_loop ops buf recv_len client state v w =
    (if state = S_DONE then Some (Inr (), w)
     else case client_switch ops buf recv_len client state v w of
       (Inl h, w') \<Rightarrow> Some (Inl h, w')
     | (Inr (state, v), w') \<Rightarrow> client_loop ops buf recv_len client state v w')"

definition example_process_client ::
  "('s, 'c, 'b) server_ops \<Rightarrow> bytes \<Rightarrow> 'b \<Rightarrow> int \<Rightarrow> 'c \<Rightarrow> 's \<Rightarrow> (unit res \<times> 's) option" where
  "example_process_client ops packet buf recv_len client =
    client_loop ops buf recv_len client S_START
      \<lparr>l_data_file = 0, l_packet_len = 0, l_packet = packet, l_buf_size = 0, l_seq_num = op_START_SEQ_NUM ops\<rparr>"

text \<open>
  One turn of the endless loop of \<open>process_server\<close>: the values of \<open>flag\<close> and \<open>seq_num\<close> for the next
  turn. The process that \<open>fork\<close> answers with 0 is the child: it serves its client and exits.
  \<open>packet\<close> is what the child's uninitialised array holds.
\<close>

definition example_turn ::
  "('s, 'c, 'b) server_ops \<Rightarrow> bytes \<Rightarrow> int \<Rightarrow> 'b \<Rightarrow> 'c \<Rightarrow> u8 \<times> u32 \<Rightarrow> 's \<Rightarrow> ((u8 \<times> u32) res \<times> 's) option" where
  "example_turn ops packet serverSocketNumber buf client fs w =
    (case op_recv_buf ops buf (op_MAX_LEN ops) serverSocketNumber client (fst fs) (snd fs) w of
       (Inl h, w) \<Rightarrow> Some (Inl h, w)
     | (Inr (recv_len, flag, seq_num), w) \<Rightarrow>
         if recv_len = op_CRC_ERROR ops then Some (Inr (flag, seq_num), w)
         else (case op_fork ops w of
           (Inl h, w) \<Rightarrow> Some (Inl h, w)
         | (Inr pid, w) \<Rightarrow>
             if pid < 0 then Some (iobind (op_print ops ''fork'') (\<lambda>_. halts (Exit (- 1))) w)
             else if pid > 0 then Some (Inr (flag, seq_num), w)
             else (case op_print ops ''Child fork() - child pid: %d'' w of
               (Inl h, w) \<Rightarrow> Some (Inl h, w)
             | (Inr _, w) \<Rightarrow> map_option (\<lambda>(r, w). (Inl (case r of Inl h \<Rightarrow> h | Inr _ \<Rightarrow> Exit 0), w))
                 (example_process_client ops packet buf recv_len client w))))"

partial_function (option) example_serve ::
  "('s, 'c, 'b) server_ops \<Rightarrow> bytes \<Rightarrow> int \<Rightarrow> 'b \<Rightarrow> 'c \<Rightarrow> u8 \<times> u32 \<Rightarrow> 's \<Rightarrow> (halt \<times> 's) option" where
  "example_serve ops packet serverSocketNumber buf client fs w =
    (case example_turn ops packet serverSocketNumber buf client fs w of
       None \<Rightarrow> None
     | Some (Inl h, w) \<Rightarrow> Some (h, w)
     | Some (Inr fs, w) \<Rightarrow> example_serve ops packet serverSocketNumber buf client fs w)"

definition example_process_server ::
  "('s, 'c, 'b) server_ops \<Rightarrow> bytes \<Rightarrow> 'b \<Rightarrow> int \<Rightarrow> 's \<Rightarrow> (halt \<times> 's) option" where
  "example_process_server ops packet buf serverSocketNumber w =
    (case iobind (op_new_client ops) (\<lambda>client. iobind (op_signal ops) (\<lambda>_. ret client)) w of
       (Inl h, w) \<Rightarrow> Some (h, w)
     | (Inr client, w) \<Rightarrow> example_serve ops packet serverSocketNumber buf client (0, 0) w)"

text \<open>\<open>error_rate\<close> is the value of \<open>atof (argv[1])\<close>.\<close>

definition example_server_main ::
  "('s, 'c, 'b) server_ops \<Rightarrow> bytes \<Rightarrow> 'b \<Rightarrow> bytes list \<Rightarrow> rat \<Rightarrow> 's \<Rightarrow> (halt \<times> 's) option" where
  "example_server_main ops packet buf argv error_rate w =
    (case iobind (op_processArgs ops argv) (\<lambda>portNumber.
        iobind (op_sendtoErr_init ops error_rate 1 1 1 1) (\<lambda>_.
        op_udpServerSetup ops portNumber)) w of
       (Inl h, w) \<Rightarrow> Some (h, w)
     | (Inr serverSocketNumber, w) \<Rightarrow> example_process_server ops packet buf serverSocketNumber w)"

section \<open>The client\<close>

datatype R_State = R_DONE | R_FILENAME | R_RECV_DATA | R_FILE_OK | R_START_STATE | R_Other int

record ('s, 'c) rcopy_ops =
  ro_start_state :: "bytes list \<Rightarrow> 'c \<Rightarrow> u32 \<Rightarrow> ('s, R_State \<times> u32) io"
  ro_filename :: "bytes \<Rightarrow> int \<Rightarrow> 'c \<Rightarrow> ('s, R_State) io"
  ro_file_ok :: "int \<Rightarrow> bytes \<Rightarrow> ('s, R_State \<times> int) io"
  ro_recv_data :: "int \<Rightarrow> 'c \<Rightarrow> u32 \<Rightarrow> ('s, R_State \<times> u32) io"
  ro_print :: "string \<Rightarrow> ('s, unit) io"
  ro_new_server :: "('s, 'c) io"
  ro_check_args :: "bytes list \<Rightarrow> ('s, unit) io"
  ro_sendtoErr_init :: "rat \<Rightarrow> int \<Rightarrow> int \<Rightarrow> int \<Rightarrow> int \<Rightarrow> ('s, unit) io"

text \<open>The state, \<open>clientSeqNum\<close> and \<open>output_file_fd\<close> after one \<open>switch\<close>.\<close>

definition rcopy_switch ::
  "('s, 'c) rcopy_ops \<Rightarrow> bytes list \<Rightarrow> 'c \<Rightarrow> R_State \<Rightarrow> u32 \<Rightarrow> int \<Rightarrow> ('s, R_State \<times> u32 \<times> int) io" where
  "rcopy_switch ops argv server state seq fd =
    (case state of
       R_START_STATE \<Rightarrow> iobind (ro_start_state ops argv server seq) (\<lambda>(state, seq). ret (state, seq, fd))
     | R_FILENAME \<Rightarrow>
         iobind (lift_res (arr_get argv 1)) (\<lambda>a1.
         iobind (lift_res (arr_get argv 3)) (\<lambda>a3.
         iobind (ro_filename ops a1 (strtol10 a3) server) (\<lambda>state. ret (state, seq, fd))))
     | R_FILE_OK \<Rightarrow>
         iobind (lift_res (arr_get argv 2)) (\<lambda>a2.
         iobind (ro_file_ok ops fd a2) (\<lambda>(state, fd). ret (state, seq, fd)))
     | R_RECV_DATA \<Rightarrow> iobind (ro_recv_data ops fd server seq) (\<lambda>(state, seq). ret (state, seq, fd))
     | R_DONE \<Rightarrow> ret (R_DONE, seq, fd)
     | R_Other k \<Rightarrow> iobind (ro_print ops ''ERROR - in default state'') (\<lambda>_. ret (R_Other k, seq, fd)))"

partial_function (option) rcopy_states ::
  "('s, 'c) rcopy_ops \<Rightarrow> bytes list \<Rightarrow> 'c \<Rightarrow> R_State \<times> u32 \<times> int \<Rightarrow> 's \<Rightarrow> (unit res \<times> 's) option" where
  "rcopy_states ops argv server st w =
    (if fst st = R_DONE then Some (Inr (), w)
     else case rcopy_switch ops argv server (fst st) (fst (snd st)) (snd (snd st)) w of
       (Inl h, w') \<Rightarrow> Some (Inl h, w')
     | (Inr st, w') \<Rightarrow> rcopy_states ops argv server st w')"

definition processFile :: "('s, 'c) rcopy_ops \<Rightarrow> bytes list \<Rightarrow> 's \<Rightarrow> (unit res \<times> 's) option" where
  "processFile ops argv w =
    (case ro_new_server ops w of
       (Inl h, w) \<Rightarrow> Some (Inl h, w)
     | (Inr server, w) \<Rightarrow> rcopy_states ops argv server (R_START_STATE, 0, 0) w)"

text \<open>\<open>error_rate\<close> is the value of \<open>atof (argv[4])\<close>.\<close>

definition example_rcopy_main :: "('s, 'c) rcopy_ops \<Rightarrow> bytes list \<Rightarrow> rat \<Rightarrow> 's \<Rightarrow> (unit res \<times> 's) option" where
  "example_rcopy_main ops argv error_rate w =
    (case iobind (ro_check_args ops argv) (\<lambda>_. ro_sendtoErr_init ops error_rate 1 1 1 1) w of
       (Inl h, w) \<Rightarrow> Some (Inl h, w)
     | (Inr _, w) \<Rightarrow> processFile ops argv w)"

section \<open>The default branches\<close>

text \<open>A state function of the server that gives back a value outside the enumeration ends the loop.\<close>

lemma server_default_ends:
  assumes "op_print ops ''In default and you should not be here!!!!'' w = (Inr (), w')"
  shows "client_loop ops buf recv_len client (S_Other k) v w = Some (Inr (), w')"
  using assms by (simp add: client_loop.simps client_switch_def iobind_def)

text \<open>The client's loop does not: its default branch leaves the state as it is, and prints for ever.\<close>

lemma rcopy_default_runs_for_ever:
  assumes p: "\<And>w. \<exists>w'. ro_print ops ''ERROR - in default state'' w = (Inr (), w')"
  shows "rcopy_states ops argv server (R_Other k, seq, fd) w = None"
proof (rule ccontr)
  assume "rcopy_states ops argv server (R_Other k, seq, fd) w \<noteq> None"
  then obtain y where y: "rcopy_states ops argv server (R_Other k, seq, fd) w = Some y" by blast
  have "ops = ops \<longrightarrow> fst (R_Other k, seq, fd) \<noteq> R_Other k"
  proof (rule rcopy_states.raw_induct [where P = "\<lambda>os as sv st v y. os = ops \<longrightarrow> fst st \<noteq> R_Other k", OF _ y])
    fix f and os :: "('a, 'b) rcopy_ops" and as sv and st :: "R_State \<times> u32 \<times> int" and v z
    assume IH: "\<And>os as sv st v y. f os as sv st v = Some y \<Longrightarrow> os = ops \<longrightarrow> fst st \<noteq> R_Other k"
      and step: "(if fst st = R_DONE then Some (Inr (), v)
        else case rcopy_switch os as sv (fst st) (fst (snd st)) (snd (snd st)) v of
          (Inl h, w') \<Rightarrow> Some (Inl h, w') | (Inr st, w') \<Rightarrow> f os as sv st w') = Some z"
    show "os = ops \<longrightarrow> fst st \<noteq> R_Other k"
    proof (intro impI notI)
      assume "os = ops" "fst st = R_Other k"
      with step obtain v' where "f ops as sv (R_Other k, snd st) v' = Some z"
        using p [of v] by (auto simp: rcopy_switch_def iobind_def)
      from IH [OF this] show False by simp
    qed
  qed
  then show False by simp
qed

end
