(* ===== verification/Spec2Isabelle.thy ===== *)
theory Spec2Isabelle
  imports Lossless Library_Transfer Recovery CTypes_Client EventLog Rate_Zero Sockets Hooks PDU Course_Examples
begin

text \<open>
  Selective-reject file transfer over UDP: a model of the programs \<open>rcopy\<close> (client) and \<open>server\<close> under
  \<open>src/udpCode_spring26_v3\<close> and of the error library \<open>src/libcpe464_2_21b/libcpe464\<close> they send through,
  with the theorems that make the transfer correct.

  \<^bold>\<open>The program.\<close> The client cuts a file into chunks, numbers them from 2 and keeps those not yet
  acknowledged in a circular window; the server's parent forks a child per filename packet, and the child
  keeps what arrives out of order in a circular buffer, writes the chunks in order, acknowledges with RR
  packets and asks once per gap for the missing one with SREJ. Every datagram carries an Internet checksum.
  The library stands between the programs and \<open>sendto\<close>: it drops messages or inverts one of their bytes.

  \<^bold>\<open>Theories, in the order they build on each other.\<close>
  \<^item> \<open>Prelude\<close>: C types as words, outcomes (\<open>Exit\<close>, \<open>Trap\<close> for an undefined operation, \<open>Blocked\<close>),
    the two monads (\<open>res\<close>, and \<open>io\<close> over a state), checked array access, the weakest precondition
    \<open>post m w P E\<close>: \<open>m\<close> started in \<open>w\<close> never traps, satisfies \<open>P\<close> when it returns and \<open>E\<close> when it exits
    or blocks.
  \<^item> \<open>Checksum\<close> (\<open>checksum.c\<close>): \<open>in_cksum\<close> with its 32-bit accumulator; equality with RFC 1071; the
    locale \<open>checksum_code\<close> of what the packet format needs of a checksum, interpreted as \<open>internet\<close>.
  \<^item> \<open>Packet\<close> (\<open>Packet.c\<close>): the 7-byte header; round trips; a damaged packet is refused.
  \<^item> \<open>System\<close> (\<open>safeUtil.c\<close> and the system calls): the record \<open>world\<close> is a process and what the
    operating system and the network will answer it; theorems quantify over it.
  \<^item> \<open>PollLib\<close> (\<open>pollLib.c\<close>), \<open>Networks\<close> (\<open>networks.c\<close>): the poll table, and the socket setup as the programs see it.
    \<open>AddrText\<close> (\<open>inet_ntop\<close>), \<open>Resolver\<close> (\<open>gethostbyname.c\<close>), \<open>Sockets\<close> (all of \<open>networks.c\<close>): the same with the name
    lookup, the calls made and what is printed, on a state of its own (\<open>netio\<close>); \<open>Sockets\<close> refines \<open>Networks\<close>.
  \<^item> \<open>Buffer\<close> (\<open>Buffer.c\<close>) and \<open>Window\<close> (\<open>Window.c\<close>): the two circular arrays, refined to maps from sequence
    numbers; the locales \<open>reassembly\<close> and \<open>send_window\<close> state what server and client rely on and are interpreted on
    the code's model (\<open>circular\<close>, \<open>sliding\<close>).
  \<^item> \<open>Stream\<close>: chunks and their data packets. \<open>CText\<close>: \<open>strtol\<close>, \<open>atoi\<close> and \<open>strtok_r\<close> of the C library.
  \<^item> \<open>Server\<close> (\<open>server.c\<close>, \<open>server.h\<close>), \<open>Server_Correct\<close>: a definition per function; the invariant
    \<open>srv_inv\<close> of the child in every state, kept by every state function (\<open>post_server_step\<close>). \<open>Receiver\<close>: the abstract
    receiver (\<open>receive\<close>) that \<open>handle_data_packet\<close> refines. \<open>CTypes\<close>: the fields stay within their C types.
  \<^item> \<open>Rcopy\<close> (\<open>rcopy.c\<close>, \<open>rcopy.h\<close>), \<open>Rcopy_Correct\<close>: the same for the client (\<open>cli_inv\<close>). \<open>Sender\<close>: the
    abstract sender (\<open>hear\<close>) that \<open>process_controls\<close> and \<open>wait_on_ack_state\<close> refine.
    \<open>CTypes_Client\<close>: the fields stay within their C types.
  \<^item> \<open>ErrEvents\<close> (\<open>MsgEvents\<close>, \<open>dbg_print.c\<close>), \<open>PacketMgr\<close> (\<open>PacketManager.cpp\<close>), \<open>Settings\<close>
    (\<open>SettingsManager.cpp\<close>, \<open>network-hooks.c\<close>) with \<open>PacketMgr_Correct\<close> and \<open>ErrLib_Correct\<close>: the library over its
    own state \<open>errlib\<close>, the generator \<open>drand48\<close> and the rounding of floating-point products written out.
    \<open>EventLog\<close>: the log of messages and the report of it that the library's destructors print. \<open>Rate_Zero\<close>: what
    an error rate of 0 means.
    \<open>Hooks\<close>: \<open>selectMod\<close> and the stream calls of \<open>safeUtil.c\<close>, which no program here makes.
  \<^item> \<open>File_Transfer\<close>: the two programs and the network together; \<open>Lossless\<close>: their whole run over a network
    without faults; \<open>Library_Transfer\<close>: both with the error library below them; \<open>Recovery\<close>: how a
    lost packet is asked for, sent again and written, over the abstract sender and receiver.
  \<^item> \<open>PDU\<close> (\<open>PDU.c\<close>): the unused builder. \<open>Course_Examples\<close> (\<open>src/example\<close>): the two sketches, whose undefined
    functions are parameters.
  \<^item> this theory: the properties of server and client as whole processes.

  \<^bold>\<open>What is shown.\<close> The transfer: whatever the network loses, repeats, delays, reorders or damages, what the child
  has written is a prefix of the client's file, and the whole of it when the client exits with 0
  (\<open>file_transfer_correct\<close>). Its hypothesis on the network, \<open>carried\<close>, is that an arriving datagram is one the
  other side sent, intact or with one byte inverted, which is what the library is shown to do
  (\<open>wire_delivered\<close>); \<open>transfer_through_library\<close> puts the two together. Conversely, when every datagram
  arrives the transfer succeeds (\<open>lossless_transfer\<close>). Between the two, each side refines an abstract one
  (\<open>handle_data_packet_refines\<close>, \<open>process_controls_refines\<close>, \<open>wait_on_ack_refines\<close>), and a lost packet is
  recovered by one request (\<open>lost_packet_recovered\<close>). Neither process ever performs an undefined operation,
  with the one exception shown by \<open>unterminated_name_is_undefined\<close>, and both end. Below that: refinement of the circular arrays to maps, round
  trips of the formats, the contracts of polling, parent and signal handler, the configuration of the library.

  \<^bold>\<open>Loops and bounds.\<close> Loops that are bounded by their data are recursive with a measure. The state machines
  take fuel: \<open>14 + length (net w)\<close> turns are enough for a child and
  \<open>13 * (length (net w) + length (in_rest w)) + 14\<close> for a client, because every state function lowers a
  rank (\<open>srv_rank\<close>, \<open>cli_rank\<close>); the client's bound assumes that the sequence numbers do not wrap
  (\<open>nowrap\<close>), since the window closes for ever at the end of the range (\<open>window_closed_at_wrap\<close>). The parent serves
  for ever; \<open>process_server n\<close> is its first \<open>n\<close> turns. Events of the network are a list, after which it is quiet.

  \<^bold>\<open>Modelling decisions.\<close> Received packets are the bytes received, so reading past them is a trap. Lengths,
  counters and descriptors of type \<open>int\<close> are integers, which \<open>server_child_typed\<close> and \<open>client_typed\<close> show to
  stay within 32 bits; sequence numbers are 32-bit words that wrap. A write may be short, as the code ignores it; the theorems on contents assume full writes (\<open>writes w = []\<close>). The processes see the
  library only as \<open>sys_sendto\<close> that may fail: what it does to a datagram is on the network's side. The values of
  \<open>atof\<close> and \<open>strtof\<close> are arguments.

  \<^bold>\<open>Not modelled.\<close> The wording of what is printed for the user by the two programs. The kernel's
  part - \<open>poll\<close>, \<open>select\<close>, sockets, files,
  \<open>fork\<close> - and \<open>getaddrinfo\<close>, \<open>atof\<close>, \<open>strtof\<close> are answers or parameters.
\<close>

section \<open>The server\<close>

text \<open>C5: a child of the server ends whatever arrives, in whatever order and however damaged: started on a
  filename packet with a terminated name, with no descriptor hung up, it never performs an undefined
  operation, never waits for ever, and unless it exits its state machine is done after at most 14 turns
  more than there are events.\<close>

theorem server_child_ends:
  assumes "srv_fresh w" and "named_packet p" and "14 + length (net w) \<le> n"
  shows "fst (process_client junk n sock p (int (length p)) client w) \<notin> {Inl Trap, Inl Blocked, Inr None}"
proof -
  have "post (process_client junk n sock p (int (length p)) client) w
    (\<lambda>r w'. r \<noteq> None \<and> srv_end False [] w') (srv_end False [])"
    by (rule post_process_client)
      (use assms in \<open>simp_all add: srv_fresh_def named_packet_def srv_log_def\<close>)
  then show ?thesis by (auto simp: post_def split: sum.splits halt.splits prod.splits)
qed

lemma server_child_ends_witness:
  "fst (process_client demo_junk 16 5 demo_request 17 (1, 1)
    (demo_world [Arrives (Datagram (1, 1) demo_request), Quiet] [])) \<notin> {Inl Trap, Inl Blocked, Inr None}"
  using server_child_ends [of "demo_world [Arrives (Datagram (1, 1) demo_request), Quiet] []" demo_request 16 demo_junk 5 "(1, 1)"]
  by (simp add: srv_fresh_def named_packet_def demo_world_def demo_request_def)

text \<open>C7: as long as the data packets that arrive intact are those of a stream of chunks, a child
  writes a prefix of the stream, sends well-formed packets only, and no RR it ever sends
  acknowledges more chunks than it has written.\<close>

theorem server_child_writes_prefix:
  assumes "srv_fresh w" and "named_packet p" and "writes w = []" and "data_auth cs (net w)"
    and "14 + length (net w) \<le> n"
    and "process_client junk n sock p (int (length p)) client w = (r, w')"
  shows "\<exists>k rest. concat cs = out_data w' @ rest \<and>
    out_data w' = concat (take (k - 2) cs) \<and> (\<forall>x \<in> set (sent w'). srv_msg k (snd x))"
proof -
  obtain k pend where log: "srv_log True cs k pend w'" using server_log [OF assms] by blast
  then have st: "stream_ok cs 2 k pend (out_data w')" and msg: "\<forall>x \<in> set (sent w'). srv_msg k (snd x)"
    by (simp_all add: srv_log_def)
  have "out_data w' = concat (take (k - 2) cs)" using st by (simp add: stream_ok_def)
  with msg stream_ok_prefix [OF st] show ?thesis by blast
qed


text \<open>Both packets the server gets here are the request again, which is no data packet.\<close>

lemma demo_request_no_data: "data_auth cs (net (demo_world [Quiet, Quiet] []))"
  by (simp add: data_auth_def demo_world_def)

lemma server_child_writes_prefix_witness:
  "\<exists>r w' rest. process_client demo_junk 16 5 demo_request 17 (1, 1) (demo_world [Quiet, Quiet] []) = (r, w') \<and>
    [1, 2, 3] = out_data w' @ rest"
proof -
  let ?w = "demo_world [Quiet, Quiet] []"
  obtain r w' where run: "process_client demo_junk 16 5 demo_request 17 (1, 1) ?w = (r, w')" by fastforce
  then have "\<exists>k rest. concat [[1, 2], [3]] = out_data w' @ rest \<and> out_data w' = concat (take (k - 2) [[1, 2], [3]]) \<and>
      (\<forall>x \<in> set (sent w'). srv_msg k (snd x))"
    using server_child_writes_prefix [OF _ _ _ demo_request_no_data, of demo_request 16 demo_junk 5 "(1, 1)" r w' "[[1, 2], [3]]"]
    by (simp add: srv_fresh_def named_packet_def demo_world_def demo_request_def)
  with run show ?thesis by auto
qed

text \<open>C20: every turn of a child's state machine keeps the child's invariant, never goes back to an
  earlier state and brings the end nearer; a system call that fails ends the process with
  everything sent and written so far still correct.\<close>

theorem server_step_invariant:
  assumes "srv_inv A cs st info w" and "st \<noteq> Server.DONE"
  shows "post (server_step junk st info) w
    (\<lambda>r w'. srv_inv A cs (fst r) (snd r) w' \<and> st \<le> fst r \<and> srv_rank (fst r) (snd r) w' < srv_rank st info w)
    (srv_end A cs)"
  by (rule post_server_step [OF assms])

lemma server_step_invariant_witness:
  "post (server_step demo_junk START zero_ServerInfo) (demo_world [Quiet] [])
    (\<lambda>r w'. START \<le> fst r \<and> srv_rank (fst r) (snd r) w' < 15) (srv_end False [])"
proof -
  have "c_string (replicate 1407 0) 15 = Inr []" by (simp add: c_string_def eval_nat_numeral)
  then have "srv_inv False [] START zero_ServerInfo (demo_world [Quiet] [])"
    by (simp add: srv_inv_def srv_common_def zero_ServerInfo_def zero_Buffer_def demo_world_def srv_log_def)
  from server_step_invariant [OF this, of demo_junk] show ?thesis
    by (rule post_mono) (simp_all add: srv_rank_def demo_world_def)
qed

text \<open>C19: the filename packet \<open>rcopy\<close> builds and the server's reading of it agree: the child opens the
  name the client was given, with the window size and the buffer size of the client's command
  line.\<close>

theorem filename_round_trip:
  assumes name: "length name \<le> SREJ_MAX_NAME" "0 \<notin> set name"
    and sizes: "0 < ri_window_size ri" "ri_window_size ri < 2 ^ 31" "0 < ri_buffer_size ri" "ri_buffer_size ri < 2 ^ 31"
    and p: "p = packet_bytes (ri_control_seq ri) FLAG_FILENAME (name_payload (ri_window_size ri) (ri_buffer_size ri) name)"
    and first: "si_first_packet info = p @ replicate (SREJ_MAX_PACKET - length p) 0"
  shows "(\<exists>rest. send_filename_packet name ri = filename_loop ri (p @ rest) (int (length p)) 0) \<and>
    Server.filename_state info =
      iobind (sys_open_trunc name) (\<lambda>fd.
        let info = info\<lparr>si_window_size := ri_window_size ri, si_buffer_size := ri_buffer_size ri,
          si_output_file := fd\<rparr> in
        if fd < 0 then iobind (send_filename_response info 1) (\<lambda>info. ret (Server.DONE, info))
        else iobind (send_filename_response info 0) (\<lambda>info.
          iobind (buffer_init (si_buffer info) (si_window_size info) FIRST_DATA_SEQ (si_output_file info)) (\<lambda>b.
          ret (RECV_DATA, info\<lparr>si_buffer := b\<rparr>))))"
proof -
  let ?d = "name_payload (ri_window_size ri) (ri_buffer_size ri) name"
  have fits: "fits ?d" using name(1) by simp
  have lp: "length p = 16 + length name" using fits by (simp add: p)
  have sent: "\<exists>rest. send_filename_packet name ri = filename_loop ri (p @ rest) (int (length p)) 0"
    using send_filename_packet_eq [OF name(1), of ri] unfolding p [symmetric] lp .
  let ?W = "word_of_int (ri_window_size ri) :: u32" and ?B = "word_of_int (ri_buffer_size ri) :: u32"
  have f: "read_u32 (si_first_packet info) 7 = Inr ?W" "read_u32 (si_first_packet info) (7 + 4) = Inr ?B"
    "c_string (si_first_packet info) (7 + 8) = Inr name"
    unfolding first using name_packet_fields [OF name p] by blast+
  have "sint ?W = ri_window_size ri" "sint ?B = ri_buffer_size ri"
    using sizes by (simp_all add: sint_word_of_int_u32)
  then show ?thesis using sent
    unfolding Server.filename_state_def f iobind_eqs by simp
qed


lemma filename_round_trip_witness:
  "let p = packet_bytes 1 FLAG_FILENAME (name_payload 4 1000 [97, 98]);
       ri = zero_RcopyInfo\<lparr>ri_window_size := 4, ri_buffer_size := 1000, ri_control_seq := 1\<rparr> in
   \<exists>rest. send_filename_packet [97, 98] ri = filename_loop ri (p @ rest) (int (length p)) 0"
  unfolding Let_def
  using filename_round_trip [of "[97, 98]"
      "zero_RcopyInfo\<lparr>ri_window_size := 4, ri_buffer_size := 1000, ri_control_seq := 1\<rparr>"
      "packet_bytes 1 FLAG_FILENAME (name_payload 4 1000 [97, 98])"
      "zero_ServerInfo\<lparr>si_first_packet := packet_bytes 1 FLAG_FILENAME (name_payload 4 1000 [97, 98]) @
        replicate (SREJ_MAX_PACKET - length (packet_bytes 1 FLAG_FILENAME (name_payload 4 1000 [97, 98]))) 0\<rparr>"]
  by simp

text \<open>C39: a filename packet of the full 1407 bytes in which no byte after the sizes is 0 passes every
  check of the server, and then the child's read of the name runs past the end of its array.\<close>

theorem unterminated_name_is_undefined:
  assumes "length (si_first_packet info) = SREJ_MAX_PACKET" and "0 \<notin> set (drop 15 (si_first_packet info))"
  shows "Server.filename_state info w = (Inl Trap, w)"
proof -
  let ?a = "si_first_packet info"
  have rd: "\<exists>v. read_u32 ?a off = Inr v" if "off \<le> 1403" for off
    using assms(1) that by (simp add: read_u32_def)
  obtain u where "read_u32 ?a 7 = Inr u" using rd [of 7] by auto
  moreover obtain v where "read_u32 ?a (7 + 4) = Inr v" using rd [of 11] by auto
  moreover have "takeWhile (\<lambda>b. b \<noteq> 0) (drop 15 ?a) = drop 15 ?a"
    using assms(2) by (auto simp: takeWhile_eq_all_conv)
  then have "c_string ?a (7 + 8) = Inl Trap"
    using assms(1) by (simp add: c_string_def Let_def del: takeWhile_eq_all_conv)
  ultimately show ?thesis
    unfolding Server.filename_state_def by (simp add: iobind_eqs iobind_def)
qed

lemma unterminated_name_is_undefined_witness:
  "Server.filename_state (zero_ServerInfo\<lparr>si_first_packet := replicate 1407 7\<rparr>) (demo_world [] []) =
    (Inl Trap, demo_world [] [])"
  by (rule unterminated_name_is_undefined) simp_all

lemma accept_packet_eq:
  assumes p: "length p \<le> SREJ_MAX_PACKET"
  shows "iobind (lift_res (check_packet p (int (length p)))) (\<lambda>ok.
      if \<not> ok then ret ()
      else iobind (lift_res (get_flag p)) (\<lambda>flag.
        if flag = FLAG_FILENAME then
          iobind sys_fork (\<lambda>pid w.
            if pid < 0 then (Inl (Exit (- 1)), w)
            else (Inr (), w\<lparr>children := children w @ [(a, p)]\<rparr>))
        else ret ())) v =
    (if check_packet p (int (length p)) = Inr True \<and> get_flag p = Inr FLAG_FILENAME
     then if forks v \<noteq> [] \<and> \<not> hd (forks v) then (Inl (Exit (- 1)), v\<lparr>forks := tl (forks v)\<rparr>)
       else (Inr (), v\<lparr>forks := tl (forks v), children := children v @ [(a, p)]\<rparr>)
     else (Inr (), v))"
proof -
  have "int (length p) \<le> 65536" using p by linarith
  then obtain b where b: "check_packet p (int (length p)) = Inr b" using check_packet_defined by blast
  show ?thesis
  proof (cases b)
    case True
    with b obtain f where "get_flag p = Inr f" using check_packet_True(4) [of p] by auto
    with b True show ?thesis
      by (auto simp: iobind_def sys_fork_def split: list.splits bool.splits)
  qed (simp add: b iobind_def)
qed

text \<open>C21: one turn of the parent, whatever arrives: it waits for the next arrival. When that is an intact
  filename packet, it makes exactly one child, which is given that packet and the address it came from, or
  exits when the system refuses the fork; for any other datagram, damaged ones included, it makes none; it
  exits when receiving fails, and waits for ever when nothing comes. Nothing else of its state changes but
  the answers it has used up, and it never performs an undefined operation.\<close>

theorem accept_client_contract:
  "accept_client w =
    (case next_arrival (net w) of
       None \<Rightarrow> (Inl Blocked, w)
     | Some (RecvError, es) \<Rightarrow> (Inl (Exit (- 1)), w\<lparr>net := es\<rparr>)
     | Some (Datagram a m, es) \<Rightarrow>
         let p = take SREJ_MAX_PACKET m; v = w\<lparr>net := es\<rparr> in
         if check_packet p (int (length p)) = Inr True \<and> get_flag p = Inr FLAG_FILENAME
         then if forks w \<noteq> [] \<and> \<not> hd (forks w) then (Inl (Exit (- 1)), v\<lparr>forks := tl (forks w)\<rparr>)
           else (Inr (), v\<lparr>forks := tl (forks w), children := children w @ [(a, p)]\<rparr>)
         else (Inr (), v))"
proof (cases "next_arrival (net w)")
  case None
  then show ?thesis by (simp add: accept_client_def safeRecvfrom_def sys_recvfrom_def iobind_def)
next
  case (Some x)
  obtain r es where x: "x = (r, es)" by (cases x)
  show ?thesis
  proof (cases r)
    case RecvError
    with Some x show ?thesis by (simp add: accept_client_def safeRecvfrom_def sys_recvfrom_def iobind_def)
  next
    case (Datagram a m)
    let ?p = "take SREJ_MAX_PACKET m" and ?v = "w\<lparr>net := es\<rparr>"
    have "safeRecvfrom (int SREJ_MAX_PACKET) w = (Inr (a, ?p), ?v)"
      using Some x Datagram by (simp add: safeRecvfrom_def sys_recvfrom_def iobind_def)
    then have "accept_client w = (iobind (lift_res (check_packet ?p (int (length ?p)))) (\<lambda>ok.
      if \<not> ok then ret ()
      else iobind (lift_res (get_flag ?p)) (\<lambda>flag.
        if flag = FLAG_FILENAME then
          iobind sys_fork (\<lambda>pid w.
            if pid < 0 then (Inl (Exit (- 1)), w)
            else (Inr (), w\<lparr>children := children w @ [(a, ?p)]\<rparr>))
        else ret ()))) ?v"
      by (simp only: accept_client_def iobind_def [of "safeRecvfrom _"] prod.case sum.case)
    also note accept_packet_eq [of ?p a ?v]
    finally show ?thesis using Some x Datagram by (simp add: Let_def)
  qed
qed

text \<open>The handler of SIGCHLD ends and leaves no finished child unreaped.\<close>

theorem handle_zombies_reaps_all: "handle_zombies w = (Inr (), w\<lparr>zombies := 0\<rparr>)"
proof (induction "zombies w" arbitrary: w)
  case 0
  then show ?case by (simp add: handle_zombies.simps [of w] sys_waitpid_def)
next
  case (Suc n)
  let ?v = "w\<lparr>zombies := zombies w - 1\<rparr>"
  have "handle_zombies ?v = (Inr (), ?v\<lparr>zombies := 0\<rparr>)" by (rule Suc.hyps(1)) (use Suc.hyps(2) in simp)
  with Suc.hyps(2) show ?case by (simp add: handle_zombies.simps [of w] sys_waitpid_def)
qed


section \<open>The client\<close>

text \<open>The check of the command line either exits with -1 or leaves arguments within the bounds the
  rest of the program relies on.\<close>

theorem check_args_bounds:
  "check_args argv error_rate = Inl (Exit (- 1)) \<or>
   check_args argv error_rate = Inr () \<and> length argv = 8 \<and>
     length (argv ! 1) \<le> SREJ_MAX_NAME \<and> length (argv ! 2) \<le> SREJ_MAX_NAME \<and>
     0 < atoi (argv ! 3) \<and> atoi (argv ! 3) < 2 ^ 30 \<and>
     0 < atoi (argv ! 4) \<and> atoi (argv ! 4) \<le> int SREJ_MAX_DATA \<and> 0 \<le> error_rate \<and> error_rate \<le> 1"
  using check_args_exits [of argv error_rate] check_args_ok [of argv error_rate] by auto

text \<open>C8: the client never performs an undefined operation, whatever arrives, and everything it sends
  is a filename, EOF or DONE packet or the data packet of a chunk of the file's beginning, each
  chunk under its own number.\<close>

theorem client_sends_only_the_file:
  assumes "cli_fresh F w" and "check_args argv error_rate = Inr ()"
    and "process_file junk n argv w = (r, w')"
  shows "r \<noteq> Inl Trap \<and> (\<exists>cs rest. F = concat cs @ rest \<and> chunks_ok cs \<and>
    (\<forall>x \<in> set (sent w'). (\<exists>k < length cs. snd x = data_packet cs k) \<or> cli_other (snd x)))"
proof -
  obtain cs where "cli_log F cs w'" using client_log [OF assms] by blast
  moreover have "r \<noteq> Inl Trap" using post_no_trap [OF post_process_file [OF assms(1,2), of junk n]] assms(3) by simp
  ultimately show ?thesis unfolding cli_log_def cli_msg_def by blast
qed

lemma client_sends_only_the_file_witness:
  "\<exists>r w'. process_file demo_junk 60 demo_argv (demo_world [Quiet, Quiet] [7, 8, 9]) = (r, w') \<and> r \<noteq> Inl Trap"
proof -
  obtain r w' where "process_file demo_junk 60 demo_argv (demo_world [Quiet, Quiet] [7, 8, 9]) = (r, w')" by fastforce
  with client_sends_only_the_file [OF _ demo_args this, of "[7, 8, 9]"] show ?thesis
    by (simp add: cli_fresh_def demo_world_def)
qed

text \<open>C6: a client whose sequence numbers do not wrap ends whatever arrives: started with no descriptor hung
  up, it never performs an undefined operation, never waits for ever, and unless it exits 13 turns for each
  event of the network and each byte of the file, and 14 more, are enough.\<close>

theorem client_ends:
  assumes "cli_fresh F w" and "check_args argv error_rate = Inr ()"
    and "2 + length F + nat (atoi (argv ! 3)) < 2 ^ 32"
    and "13 * (length (net w) + length F) + 14 \<le> n"
  shows "fst (process_file junk n argv w) \<notin> {Inl Trap, Inl Blocked, Inr None}"
proof -
  have "in_rest w = F" using assms(1) by (simp add: cli_fresh_def)
  then show ?thesis
    using post_process_file [OF assms(1,2), of junk n] assms(3,4)
    by (auto simp: post_def nowrap_def split: sum.splits halt.splits prod.splits)
qed

lemma client_ends_witness:
  "fst (process_file demo_junk 79 demo_argv (demo_world [Quiet, Quiet] [7, 8, 9])) \<notin> {Inl Trap, Inl Blocked, Inr None}"
proof -
  have "atoi [50] = 2" by (simp add: atoi_def strtol10_def digits_value_def is_digit_def is_space_def)
  then show ?thesis
    using client_ends [OF _ demo_args, of "[7, 8, 9]" "demo_world [Quiet, Quiet] [7, 8, 9]" 79 demo_junk]
    by (simp add: cli_fresh_def demo_world_def demo_argv_def)
qed

text \<open>What the exit status of the client means: status 0 only if the whole file was sent, in chunks
  of at most 1400 bytes, and an acknowledgement of the last one was received.\<close>

theorem client_success_is_complete:
  assumes "cli_fresh F w" and "check_args argv error_rate = Inr ()"
    and "process_file junk n argv w = (r, w')"
  shows "r = Inr (Some 0) \<longrightarrow> (\<exists>cs. F = concat cs \<and> chunks_ok cs \<and> (cs = [] \<or> rr_seen (net w) (2 + length cs)))"
  using client_log [OF assms] by (auto simp: acked_all_def cli_log_def)

lemma client_success_is_complete_witness:
  "\<exists>r w'. process_file demo_junk 60 demo_argv (demo_world [Quiet, Quiet] [7, 8, 9]) = (r, w') \<and> r \<noteq> Inr (Some 0)"
proof -
  obtain r w' where run: "process_file demo_junk 60 demo_argv (demo_world [Quiet, Quiet] [7, 8, 9]) = (r, w')" by fastforce
  have "\<not> rr_seen [Quiet, Quiet] k" for k by (simp add: rr_seen_def)
  with client_success_is_complete [OF _ demo_args run, of "[7, 8, 9]"] have "r \<noteq> Inr (Some 0)"
    by (auto simp: cli_fresh_def demo_world_def)
  with run show ?thesis by blast
qed

end
